(* ===== verification/Prelude.thy ===== *)
theory Prelude
  imports Main "HOL-Library.Word" "HOL-Library.Monad_Syntax" "HOL-Library.Multiset"
begin

text \<open>
  Shared vocabulary of the development.  A kernel routine that can fail an \<open>ASSERT\<close>,
  call \<open>PANIC\<close>, or touch memory outside the objects it owns is a function into
  \<open>'a option\<close>: \<open>None\<close> is the halted kernel (or undefined behaviour), \<open>Some\<close> carries the
  value the C function leaves behind.  Sequencing is \<open>Option.bind\<close> in do-notation, so a
  model reads in the order of the C statements.  The theory holds the width-indexed
  integer types, the assertion and array primitives, the rounding macros of
  \<open>lib/round.h\<close>, the rules that let the simplifier run such programs, and the interface
  of the comparison callbacks (\<open>list_less_func\<close>, \<open>hash_less_func\<close>).
\<close>

unbundle bit_operations_syntax

section \<open>Machine integers\<close>

type_synonym u8 = "8 word"
type_synonym u16 = "16 word"
type_synonym u32 = "32 word"
type_synonym u64 = "64 word"

lemma unat_lt_32: "unat (w :: u32) < 2 ^ 32"
  using unsigned_less [of w, where ?'a = nat] by simp

lemma unat_lt_64: "unat (w :: u64) < 2 ^ 64"
  using unsigned_less [of w] by simp

text \<open>Addresses of kernel objects.\<close>

type_synonym addr = nat

abbreviation NULL :: addr where
  "NULL \<equiv> 0"

section \<open>Running kernel code\<close>

named_theorems run_simps \<open>rules that evaluate the option-valued kernel programs\<close>

text \<open>\<open>ASSERT\<close> of \<open>lib/debug.h\<close>: a false condition panics.\<close>

definition ASSERT :: "bool \<Rightarrow> unit option" where
  "ASSERT b = (if b then Some () else None)"

lemma ASSERT_True [simp]: "ASSERT True = Some ()"
  by (simp add: ASSERT_def)

lemma ASSERT_False [simp]: "ASSERT False = None"
  by (simp add: ASSERT_def)

lemma ASSERT_eq_Some [simp]: "ASSERT b = Some u \<longleftrightarrow> b"
  by (simp add: ASSERT_def)

lemma ASSERT_bind_eq_Some [simp]: "Option.bind (ASSERT b) f = Some x \<longleftrightarrow> b \<and> f () = Some x"
  by (simp add: ASSERT_def)

lemma ASSERT_bind: "Option.bind (ASSERT b) f = (if b then f () else None)"
  by (simp add: ASSERT_def)

text \<open>
  The simplifier must not look into the continuation of a bind before the first step has
  a value; otherwise it would unfold loops forever.
\<close>

lemma bind_weak_cong: "x = x' \<Longrightarrow> Option.bind x f = Option.bind x' f"
  by simp

declare ASSERT_bind [run_simps]

section \<open>Arrays with bounds\<close>

definition rd :: "'a list \<Rightarrow> nat \<Rightarrow> 'a option" where
  "rd xs i = (if i < length xs then Some (xs ! i) else None)"

definition wr :: "'a list \<Rightarrow> nat \<Rightarrow> 'a \<Rightarrow> 'a list option" where
  "wr xs i v = (if i < length xs then Some (xs[i := v]) else None)"

lemma rd_in [simp]: "i < length xs \<Longrightarrow> rd xs i = Some (xs ! i)"
  by (simp add: rd_def)

lemma wr_in [simp]: "i < length xs \<Longrightarrow> wr xs i v = Some (xs[i := v])"
  by (simp add: wr_def)

lemma rd_eq_Some: "rd xs i = Some v \<longleftrightarrow> i < length xs \<and> v = xs ! i"
  by (auto simp: rd_def)

lemma wr_eq_Some: "wr xs i v = Some ys \<longleftrightarrow> i < length xs \<and> ys = xs[i := v]"
  by (auto simp: wr_def)

lemma rd_None [simp]: "rd xs i = None \<longleftrightarrow> length xs \<le> i"
  by (auto simp: rd_def)

section \<open>Counting loops\<close>

text \<open>\<open>for (i = lo; i < hi; i++) s = f (i, s);\<close> with a body that may panic.\<close>

function for_range :: "nat \<Rightarrow> nat \<Rightarrow> (nat \<Rightarrow> 's \<Rightarrow> 's option) \<Rightarrow> 's \<Rightarrow> 's option" where
  "for_range lo hi f s =
     (if lo < hi then do { s \<leftarrow> f lo s; for_range (Suc lo) hi f s } else Some s)"
  by pat_completeness auto
termination by (relation "measure (\<lambda>(lo, hi, f, s). hi - lo)") auto

declare for_range.simps [simp del]

lemma for_range_done [simp]: "hi \<le> lo \<Longrightarrow> for_range lo hi f s = Some s"
  by (simp add: for_range.simps)

lemma for_range_step: "lo < hi \<Longrightarrow>
    for_range lo hi f s = do { s \<leftarrow> f lo s; for_range (Suc lo) hi f s }"
  by (subst for_range.simps) simp

lemma for_range_rule:
  assumes "lo \<le> hi" "I lo s"
    and "\<And>i s. lo \<le> i \<Longrightarrow> i < hi \<Longrightarrow> I i s \<Longrightarrow> \<exists>s'. f i s = Some s' \<and> I (Suc i) s'"
  shows "\<exists>s'. for_range lo hi f s = Some s' \<and> I hi s'"
  using assms
proof (induction "hi - lo" arbitrary: lo s)
  case (Suc n)
  then have "lo < hi" by simp
  with Suc.prems obtain s' where "f lo s = Some s'" "I (Suc lo) s'" by blast
  moreover have "\<exists>s''. for_range (Suc lo) hi f s' = Some s'' \<and> I hi s''"
    using Suc.hyps \<open>lo < hi\<close> \<open>I (Suc lo) s'\<close> Suc.prems(3) by simp
  ultimately show ?case using \<open>lo < hi\<close> by (simp add: for_range_step)
qed simp

lemma for_range_cong:
  assumes "\<And>i s. lo \<le> i \<Longrightarrow> i < hi \<Longrightarrow> f i s = g i s"
  shows "for_range lo hi f s = for_range lo hi g s"
  using assms
proof (induction "hi - lo" arbitrary: lo s)
  case (Suc n)
  then have "lo < hi" by simp
  moreover have "for_range (Suc lo) hi f t = for_range (Suc lo) hi g t" for t
    using Suc.hyps \<open>lo < hi\<close> Suc.prems by simp
  ultimately show ?case using Suc.prems by (simp add: for_range_step)
qed simp

lemma for_range_snoc:
  "lo \<le> hi \<Longrightarrow> for_range lo (Suc hi) f s = do { s \<leftarrow> for_range lo hi f s; f hi s }"
proof (induction "hi - lo" arbitrary: lo s)
  case 0
  then show ?case by (simp add: for_range_step)
next
  case (Suc n)
  then have "lo < hi" by simp
  then show ?case using Suc.hyps by (simp add: for_range_step)
qed

section \<open>Rounding macros (lib/round.h)\<close>

definition ROUND_UP :: "nat \<Rightarrow> nat \<Rightarrow> nat" where
  "ROUND_UP x step = (x + step - 1) div step * step"

definition DIV_ROUND_UP :: "nat \<Rightarrow> nat \<Rightarrow> nat" where
  "DIV_ROUND_UP x step = (x + step - 1) div step"

definition ROUND_DOWN :: "nat \<Rightarrow> nat \<Rightarrow> nat" where
  "ROUND_DOWN x step = x div step * step"

lemma DIV_ROUND_UP_le_iff: "0 < step \<Longrightarrow> DIV_ROUND_UP x step \<le> k \<longleftrightarrow> x \<le> k * step"
proof -
  assume s: "0 < step"
  have "(x + step - 1) div step \<le> k \<longleftrightarrow> (x + step - 1) div step < Suc k"
    by (simp add: less_Suc_eq_le)
  also have "\<dots> \<longleftrightarrow> x + step - 1 < Suc k * step"
    using s by (simp add: less_mult_imp_div_less div_less_iff_less_mult)
  also have "\<dots> \<longleftrightarrow> x \<le> k * step"
    using s by (cases step) auto
  finally show ?thesis by (simp add: DIV_ROUND_UP_def)
qed

lemma less_DIV_ROUND_UP_iff: "0 < step \<Longrightarrow> k < DIV_ROUND_UP x step \<longleftrightarrow> k * step < x"
  using DIV_ROUND_UP_le_iff [of step x k] by linarith

lemma ROUND_UP_le: "0 < step \<Longrightarrow> x \<le> ROUND_UP x step"
  using DIV_ROUND_UP_le_iff [of step x "DIV_ROUND_UP x step"]
  by (simp add: ROUND_UP_def DIV_ROUND_UP_def)

lemma ROUND_UP_least: "0 < step \<Longrightarrow> x \<le> k * step \<Longrightarrow> ROUND_UP x step \<le> k * step"
  using DIV_ROUND_UP_le_iff [of step x k]
  by (simp add: ROUND_UP_def DIV_ROUND_UP_def)

lemma ROUND_UP_dvd [simp]: "step dvd ROUND_UP x step"
  by (simp add: ROUND_UP_def)

section \<open>Generic list lemmas\<close>

lemma nth_list_update_swap:
  "i < length xs \<Longrightarrow> j < length xs \<Longrightarrow>
    mset (xs[i := xs ! j, j := xs ! i]) = mset xs"
  by (metis mset_swap)

lemma take_Suc_nth: "i < length xs \<Longrightarrow> take (Suc i) xs = take i xs @ [xs ! i]"
  by (simp add: take_Suc_conv_app_nth)

lemma drop_nth_Cons: "i < length xs \<Longrightarrow> drop i xs = xs ! i # drop (Suc i) xs"
  by (simp add: Cons_nth_drop_Suc)


section \<open>Comparison callbacks\<close>

text \<open>
  The contract of a comparison callback (\<open>list_less_func\<close>, \<open>hash_less_func\<close>) on the elements
  of \<open>A\<close>: a strict order for which being unordered is transitive.
\<close>

definition eqv :: "('a \<Rightarrow> 'a \<Rightarrow> bool) \<Rightarrow> 'a \<Rightarrow> 'a \<Rightarrow> bool" where
  "eqv lt a b \<longleftrightarrow> \<not> lt a b \<and> \<not> lt b a"

locale strict_weak_order =
  fixes less :: "'a \<Rightarrow> 'a \<Rightarrow> bool" and A :: "'a set"
  assumes asym: "a \<in> A \<Longrightarrow> b \<in> A \<Longrightarrow> less a b \<Longrightarrow> \<not> less b a"
    and negtrans: "a \<in> A \<Longrightarrow> b \<in> A \<Longrightarrow> c \<in> A \<Longrightarrow> less a c \<Longrightarrow> less a b \<or> less b c"
begin

lemma irrefl: "a \<in> A \<Longrightarrow> \<not> less a a"
  using asym by blast

lemma le_trans:
  "a \<in> A \<Longrightarrow> b \<in> A \<Longrightarrow> c \<in> A \<Longrightarrow> \<not> less b a \<Longrightarrow> \<not> less c b \<Longrightarrow> \<not> less c a"
  using negtrans by blast

lemma less_le_trans:
  "a \<in> A \<Longrightarrow> b \<in> A \<Longrightarrow> c \<in> A \<Longrightarrow> less a b \<Longrightarrow> \<not> less c b \<Longrightarrow> less a c"
  using negtrans by blast

lemma less_trans: "a \<in> A \<Longrightarrow> b \<in> A \<Longrightarrow> c \<in> A \<Longrightarrow> less a b \<Longrightarrow> less b c \<Longrightarrow> less a c"
  using negtrans asym by blast

lemma eqv_less: "a \<in> A \<Longrightarrow> b \<in> A \<Longrightarrow> c \<in> A \<Longrightarrow> eqv less a b \<Longrightarrow> less b c \<Longrightarrow> less a c"
  unfolding eqv_def using negtrans by blast

text \<open>Checking neighbours is enough to be in order.\<close>

lemma sorted_neighbours:
  "set xs \<subseteq> A \<Longrightarrow>
     successively (\<lambda>x y. \<not> less y x) xs \<longleftrightarrow> sorted_wrt (\<lambda>x y. \<not> less y x) xs"
proof (induction xs)
  case (Cons x xs)
  show ?case
  proof (cases xs)
    case (Cons y ys)
    have "\<forall>z\<in>set ys. \<not> less z x"
      if "\<not> less y x" "sorted_wrt (\<lambda>x y. \<not> less y x) (y # ys)"
      using that Cons Cons.prems le_trans [of x y] by auto
    then show ?thesis using Cons Cons.IH Cons.prems by auto
  qed simp
qed simp

end

end
