(* ===== verification/KList.thy ===== *)
theory KList
  imports Prelude
begin

text \<open>
  The intrusive doubly linked lists of \<open>lib/kernel/list.c\<close>, at the level of pointers.
  Memory is a partial map from addresses to \<open>struct list_elem\<close>; a null or unmapped
  dereference, or a failed \<open>ASSERT\<close>, is \<open>None\<close>.  A \<open>struct list\<close> at address \<open>l\<close> is its
  two header elements: \<open>head\<close> at \<open>l\<close> and \<open>tail\<close> right behind it at \<open>l + 8\<close>.  Loops over
  \<open>next\<close> pointers are \<open>partial_function (option)\<close>, because nothing but the
  well-formedness of the list makes them stop.

  The predicate \<open>dlist h l xs\<close> says that the heap holds a well-formed list whose interior
  elements are the addresses \<open>xs\<close>.  Every operation is shown to run without a fault and
  to refine the corresponding operation on \<open>xs\<close>, leaving all other memory alone.
\<close>

section \<open>Memory\<close>

record list_elem =
  le_prev :: addr
  le_next :: addr

type_synonym lheap = "addr \<rightharpoonup> list_elem"

definition load :: "lheap \<Rightarrow> addr \<Rightarrow> list_elem option" where
  "load h p = (if p = NULL then None else h p)"

definition set_next :: "lheap \<Rightarrow> addr \<Rightarrow> addr \<Rightarrow> lheap option" where
  "set_next h p v = do { e \<leftarrow> load h p; Some (h(p \<mapsto> e\<lparr>le_next := v\<rparr>)) }"

definition set_prev :: "lheap \<Rightarrow> addr \<Rightarrow> addr \<Rightarrow> lheap option" where
  "set_prev h p v = do { e \<leftarrow> load h p; Some (h(p \<mapsto> e\<lparr>le_prev := v\<rparr>)) }"

section \<open>The code\<close>

definition is_head :: "lheap \<Rightarrow> addr \<Rightarrow> bool option" where
  "is_head h e = (if e = NULL then Some False
     else do { x \<leftarrow> load h e; Some (le_prev x = NULL \<and> le_next x \<noteq> NULL) })"

definition is_interior :: "lheap \<Rightarrow> addr \<Rightarrow> bool option" where
  "is_interior h e = (if e = NULL then Some False
     else do { x \<leftarrow> load h e; Some (le_prev x \<noteq> NULL \<and> le_next x \<noteq> NULL) })"

definition is_tail :: "lheap \<Rightarrow> addr \<Rightarrow> bool option" where
  "is_tail h e = (if e = NULL then Some False
     else do { x \<leftarrow> load h e; Some (le_prev x \<noteq> NULL \<and> le_next x = NULL) })"

text \<open>The address of \<open>list->tail\<close>; \<open>&list->head\<close> is the address of the list itself.\<close>

abbreviation tail_of :: "addr \<Rightarrow> addr" where
  "tail_of l \<equiv> l + 8"

definition list_init :: "lheap \<Rightarrow> addr \<Rightarrow> lheap option" where
  "list_init h l = do {
     ASSERT (l \<noteq> NULL);
     h \<leftarrow> set_prev h l NULL;
     h \<leftarrow> set_next h l (tail_of l);
     h \<leftarrow> set_prev h (tail_of l) l;
     set_next h (tail_of l) NULL
   }"

definition list_begin :: "lheap \<Rightarrow> addr \<Rightarrow> addr option" where
  "list_begin h l = do { ASSERT (l \<noteq> NULL); x \<leftarrow> load h l; Some (le_next x) }"

definition list_next :: "lheap \<Rightarrow> addr \<Rightarrow> addr option" where
  "list_next h e = do {
     a \<leftarrow> is_head h e; b \<leftarrow> is_interior h e;
     ASSERT (a \<or> b);
     x \<leftarrow> load h e; Some (le_next x)
   }"

definition list_end :: "addr \<Rightarrow> addr option" where
  "list_end l = do { ASSERT (l \<noteq> NULL); Some (tail_of l) }"

definition list_rbegin :: "lheap \<Rightarrow> addr \<Rightarrow> addr option" where
  "list_rbegin h l = do { ASSERT (l \<noteq> NULL); x \<leftarrow> load h (tail_of l); Some (le_prev x) }"

definition list_prev :: "lheap \<Rightarrow> addr \<Rightarrow> addr option" where
  "list_prev h e = do {
     a \<leftarrow> is_interior h e; b \<leftarrow> is_tail h e;
     ASSERT (a \<or> b);
     x \<leftarrow> load h e; Some (le_prev x)
   }"

definition list_rend :: "addr \<Rightarrow> addr option" where
  "list_rend l = do { ASSERT (l \<noteq> NULL); Some l }"

definition list_head :: "addr \<Rightarrow> addr option" where
  "list_head l = do { ASSERT (l \<noteq> NULL); Some l }"

definition list_tail :: "addr \<Rightarrow> addr option" where
  "list_tail l = do { ASSERT (l \<noteq> NULL); Some (tail_of l) }"

definition list_insert :: "lheap \<Rightarrow> addr \<Rightarrow> addr \<Rightarrow> lheap option" where
  "list_insert h before elem = do {
     a \<leftarrow> is_interior h before; b \<leftarrow> is_tail h before;
     ASSERT (a \<or> b);
     ASSERT (elem \<noteq> NULL);
     bf \<leftarrow> load h before;
     h \<leftarrow> set_prev h elem (le_prev bf);
     h \<leftarrow> set_next h elem before;
     bf \<leftarrow> load h before;
     h \<leftarrow> set_next h (le_prev bf) elem;
     set_prev h before elem
   }"

definition list_splice :: "lheap \<Rightarrow> addr \<Rightarrow> addr \<Rightarrow> addr \<Rightarrow> lheap option" where
  "list_splice h before first last0 = do {
     a \<leftarrow> is_interior h before; b \<leftarrow> is_tail h before;
     ASSERT (a \<or> b);
     if first = last0 then Some h else do {
       last \<leftarrow> list_prev h last0;
       a \<leftarrow> is_interior h first; ASSERT a;
       b \<leftarrow> is_interior h last; ASSERT b;
       fx \<leftarrow> load h first; lx \<leftarrow> load h last;
       h \<leftarrow> set_next h (le_prev fx) (le_next lx);
       fx \<leftarrow> load h first; lx \<leftarrow> load h last;
       h \<leftarrow> set_prev h (le_next lx) (le_prev fx);
       bf \<leftarrow> load h before;
       h \<leftarrow> set_prev h first (le_prev bf);
       h \<leftarrow> set_next h last before;
       bf \<leftarrow> load h before;
       h \<leftarrow> set_next h (le_prev bf) first;
       set_prev h before last
     }
   }"

definition list_push_front :: "lheap \<Rightarrow> addr \<Rightarrow> addr \<Rightarrow> lheap option" where
  "list_push_front h l elem = do { b \<leftarrow> list_begin h l; list_insert h b elem }"

definition list_push_back :: "lheap \<Rightarrow> addr \<Rightarrow> addr \<Rightarrow> lheap option" where
  "list_push_back h l elem = do { e \<leftarrow> list_end l; list_insert h e elem }"

definition list_remove :: "lheap \<Rightarrow> addr \<Rightarrow> (addr \<times> lheap) option" where
  "list_remove h elem = do {
     a \<leftarrow> is_interior h elem; ASSERT a;
     x \<leftarrow> load h elem;
     h \<leftarrow> set_next h (le_prev x) (le_next x);
     x \<leftarrow> load h elem;
     h \<leftarrow> set_prev h (le_next x) (le_prev x);
     x \<leftarrow> load h elem;
     Some (le_next x, h)
   }"

definition list_empty :: "lheap \<Rightarrow> addr \<Rightarrow> bool option" where
  "list_empty h l = do { b \<leftarrow> list_begin h l; e \<leftarrow> list_end l; Some (b = e) }"

definition list_front :: "lheap \<Rightarrow> addr \<Rightarrow> addr option" where
  "list_front h l = do {
     em \<leftarrow> list_empty h l; ASSERT (\<not> em);
     x \<leftarrow> load h l; Some (le_next x)
   }"

definition list_back :: "lheap \<Rightarrow> addr \<Rightarrow> addr option" where
  "list_back h l = do {
     em \<leftarrow> list_empty h l; ASSERT (\<not> em);
     x \<leftarrow> load h (tail_of l); Some (le_prev x)
   }"

definition list_pop_front :: "lheap \<Rightarrow> addr \<Rightarrow> (addr \<times> lheap) option" where
  "list_pop_front h l = do {
     front \<leftarrow> list_front h l;
     r \<leftarrow> list_remove h front;
     Some (front, snd r)
   }"

definition list_pop_back :: "lheap \<Rightarrow> addr \<Rightarrow> (addr \<times> lheap) option" where
  "list_pop_back h l = do {
     back \<leftarrow> list_back h l;
     r \<leftarrow> list_remove h back;
     Some (back, snd r)
   }"

text \<open>The \<open>for\<close> loop of \<open>list_size\<close>; \<open>cnt\<close> is a 32-bit \<open>size_t\<close>.\<close>

partial_function (option) list_size_loop ::
  "lheap \<Rightarrow> addr \<Rightarrow> addr \<Rightarrow> u32 \<Rightarrow> u32 option" where
  "list_size_loop h l e cnt = do {
     t \<leftarrow> list_end l;
     if e = t then Some cnt
     else do { e \<leftarrow> list_next h e; list_size_loop h l e (cnt + 1) }
   }"

definition list_size :: "lheap \<Rightarrow> addr \<Rightarrow> u32 option" where
  "list_size h l = do { e \<leftarrow> list_begin h l; list_size_loop h l e 0 }"

text \<open>\<open>list_reverse\<close>: swap the links of every interior element, walking along what used
  to be the \<open>next\<close> pointer, then repair the headers.\<close>

definition swap_links :: "lheap \<Rightarrow> addr \<Rightarrow> lheap option" where
  "swap_links h e = do {
     x \<leftarrow> load h e;
     h \<leftarrow> set_prev h e (le_next x);
     set_next h e (le_prev x)
   }"

partial_function (option) list_reverse_loop :: "lheap \<Rightarrow> addr \<Rightarrow> addr \<Rightarrow> lheap option" where
  "list_reverse_loop h l e = do {
     t \<leftarrow> list_end l;
     if e = t then Some h
     else do {
       h \<leftarrow> swap_links h e;
       x \<leftarrow> load h e;
       list_reverse_loop h l (le_prev x)
     }
   }"

definition list_reverse :: "lheap \<Rightarrow> addr \<Rightarrow> lheap option" where
  "list_reverse h l = do {
     em \<leftarrow> list_empty h l;
     if em then Some h
     else do {
       e \<leftarrow> list_begin h l;
       h \<leftarrow> list_reverse_loop h l e;
       hx \<leftarrow> load h l; tx \<leftarrow> load h (tail_of l);
       h \<leftarrow> set_next h l (le_prev tx);
       h \<leftarrow> set_prev h (tail_of l) (le_next hx);
       hx \<leftarrow> load h l; tx \<leftarrow> load h (tail_of l);
       px \<leftarrow> load h (le_next hx); qx \<leftarrow> load h (le_prev tx);
       h \<leftarrow> set_prev h (le_next hx) (le_next qx);
       set_next h (le_prev tx) (le_prev px)
     }
   }"


section \<open>Well-formed lists\<close>

definition nxt :: "lheap \<Rightarrow> addr \<Rightarrow> addr option" where
  "nxt h a = map_option le_next (h a)"

definition prv :: "lheap \<Rightarrow> addr \<Rightarrow> addr option" where
  "prv h a = map_option le_prev (h a)"

definition chain :: "lheap \<Rightarrow> addr list \<Rightarrow> bool" where
  "chain h = successively (\<lambda>a b. nxt h a = Some b \<and> prv h b = Some a)"

abbreviation nodes :: "addr \<Rightarrow> addr list \<Rightarrow> addr list" where
  "nodes l xs \<equiv> l # xs @ [tail_of l]"

definition dlist :: "lheap \<Rightarrow> addr \<Rightarrow> addr list \<Rightarrow> bool" where
  "dlist h l xs \<longleftrightarrow>
     distinct (nodes l xs) \<and> NULL \<notin> set (nodes l xs) \<and> set (nodes l xs) \<subseteq> dom h \<and>
     chain h (nodes l xs) \<and> prv h l = Some NULL \<and> nxt h (tail_of l) = Some NULL"

text \<open>The element that follows position \<open>A\<close> in a list \<open>A @ B\<close>, and the one before it.\<close>

abbreviation succ_of :: "addr \<Rightarrow> addr list \<Rightarrow> addr" where
  "succ_of l B \<equiv> hd (B @ [tail_of l])"

abbreviation pred_of :: "addr \<Rightarrow> addr list \<Rightarrow> addr" where
  "pred_of l A \<equiv> last (l # A)"

section \<open>Basic facts\<close>

lemma nxt_upd [simp]: "nxt (h(a \<mapsto> x)) = (nxt h)(a \<mapsto> le_next x)"
  by (auto simp: nxt_def)

lemma prv_upd [simp]: "prv (h(a \<mapsto> x)) = (prv h)(a \<mapsto> le_prev x)"
  by (auto simp: prv_def)

lemma heap_fields:
  "nxt h a = Some n \<Longrightarrow> prv h a = Some p \<Longrightarrow> h a = Some \<lparr>le_prev = p, le_next = n\<rparr>"
  by (auto simp: nxt_def prv_def)

lemma in_dom_fields: "a \<in> dom h \<Longrightarrow> \<exists>p n. h a = Some \<lparr>le_prev = p, le_next = n\<rparr>"
  by (metis domD list_elem.surjective old.unit.exhaust)

lemma nxt_Some: "h a = Some x \<Longrightarrow> nxt h a = Some (le_next x)"
  by (simp add: nxt_def)

lemma prv_Some: "h a = Some x \<Longrightarrow> prv h a = Some (le_prev x)"
  by (simp add: prv_def)

lemma last_notin_butlast: "distinct xs \<Longrightarrow> xs \<noteq> [] \<Longrightarrow> last xs \<notin> set (butlast xs)"
  by (metis append_butlast_last_id distinct_append not_distinct_conv_prefix)

lemma hd_notin_tl: "distinct xs \<Longrightarrow> xs \<noteq> [] \<Longrightarrow> hd xs \<notin> set (tl xs)"
  by (cases xs) auto

lemma chain_frame:
  assumes "\<forall>a\<in>set (butlast ns). nxt h' a = nxt h a" "\<forall>a\<in>set (tl ns). prv h' a = prv h a"
  shows "chain h' ns = chain h ns"
  using assms
proof (induction ns)
  case (Cons a ns)
  show ?case
  proof (cases ns)
    case (Cons b ms)
    with Cons.IH Cons.prems have "chain h' ns = chain h ns"
      by simp
    with Cons Cons.prems show ?thesis
      by (simp add: chain_def)
  qed (simp add: chain_def)
qed (simp add: chain_def)

lemma chain_append:
  "chain h (xs @ ys) \<longleftrightarrow> chain h xs \<and> chain h ys \<and>
     (xs \<noteq> [] \<longrightarrow> ys \<noteq> [] \<longrightarrow> nxt h (last xs) = Some (hd ys) \<and> prv h (hd ys) = Some (last xs))"
  by (auto simp: chain_def successively_append_iff)

lemma chain_single [simp]: "chain h [a]"
  by (simp add: chain_def)

lemma chain_Cons:
  "xs \<noteq> [] \<Longrightarrow> chain h (a # xs) \<longleftrightarrow>
     nxt h a = Some (hd xs) \<and> prv h (hd xs) = Some a \<and> chain h xs"
  by (simp add: chain_def successively_Cons)

text \<open>A list seen at a position: everything about the two neighbours of the gap.\<close>

lemma dlist_split:
  "dlist h l (A @ B) \<longleftrightarrow>
     distinct (nodes l (A @ B)) \<and> NULL \<notin> set (nodes l (A @ B)) \<and>
     set (nodes l (A @ B)) \<subseteq> dom h \<and>
     chain h (l # A) \<and> chain h (B @ [tail_of l]) \<and>
     nxt h (pred_of l A) = Some (succ_of l B) \<and> prv h (succ_of l B) = Some (pred_of l A) \<and>
     prv h l = Some NULL \<and> nxt h (tail_of l) = Some NULL"
proof -
  have "nodes l (A @ B) = (l # A) @ (B @ [tail_of l])" by simp
  then have "chain h (nodes l (A @ B)) \<longleftrightarrow> chain h (l # A) \<and> chain h (B @ [tail_of l]) \<and>
     nxt h (pred_of l A) = Some (succ_of l B) \<and> prv h (succ_of l B) = Some (pred_of l A)"
    by (simp only: chain_append) simp
  then show ?thesis by (auto simp: dlist_def)
qed

lemma succ_of_in: "succ_of l B \<in> set (B @ [tail_of l])"
  by (cases B) auto

lemma pred_of_in: "pred_of l A \<in> set (l # A)"
  by (rule last_in_set) simp

lemma dlist_gap:
  assumes "dlist h l (A @ B)"
  shows "pred_of l A \<noteq> NULL" "succ_of l B \<noteq> NULL" "pred_of l A \<noteq> succ_of l B"
    "pred_of l A \<in> dom h" "succ_of l B \<in> dom h"
    "nxt h (pred_of l A) = Some (succ_of l B)" "prv h (succ_of l B) = Some (pred_of l A)"
    "pred_of l A \<notin> set (B @ [tail_of l])" "succ_of l B \<notin> set (l # A)"
    "pred_of l A \<notin> set (butlast (l # A))" "succ_of l B \<notin> set (tl (B @ [tail_of l]))"
proof -
  note d = assms [unfolded dlist_split]
    and s = succ_of_in [where l = l and B = B] and p = pred_of_in [where l = l and A = A]
  have eq: "nodes l (A @ B) = (l # A) @ (B @ [tail_of l])" by simp
  from d have D: "distinct ((l # A) @ (B @ [tail_of l]))" unfolding eq by blast
  from D have dA: "distinct (l # A)" and dB: "distinct (B @ [tail_of l])"
    and dis: "set (l # A) \<inter> set (B @ [tail_of l]) = {}"
    unfolding distinct_append by blast+
  have sub: "set (l # A) \<union> set (B @ [tail_of l]) \<subseteq> dom h"
    and nz: "NULL \<notin> set (l # A) \<union> set (B @ [tail_of l])"
    using d unfolding eq set_append by blast+
  show "pred_of l A \<notin> set (B @ [tail_of l])" "succ_of l B \<notin> set (l # A)"
    using dis s p unfolding disjoint_iff by metis+
  show "pred_of l A \<noteq> succ_of l B" using dis s p unfolding disjoint_iff by metis
  show "pred_of l A \<noteq> NULL" "succ_of l B \<noteq> NULL"
    using nz s p by (metis UnCI)+
  show "pred_of l A \<in> dom h" "succ_of l B \<in> dom h"
    using sub s p by (metis UnCI subsetD)+
  show "nxt h (pred_of l A) = Some (succ_of l B)" "prv h (succ_of l B) = Some (pred_of l A)"
    using d by blast+
  show "pred_of l A \<notin> set (butlast (l # A))"
    using last_notin_butlast [OF dA] by simp
  show "succ_of l B \<notin> set (tl (B @ [tail_of l]))"
    using hd_notin_tl [OF dB] by simp
qed

text \<open>Memory outside the nodes of a list does not matter to it.\<close>

lemma dlist_frame:
  assumes "dlist h l xs" "\<forall>a\<in>set (nodes l xs). h' a = h a"
  shows "dlist h' l xs"
proof -
  have f: "\<forall>a\<in>set (nodes l xs). nxt h' a = nxt h a \<and> prv h' a = prv h a"
    using assms(2) by (simp add: nxt_def prv_def)
  have "chain h' (nodes l xs) = chain h (nodes l xs)"
    by (rule chain_frame) (use f in \<open>auto dest: in_set_butlastD list.set_sel(2)\<close>)
  with f assms show ?thesis by (auto simp: dlist_def dom_def)
qed


section \<open>Walking\<close>

lemma is_interior_run:
  "e \<noteq> NULL \<Longrightarrow> h e = Some x \<Longrightarrow> is_interior h e = Some (le_prev x \<noteq> NULL \<and> le_next x \<noteq> NULL)"
  by (simp add: is_interior_def load_def)

lemma is_tail_run:
  "e \<noteq> NULL \<Longrightarrow> h e = Some x \<Longrightarrow> is_tail h e = Some (le_prev x \<noteq> NULL \<and> le_next x = NULL)"
  by (simp add: is_tail_def load_def)

lemma is_head_run:
  "e \<noteq> NULL \<Longrightarrow> h e = Some x \<Longrightarrow> is_head h e = Some (le_prev x = NULL \<and> le_next x \<noteq> NULL)"
  by (simp add: is_head_def load_def)

lemmas list_run_simps = load_def set_next_def set_prev_def is_interior_run is_tail_run is_head_run

lemma dlist_not_NULL: "dlist h l xs \<Longrightarrow> l \<noteq> NULL"
  by (auto simp: dlist_def)

lemma list_end_run [simp]: "l \<noteq> NULL \<Longrightarrow> list_end l = Some (tail_of l)"
  by (simp add: list_end_def)

lemma list_next_run:
  assumes "dlist h l (A @ B)"
  shows "list_next h (pred_of l A) = Some (succ_of l B)"
proof -
  from dlist_gap [OF assms] obtain x where "h (pred_of l A) = Some x" "le_next x = succ_of l B"
    by (auto simp: nxt_def)
  with dlist_gap(1,2) [OF assms] show ?thesis
    by (auto simp: list_next_def list_run_simps simp del: last.simps)
qed

lemma list_prev_run:
  assumes "dlist h l (A @ B)"
  shows "list_prev h (succ_of l B) = Some (pred_of l A)"
proof -
  from dlist_gap [OF assms] obtain x where "h (succ_of l B) = Some x" "le_prev x = pred_of l A"
    by (auto simp: prv_def)
  with dlist_gap(1,2) [OF assms] show ?thesis
    by (auto simp: list_prev_def list_run_simps simp del: last.simps)
qed

text \<open>The same, for an element \<open>e\<close> of the list and its neighbours.\<close>

lemma list_next_elem: "dlist h l (A @ e # B) \<Longrightarrow> list_next h e = Some (succ_of l B)"
  using list_next_run [of h l "A @ [e]" B] by simp

lemma list_prev_elem: "dlist h l (A @ e # B) \<Longrightarrow> list_prev h e = Some (pred_of l A)"
  using list_prev_run [of h l A "e # B"] by simp

lemma list_begin_run: "dlist h l xs \<Longrightarrow> list_begin h l = Some (succ_of l xs)"
  using dlist_gap [of h l "[]" xs] by (auto simp: list_begin_def load_def nxt_def)

lemma list_rbegin_run: "dlist h l xs \<Longrightarrow> list_rbegin h l = Some (pred_of l xs)"
  using dlist_gap [of h l xs "[]"] dlist_not_NULL [of h l xs]
  by (auto simp: list_rbegin_def load_def prv_def)

lemma succ_of_tail_iff:
  "dlist h l (A @ B) \<Longrightarrow> succ_of l B = tail_of l \<longleftrightarrow> B = []"
  by (cases B) (auto simp: dlist_def)

lemma list_empty_run: "dlist h l xs \<Longrightarrow> list_empty h l = Some (xs = [])"
  using succ_of_tail_iff [of h l "[]" xs] dlist_not_NULL [of h l xs]
  by (simp add: list_empty_def list_begin_run)

lemma list_front_run: "dlist h l (x # xs) \<Longrightarrow> list_front h l = Some x"
  using dlist_gap [of h l "[]" "x # xs"]
  by (auto simp: list_front_def list_empty_run load_def nxt_def)

lemma list_back_run: "dlist h l (xs @ [x]) \<Longrightarrow> list_back h l = Some x"
  using dlist_gap [of h l "xs @ [x]" "[]"]
  by (auto simp: list_back_def list_empty_run load_def prv_def)

lemma list_front_empty: "dlist h l [] \<Longrightarrow> list_front h l = None"
  by (simp add: list_front_def list_empty_run)

lemma list_back_empty: "dlist h l [] \<Longrightarrow> list_back h l = None"
  by (simp add: list_back_def list_empty_run)

section \<open>Insertion and removal\<close>

lemma list_init_run:
  assumes "l \<noteq> NULL" "l \<in> dom h" "tail_of l \<in> dom h"
  shows "\<exists>h'. list_init h l = Some h' \<and> dlist h' l [] \<and> dom h' = dom h \<and>
           (\<forall>a. a \<notin> {l, tail_of l} \<longrightarrow> h' a = h a)"
  using assms in_dom_fields [OF assms(2)] in_dom_fields [OF assms(3)]
  by (auto simp: list_init_def list_run_simps dlist_def chain_def)

lemma list_insert_effect:
  assumes "dlist h l (A @ B)" "e \<notin> set (nodes l (A @ B))" "e \<noteq> NULL" "e \<in> dom h"
  shows "\<exists>h'. list_insert h (succ_of l B) e = Some h' \<and> dom h' = dom h \<and>
     nxt h' = (nxt h)(e \<mapsto> succ_of l B, pred_of l A \<mapsto> e) \<and>
     prv h' = (prv h)(e \<mapsto> pred_of l A, succ_of l B \<mapsto> e) \<and>
     (\<forall>a. a \<notin> {e, pred_of l A, succ_of l B} \<longrightarrow> h' a = h a)"
proof -
  define p s where "p = pred_of l A" and "s = succ_of l B"
  note g = dlist_gap [OF assms(1), folded p_def s_def]
  have ne: "e \<noteq> p" "e \<noteq> s"
    using assms(2) pred_of_in [where l = l and A = A] succ_of_in [where l = l and B = B]
    by (auto simp: p_def s_def)
  obtain sn where S: "h s = Some \<lparr>le_prev = p, le_next = sn\<rparr>"
    using g(5,7) in_dom_fields [OF g(5)] by (auto simp: prv_def)
  obtain pp where P: "h p = Some \<lparr>le_prev = pp, le_next = s\<rparr>"
    using g(4,6) in_dom_fields [OF g(4)] by (auto simp: nxt_def)
  obtain ep en where E: "h e = Some \<lparr>le_prev = ep, le_next = en\<rparr>"
    using in_dom_fields [OF assms(4)] by auto
  have n: "nxt h s = Some sn" "prv h p = Some pp"
    using S P by (simp_all add: nxt_def prv_def)
  have "list_insert h s e = Some (h(e \<mapsto> \<lparr>le_prev = p, le_next = s\<rparr>,
      p \<mapsto> \<lparr>le_prev = pp, le_next = e\<rparr>, s \<mapsto> \<lparr>le_prev = e, le_next = sn\<rparr>))"
    using g(1-3) ne assms(3) S P E by (auto simp: list_insert_def list_run_simps)
  moreover have "(nxt h)(e \<mapsto> s, p \<mapsto> e, s \<mapsto> sn) = (nxt h)(e \<mapsto> s, p \<mapsto> e)"
    using n ne g(3) by (auto simp: fun_eq_iff)
  moreover have "(prv h)(e \<mapsto> p, p \<mapsto> pp, s \<mapsto> e) = (prv h)(e \<mapsto> p, s \<mapsto> e)"
    using n ne g(3) by (auto simp: fun_eq_iff)
  ultimately show ?thesis
    unfolding p_def [symmetric] s_def [symmetric] using S P E by auto
qed

lemma list_insert_run:
  assumes "dlist h l (A @ B)" "e \<notin> set (nodes l (A @ B))" "e \<noteq> NULL" "e \<in> dom h"
  shows "\<exists>h'. list_insert h (succ_of l B) e = Some h' \<and> dlist h' l (A @ e # B) \<and> dom h' = dom h \<and>
           (\<forall>a. a \<notin> set (nodes l (A @ e # B)) \<longrightarrow> h' a = h a)"
proof -
  from list_insert_effect [OF assms] obtain h' where h': "list_insert h (succ_of l B) e = Some h'"
    "dom h' = dom h" "nxt h' = (nxt h)(e \<mapsto> succ_of l B, pred_of l A \<mapsto> e)"
    "prv h' = (prv h)(e \<mapsto> pred_of l A, succ_of l B \<mapsto> e)"
    "\<forall>a. a \<notin> {e, pred_of l A, succ_of l B} \<longrightarrow> h' a = h a"
    by blast
  define p s where "p = pred_of l A" and "s = succ_of l B"
  note g = dlist_gap [OF assms(1), folded p_def s_def]
    and d = assms(1) [unfolded dlist_split, folded p_def s_def]
    and h'' = h' [folded p_def s_def]
  have ne: "e \<noteq> p" "e \<noteq> s" "e \<notin> set (l # A)" "e \<notin> set (B @ [tail_of l])"
    using assms(2) pred_of_in [where l = l and A = A, folded p_def]
      succ_of_in [where l = l and B = B, folded s_def]
    by auto
  have cA: "chain h' (l # A)"
    using d ne g(9,10)
    by (subst chain_frame [of _ h' h]) (auto simp: h''(3,4) simp del: butlast.simps dest: in_set_butlastD)
  have cB: "chain h' (B @ [tail_of l])"
    using d ne g(8,11)
    by (subst chain_frame [of _ h' h])
       (auto simp: h''(3,4) simp del: tl_append2 dest: in_set_butlastD list.set_sel(2) [rotated])
  have cE: "chain h' (e # B @ [tail_of l])"
    using cB g(3) ne by (simp add: chain_Cons h''(3,4) s_def [symmetric])
  have "dlist h' l (A @ e # B)"
    unfolding dlist_split p_def [symmetric] append_Cons list.sel
    using d cA cE assms(2-4) g(1,2,3,8,9) ne by (auto simp: h''(2,3,4))
  moreover have "\<forall>a. a \<notin> set (nodes l (A @ e # B)) \<longrightarrow> h' a = h a"
    using h'(5) pred_of_in [where l = l and A = A] succ_of_in [where l = l and B = B] by auto
  ultimately show ?thesis using h' by blast
qed


lemma list_push_front_run:
  assumes "dlist h l xs" "e \<notin> set (nodes l xs)" "e \<noteq> NULL" "e \<in> dom h"
  shows "\<exists>h'. list_push_front h l e = Some h' \<and> dlist h' l (e # xs) \<and> dom h' = dom h \<and>
           (\<forall>a. a \<notin> set (nodes l (e # xs)) \<longrightarrow> h' a = h a)"
  using list_insert_run [of h l "[]" xs e] assms by (simp add: list_push_front_def list_begin_run)

lemma list_push_back_run:
  assumes "dlist h l xs" "e \<notin> set (nodes l xs)" "e \<noteq> NULL" "e \<in> dom h"
  shows "\<exists>h'. list_push_back h l e = Some h' \<and> dlist h' l (xs @ [e]) \<and> dom h' = dom h \<and>
           (\<forall>a. a \<notin> set (nodes l (xs @ [e])) \<longrightarrow> h' a = h a)"
  using list_insert_run [of h l xs "[]" e] assms dlist_not_NULL [OF assms(1)]
  by (simp add: list_push_back_def)

lemma list_remove_effect:
  assumes "dlist h l (A @ e # B)"
  shows "\<exists>h'. list_remove h e = Some (succ_of l B, h') \<and> dom h' = dom h \<and>
     nxt h' = (nxt h)(pred_of l A \<mapsto> succ_of l B) \<and>
     prv h' = (prv h)(succ_of l B \<mapsto> pred_of l A) \<and>
     (\<forall>a. a \<notin> {pred_of l A, succ_of l B} \<longrightarrow> h' a = h a)"
proof -
  define p s where "p = pred_of l A" and "s = succ_of l B"
  note g1 = dlist_gap [OF assms, simplified list.sel append_Cons, folded p_def]
  have d2: "dlist h l ((A @ [e]) @ B)" using assms by simp
  note g2 = dlist_gap [OF d2, folded s_def]
  have le: "pred_of l (A @ [e]) = e" by simp
  have ps: "p \<noteq> s" "e \<noteq> p" "e \<noteq> s" "p \<noteq> NULL" "s \<noteq> NULL" "e \<noteq> NULL"
    using g1 g2 succ_of_in [where l = l and B = B, folded s_def] unfolding le by auto
  obtain sn where S: "h s = Some \<lparr>le_prev = e, le_next = sn\<rparr>"
    using g2(5,7) in_dom_fields [OF g2(5)] unfolding le by (auto simp: prv_def)
  obtain pp where P: "h p = Some \<lparr>le_prev = pp, le_next = e\<rparr>"
    using g1(4,6) in_dom_fields [OF g1(4)] by (auto simp: nxt_def)
  have E: "h e = Some \<lparr>le_prev = p, le_next = s\<rparr>"
    using g1(7) g2(6) unfolding le by (auto intro: heap_fields)
  have n: "nxt h s = Some sn" "prv h p = Some pp"
    using S P by (simp_all add: nxt_def prv_def)
  have "list_remove h e = Some (s, h(p \<mapsto> \<lparr>le_prev = pp, le_next = s\<rparr>,
      s \<mapsto> \<lparr>le_prev = p, le_next = sn\<rparr>))"
    using ps S P E by (auto simp: list_remove_def list_run_simps)
  moreover have "(nxt h)(p \<mapsto> s, s \<mapsto> sn) = (nxt h)(p \<mapsto> s)"
    "(prv h)(p \<mapsto> pp, s \<mapsto> p) = (prv h)(s \<mapsto> p)"
    using n ps by (auto simp: fun_eq_iff)
  ultimately show ?thesis
    unfolding p_def [symmetric] s_def [symmetric] using S P by auto
qed

lemma list_remove_run:
  assumes "dlist h l (A @ e # B)"
  shows "\<exists>h'. list_remove h e = Some (succ_of l B, h') \<and> dlist h' l (A @ B) \<and> dom h' = dom h \<and>
           (\<forall>a. a \<notin> set (nodes l (A @ B)) \<longrightarrow> h' a = h a)"
proof -
  from list_remove_effect [OF assms] obtain h' where h': "list_remove h e = Some (succ_of l B, h')"
    "dom h' = dom h" "nxt h' = (nxt h)(pred_of l A \<mapsto> succ_of l B)"
    "prv h' = (prv h)(succ_of l B \<mapsto> pred_of l A)"
    "\<forall>a. a \<notin> {pred_of l A, succ_of l B} \<longrightarrow> h' a = h a"
    by blast
  have d2: "dlist h l ((A @ [e]) @ B)" using assms by simp
  define p s where "p = pred_of l A" and "s = succ_of l B"
  note h'' = h' [folded p_def s_def]
    and g1 = dlist_gap [OF assms, simplified list.sel append_Cons, folded p_def]
    and g2 = dlist_gap [OF d2, folded s_def]
    and d = assms [unfolded dlist_split, folded p_def]
    and e2 = d2 [unfolded dlist_split, folded s_def]
  have m: "p \<in> set (l # A)" "s \<in> set (B @ [tail_of l])"
    using pred_of_in succ_of_in by (metis p_def, metis s_def)
  have cA: "chain h' (l # A)"
    using d m g1(10) g2(9)
    by (subst chain_frame [of _ h' h]) (auto simp: h''(3,4) simp del: butlast.simps dest: in_set_butlastD)
  have cB: "chain h' (B @ [tail_of l])"
    using e2 m g2(11) g1(8)
    by (subst chain_frame [of _ h' h])
       (auto simp: h''(3,4) simp del: tl_append2 dest: in_set_butlastD)
  have "dlist h' l (A @ B)"
    unfolding dlist_split p_def [symmetric] s_def [symmetric]
    using d cA cB g1 g2 by (auto simp: h''(2,3,4))
  moreover have "\<forall>a. a \<notin> set (nodes l (A @ B)) \<longrightarrow> h' a = h a"
    using h''(5) m by auto
  ultimately show ?thesis using h' by blast
qed

lemma list_pop_front_run:
  assumes "dlist h l (x # xs)"
  shows "\<exists>h'. list_pop_front h l = Some (x, h') \<and> dlist h' l xs \<and> dom h' = dom h \<and>
           (\<forall>a. a \<notin> set (nodes l xs) \<longrightarrow> h' a = h a)"
  using list_remove_run [of h l "[]" x xs] assms
  by (auto simp: list_pop_front_def list_front_run)

lemma list_pop_back_run:
  assumes "dlist h l (xs @ [x])"
  shows "\<exists>h'. list_pop_back h l = Some (x, h') \<and> dlist h' l xs \<and> dom h' = dom h \<and>
           (\<forall>a. a \<notin> set (nodes l xs) \<longrightarrow> h' a = h a)"
  using list_remove_run [of h l xs x "[]"] assms
  by (auto simp: list_pop_back_def list_back_run)


section \<open>Splicing\<close>

lemma set_next_run:
  assumes "p \<noteq> NULL" "p \<in> dom h"
  obtains h' where "set_next h p v = Some h'" "nxt h' = (nxt h)(p \<mapsto> v)" "prv h' = prv h"
    "dom h' = dom h" "\<forall>a. a \<noteq> p \<longrightarrow> h' a = h a"
proof -
  from assms(2) obtain x where x: "h p = Some x" by auto
  then have "(prv h)(p \<mapsto> le_prev x) = prv h" by (auto simp: prv_def)
  with x assms(1) show ?thesis
    by (intro that [of "h(p \<mapsto> x\<lparr>le_next := v\<rparr>)"]) (auto simp: set_next_def load_def)
qed

lemma set_prev_run:
  assumes "p \<noteq> NULL" "p \<in> dom h"
  obtains h' where "set_prev h p v = Some h'" "prv h' = (prv h)(p \<mapsto> v)" "nxt h' = nxt h"
    "dom h' = dom h" "\<forall>a. a \<noteq> p \<longrightarrow> h' a = h a"
proof -
  from assms(2) obtain x where x: "h p = Some x" by auto
  then have "(nxt h)(p \<mapsto> le_next x) = nxt h" by (auto simp: nxt_def)
  with x assms(1) show ?thesis
    by (intro that [of "h(p \<mapsto> x\<lparr>le_prev := v\<rparr>)"]) (auto simp: set_prev_def load_def)
qed

lemma load_fields:
  "e \<noteq> NULL \<Longrightarrow> prv h e = Some p \<Longrightarrow> nxt h e = Some n \<Longrightarrow>
     load h e = Some \<lparr>le_prev = p, le_next = n\<rparr>"
  by (simp add: load_def heap_fields)

lemma dom_prv: "prv h a = Some n \<Longrightarrow> a \<in> dom h"
  by (auto simp: prv_def)

lemma load_prv:
  "e \<noteq> NULL \<Longrightarrow> prv h e = Some p \<Longrightarrow> \<exists>n. load h e = Some \<lparr>le_prev = p, le_next = n\<rparr>"
  by (metis domI in_dom_fields load_def prv_Some list_elem.select_convs(1) option.inject dom_prv)

lemma dom_nxt: "nxt h a = Some n \<Longrightarrow> a \<in> dom h"
  by (auto simp: nxt_def)

lemma is_interior_fields:
  "e \<noteq> NULL \<Longrightarrow> prv h e = Some p \<Longrightarrow> nxt h e = Some n \<Longrightarrow>
     is_interior h e = Some (p \<noteq> NULL \<and> n \<noteq> NULL)"
  by (simp add: is_interior_def load_fields)

lemma is_tail_fields:
  "e \<noteq> NULL \<Longrightarrow> prv h e = Some p \<Longrightarrow> nxt h e = Some n \<Longrightarrow>
     is_tail h e = Some (p \<noteq> NULL \<and> n = NULL)"
  by (simp add: is_tail_def load_fields)

text \<open>
  The effect of \<open>list_splice\<close> on the link fields, whichever lists are involved:
  \<open>q\<close> precedes \<open>first\<close>, \<open>g\<close> precedes \<open>last\<close>, \<open>p\<close> precedes \<open>before\<close>.
\<close>

lemma list_splice_effect:
  assumes nz: "before \<noteq> NULL" "first \<noteq> NULL" "last0 \<noteq> NULL" "g \<noteq> NULL" "p \<noteq> NULL" "q \<noteq> NULL"
    and ne: "first \<noteq> last0" "before \<noteq> first" "g \<noteq> q" "p \<noteq> g" "p \<noteq> q" "before \<noteq> last0"
      "first \<noteq> last0"
    and B: "prv h before = Some p" "nxt h before = Some bn"
    and F: "prv h first = Some q" "nxt h first = Some fn" "fn \<noteq> NULL"
    and L: "prv h last0 = Some g" "nxt h last0 = Some ln"
    and G: "nxt h g = Some last0" "prv h g = Some gp" "gp \<noteq> NULL"
    and D: "p \<in> dom h" "q \<in> dom h"
  shows "\<exists>h'. list_splice h before first last0 = Some h' \<and> dom h' = dom h \<and>
     nxt h' = (nxt h)(q \<mapsto> last0, g \<mapsto> before, p \<mapsto> first) \<and>
     prv h' = (prv h)(last0 \<mapsto> q, first \<mapsto> p, before \<mapsto> g) \<and>
     (\<forall>a. a \<notin> {p, q, g, before, first, last0} \<longrightarrow> h' a = h a)"
proof -
  obtain h1 where h1: "set_next h q last0 = Some h1" "nxt h1 = (nxt h)(q \<mapsto> last0)" "prv h1 = prv h"
    "dom h1 = dom h" "\<forall>a. a \<noteq> q \<longrightarrow> h1 a = h a"
    using set_next_run [OF nz(6) D(2), of last0] by blast
  have mem: "last0 \<in> dom h1" using dom_prv [OF L(1)] h1(4) by simp
  obtain h2 where h2: "set_prev h1 last0 q = Some h2" "prv h2 = (prv h)(last0 \<mapsto> q)"
    "nxt h2 = (nxt h)(q \<mapsto> last0)" "dom h2 = dom h" "\<forall>a. a \<noteq> last0 \<longrightarrow> h2 a = h1 a"
    using set_prev_run [OF nz(3) mem, of q] unfolding h1(2,3,4) by blast
  have mem: "first \<in> dom h2" using dom_prv [OF F(1)] h2(4) by simp
  obtain h3 where h3: "set_prev h2 first p = Some h3" "prv h3 = (prv h)(last0 \<mapsto> q, first \<mapsto> p)"
    "nxt h3 = (nxt h)(q \<mapsto> last0)" "dom h3 = dom h" "\<forall>a. a \<noteq> first \<longrightarrow> h3 a = h2 a"
    using set_prev_run [OF nz(2) mem, of p] unfolding h2(2,3,4) by blast
  have mem: "g \<in> dom h3" using dom_prv [OF G(2)] h3(4) by simp
  obtain h4 where h4: "set_next h3 g before = Some h4"
    "nxt h4 = (nxt h)(q \<mapsto> last0, g \<mapsto> before)"
    "prv h4 = (prv h)(last0 \<mapsto> q, first \<mapsto> p)" "dom h4 = dom h" "\<forall>a. a \<noteq> g \<longrightarrow> h4 a = h3 a"
    using set_next_run [OF nz(4) mem, of before] unfolding h3(2,3,4) by blast
  obtain h5 where h5: "set_next h4 p first = Some h5"
    "nxt h5 = (nxt h)(q \<mapsto> last0, g \<mapsto> before, p \<mapsto> first)"
    "prv h5 = (prv h)(last0 \<mapsto> q, first \<mapsto> p)" "dom h5 = dom h" "\<forall>a. a \<noteq> p \<longrightarrow> h5 a = h4 a"
    using set_next_run [OF nz(5) D(1) [folded h4(4)], of first] unfolding h4(2,3,4) by blast
  have mem: "before \<in> dom h5" using dom_prv [OF B(1)] h5(4) by simp
  obtain h6 where h6: "set_prev h5 before g = Some h6"
    "prv h6 = (prv h)(last0 \<mapsto> q, first \<mapsto> p, before \<mapsto> g)"
    "nxt h6 = (nxt h)(q \<mapsto> last0, g \<mapsto> before, p \<mapsto> first)" "dom h6 = dom h"
    "\<forall>a. a \<noteq> before \<longrightarrow> h6 a = h5 a"
    using set_prev_run [OF nz(1) mem, of g] unfolding h5(2,3,4) by blast
  have lp: "list_prev h last0 = Some g"
    using L nz by (auto simp: list_prev_def is_interior_fields is_tail_fields load_fields)
  have a1: "is_interior h first = Some True" "is_interior h g = Some True"
    "is_interior h before = Some (bn \<noteq> NULL)" "is_tail h before = Some (bn = NULL)"
    using F G B nz by (auto simp: is_interior_fields is_tail_fields)
  have l0: "load h first = Some \<lparr>le_prev = q, le_next = fn\<rparr>"
    "load h g = Some \<lparr>le_prev = gp, le_next = last0\<rparr>"
    using F G nz by (simp_all add: load_fields)
  have l1: "\<exists>n. load h1 first = Some \<lparr>le_prev = q, le_next = n\<rparr>"
    "load h1 g = Some \<lparr>le_prev = gp, le_next = last0\<rparr>"
    using F G nz ne by (simp_all add: load_prv load_fields h1(2,3))
  have l2: "\<exists>n. load h2 before = Some \<lparr>le_prev = p, le_next = n\<rparr>"
    using B nz ne by (simp add: load_prv h2(2,3))
  have l4: "\<exists>n. load h4 before = Some \<lparr>le_prev = p, le_next = n\<rparr>"
    using B nz ne by (simp add: load_prv h4(2,3))
  from l1(1) obtain n1 where l1': "load h1 first = Some \<lparr>le_prev = q, le_next = n1\<rparr>" ..
  from l2 obtain n2 where l2': "load h2 before = Some \<lparr>le_prev = p, le_next = n2\<rparr>" ..
  from l4 obtain n4 where l4': "load h4 before = Some \<lparr>le_prev = p, le_next = n4\<rparr>" ..
  have "list_splice h before first last0 = Some h6"
    by (simp add: list_splice_def lp a1 l0 l1' l1(2) l2' l4' ne(1) h1(1) h2(1) h3(1) h4(1) h5(1)
        h6(1) cong: bind_weak_cong) blast
  moreover have "\<forall>a. a \<notin> {p, q, g, before, first, last0} \<longrightarrow> h6 a = h a"
    using h1(5) h2(5) h3(5) h4(5) h5(5) h6(5) by simp
  ultimately show ?thesis using h6(2,3,4) by blast
qed

lemma dlist_split4:
  assumes "M \<noteq> []" "F \<noteq> []"
  shows "dlist h l (A @ M @ F @ B) \<longleftrightarrow>
     distinct (nodes l (A @ M @ F @ B)) \<and> NULL \<notin> set (nodes l (A @ M @ F @ B)) \<and>
     set (nodes l (A @ M @ F @ B)) \<subseteq> dom h \<and>
     chain h (l # A) \<and> chain h M \<and> chain h F \<and> chain h (B @ [tail_of l]) \<and>
     nxt h (pred_of l A) = Some (hd M) \<and> prv h (hd M) = Some (pred_of l A) \<and>
     nxt h (last M) = Some (hd F) \<and> prv h (hd F) = Some (last M) \<and>
     nxt h (last F) = Some (succ_of l B) \<and> prv h (succ_of l B) = Some (last F) \<and>
     prv h l = Some NULL \<and> nxt h (tail_of l) = Some NULL"
proof -
  have "nodes l (A @ M @ F @ B) = (l # A) @ M @ F @ (B @ [tail_of l])" by simp
  then have "chain h (nodes l (A @ M @ F @ B)) \<longleftrightarrow>
     chain h (l # A) \<and> chain h M \<and> chain h F \<and> chain h (B @ [tail_of l]) \<and>
     nxt h (pred_of l A) = Some (hd M) \<and> prv h (hd M) = Some (pred_of l A) \<and>
     nxt h (last M) = Some (hd F) \<and> prv h (hd F) = Some (last M) \<and>
     nxt h (last F) = Some (succ_of l B) \<and> prv h (succ_of l B) = Some (last F)"
    using assms by (simp only: chain_append) (auto simp: hd_append)
  then show ?thesis by (auto simp: dlist_def)
qed

lemma dlist_elem:
  assumes "dlist h l xs" "x \<in> set xs"
  obtains p n where "prv h x = Some p" "nxt h x = Some n" "p \<noteq> NULL" "n \<noteq> NULL"
proof -
  from assms(2) obtain A B where xs: "xs = A @ x # B" by (meson split_list)
  have N: "NULL \<notin> set (nodes l xs)" using assms(1) by (simp add: dlist_def)
  have "prv h x = Some (pred_of l A)"
    using assms(1) dlist_split [of h l A "x # B"] by (simp add: xs)
  moreover have "nxt h x = Some (succ_of l B)"
    using assms(1) dlist_split [of h l "A @ [x]" B] by (simp add: xs)
  moreover have "pred_of l A \<in> set (nodes l xs)" "succ_of l B \<in> set (nodes l xs)"
    using pred_of_in [of l A] succ_of_in [of B l] by (auto simp: xs)
  ultimately show ?thesis using N by (metis that)
qed

lemma chain_frame_upd:
  assumes "nxt h' = (nxt h)(a1 \<mapsto> v1, a2 \<mapsto> v2, a3 \<mapsto> v3)"
    and "prv h' = (prv h)(b1 \<mapsto> w1, b2 \<mapsto> w2, b3 \<mapsto> w3)"
    and "{a1, a2, a3} \<inter> set (butlast ns) = {}" "{b1, b2, b3} \<inter> set (tl ns) = {}"
  shows "chain h' ns = chain h ns"
  using assms by (intro chain_frame) auto

lemma dlist_parts_disjoint:
  assumes "dlist h l (A @ M @ F @ B)" "M \<noteq> []" "F \<noteq> []"
  shows "pred_of l A \<notin> set M \<union> set F" "succ_of l B \<notin> set M \<union> set F \<union> set (l # A)"
    "set M \<inter> set F = {}" "pred_of l A \<notin> set (B @ [tail_of l])"
    "set (l # A) \<inter> (set M \<union> set F) = {}" "set (B @ [tail_of l]) \<inter> (set M \<union> set F) = {}"
proof -
  have d: "distinct (nodes l (A @ M @ F @ B))" using assms(1) by (simp add: dlist_def)
  show "set M \<inter> set F = {}" using d by auto
  show s1: "set (l # A) \<inter> (set M \<union> set F) = {}" and s2: "set (B @ [tail_of l]) \<inter> (set M \<union> set F) = {}"
    using d by auto
  have s3: "set (l # A) \<inter> set (B @ [tail_of l]) = {}" using d by auto
  show "pred_of l A \<notin> set M \<union> set F" "pred_of l A \<notin> set (B @ [tail_of l])"
    using pred_of_in [of l A] s1 s3 by blast+
  show "succ_of l B \<notin> set M \<union> set F \<union> set (l # A)"
    using succ_of_in [of B l] s2 s3 by blast
qed

lemma list_splice_links:
  assumes d: "dlist h l (A @ M @ F @ B)" and ne: "M \<noteq> []" "F \<noteq> []"
    and ps_def: "p = pred_of l A" "s = succ_of l B"
  shows "\<exists>h'. list_splice h (hd M) (hd F) s = Some h' \<and> dom h' = dom h \<and>
     nxt h' = (nxt h)(last M \<mapsto> s, last F \<mapsto> hd M, p \<mapsto> hd F) \<and>
     prv h' = (prv h)(s \<mapsto> last M, hd F \<mapsto> p, hd M \<mapsto> last F) \<and>
     (\<forall>a. a \<notin> {p, last M, last F, hd M, hd F, s} \<longrightarrow> h' a = h a)"
proof -
  note dd = d [unfolded dlist_split4 [OF ne], folded ps_def]
  note dj = dlist_parts_disjoint [OF d ne, folded ps_def]
  have el: "hd M \<in> set M" "last M \<in> set M" "hd F \<in> set F" "last F \<in> set F" using ne by auto
  have ps: "p \<in> set (l # A)" "s \<in> set (B @ [tail_of l])"
    by (simp_all only: ps_def pred_of_in succ_of_in)
  have inn: "set (l # A) \<union> set M \<union> set F \<union> set (B @ [tail_of l]) = set (nodes l (A @ M @ F @ B))"
    by auto
  have N: "NULL \<notin> set (nodes l (A @ M @ F @ B))" "set (nodes l (A @ M @ F @ B)) \<subseteq> dom h"
    using d unfolding dlist_def by blast+
  have nz: "x \<noteq> NULL" if "x \<in> set (l # A) \<union> set M \<union> set F \<union> set (B @ [tail_of l])" for x
    using that N(1) unfolding inn by metis
  have dm: "x \<in> dom h" if "x \<in> set (l # A) \<union> set M \<union> set F \<union> set (B @ [tail_of l])" for x
    using that N(2) unfolding inn by (metis subsetD)
  have xs: "x \<in> set (A @ M @ F @ B)" if "x \<in> set M \<union> set F" for x using that by auto
  obtain bn where bn: "nxt h (hd M) = Some bn" using dlist_elem [OF d, of "hd M"] el xs by blast
  obtain fn where fn: "nxt h (hd F) = Some fn" "fn \<noteq> NULL" using dlist_elem [OF d, of "hd F"] el xs by blast
  obtain gp where gp: "prv h (last F) = Some gp" "gp \<noteq> NULL" using dlist_elem [OF d, of "last F"] el xs by blast
  obtain sn where sn: "nxt h s = Some sn" using dm [of s] ps by (auto simp: nxt_def)
  have pn: "p \<notin> set M" "p \<notin> set F" and sn': "s \<notin> set M" "s \<notin> set F" "s \<notin> set (l # A)"
    using dj(1,2) by blast+
  have mf: "x \<noteq> y" if "x \<in> set M" "y \<in> set F" for x y using dj(3) that by blast
  have ne6: "hd F \<noteq> s" "hd M \<noteq> hd F" "last F \<noteq> last M" "p \<noteq> last F" "p \<noteq> last M" "hd M \<noteq> s"
    using sn' pn el by (metis, simp add: mf el, metis mf el(2,4), metis+)
  have nz6: "hd M \<noteq> NULL" "hd F \<noteq> NULL" "s \<noteq> NULL" "last F \<noteq> NULL" "p \<noteq> NULL" "last M \<noteq> NULL"
    using nz el ps by (metis UnI1 UnI2)+
  have dm2: "p \<in> dom h" "last M \<in> dom h"
    using dm el ps by (metis UnI1 UnI2)+
  have lk: "prv h (hd M) = Some p" "prv h (hd F) = Some (last M)" "prv h s = Some (last F)"
    "nxt h (last F) = Some s" using dd by simp_all
  show ?thesis
    using list_splice_effect [OF nz6 ne6 ne6(1) lk(1) bn lk(2) fn lk(3) sn lk(4) gp dm2] by blast
qed

text \<open>
  Moving a segment towards the front of its own list, the way the in-place merge uses it:
  \<open>F\<close> is spliced before the first element of \<open>M\<close>.
\<close>

lemma list_splice_forward:
  assumes d: "dlist h l (A @ M @ F @ B)" and ne: "M \<noteq> []" "F \<noteq> []"
  shows "\<exists>h'. list_splice h (hd M) (hd F) (succ_of l B) = Some h' \<and> dlist h' l (A @ F @ M @ B) \<and>
     dom h' = dom h \<and> (\<forall>a. a \<notin> set (nodes l (A @ M @ F @ B)) \<longrightarrow> h' a = h a)"
proof -
  define p s where "p = pred_of l A" and "s = succ_of l B"
  note dd = d [unfolded dlist_split4 [OF ne], folded p_def s_def]
  note dj = dlist_parts_disjoint [OF d ne, folded p_def s_def]
  obtain h' where h': "list_splice h (hd M) (hd F) s = Some h'" "dom h' = dom h"
     "nxt h' = (nxt h)(last M \<mapsto> s, last F \<mapsto> hd M, p \<mapsto> hd F)"
     "prv h' = (prv h)(s \<mapsto> last M, hd F \<mapsto> p, hd M \<mapsto> last F)"
     "\<forall>a. a \<notin> {p, last M, last F, hd M, hd F, s} \<longrightarrow> h' a = h a"
    using list_splice_links [OF d ne p_def s_def] by blast
  have el: "hd M \<in> set M" "last M \<in> set M" "hd F \<in> set F" "last F \<in> set F" using ne by auto
  have ps: "p \<in> set (nodes l (A @ M @ F @ B))" "s \<in> set (nodes l (A @ M @ F @ B))"
    using pred_of_in [of l A] succ_of_in [of B l] unfolding p_def s_def by auto
  have pn: "p \<notin> set M" "p \<notin> set F" and sn': "s \<notin> set M" "s \<notin> set F" "s \<notin> set (l # A)"
    using dj(1,2) by blast+
  have ne6: "hd F \<noteq> s" "hd M \<noteq> hd F" "last F \<noteq> last M" "p \<noteq> last F" "p \<noteq> last M" "hd M \<noteq> s"
    using sn' pn el dj(3) by (metis, metis disjoint_iff, metis disjoint_iff, metis+)
  have dist: "distinct (l # A)" "distinct M" "distinct F" "distinct (B @ [tail_of l])"
    using dd by simp_all
  have lastnb: "p \<notin> set (butlast (l # A))" "last M \<notin> set (butlast M)" "last F \<notin> set (butlast F)"
    unfolding p_def by (rule last_notin_butlast; use dist ne in blast)+
  have hdnt: "s \<notin> set (tl (B @ [tail_of l]))" "hd M \<notin> set (tl M)" "hd F \<notin> set (tl F)"
    unfolding s_def by (rule hd_notin_tl; use dist ne in blast)+
  have sub: "x \<in> set (butlast ys) \<Longrightarrow> x \<in> set ys" "x \<in> set (tl ys) \<Longrightarrow> x \<in> set ys" for x and ys :: "addr list"
    by (metis in_set_butlastD) (metis list.sel(2) list.set_sel(2))
  note cf = chain_frame_upd [OF h'(3,4)]
  have c1: "chain h' (l # A)" 
    using dd lastnb(1) dj(5) el sn' by (subst cf) (blast dest: sub)+
  have c2: "chain h' M" 
    using dd lastnb(2) hdnt(2) dj(3) el sn' pn by (subst cf) (blast dest: sub)+
  have c3: "chain h' F"
    using dd lastnb(3) hdnt(3) dj(3) el sn' pn by (subst cf) (blast dest: sub)+
  have c4: "chain h' (B @ [tail_of l])"
    using dd hdnt(1) dj(4,6) el by (subst cf) (blast dest: sub)+
  have hdr: "l \<noteq> s" "l \<noteq> hd F" "l \<noteq> hd M" "tail_of l \<noteq> last M" "tail_of l \<noteq> last F" "tail_of l \<noteq> p"
    using sn'(3) dj(4,5,6) el by auto
  have pm: "distinct (nodes l (A @ F @ M @ B))"
    "set (nodes l (A @ F @ M @ B)) = set (nodes l (A @ M @ F @ B))"
    using dd by auto
  have "dlist h' l (A @ F @ M @ B)"
    unfolding dlist_split4 [OF ne(2,1)] p_def [symmetric] s_def [symmetric] pm(2)
    using c1 c2 c3 c4 ne6 hdr pm(1) dd by (simp add: h'(2,3,4) del: set_append list.set distinct.simps distinct_append)
  moreover have "\<forall>a. a \<notin> set (nodes l (A @ M @ F @ B)) \<longrightarrow> h' a = h a"
    using h'(5) el ps by (metis Un_iff empty_iff insert_iff list.set_intros(2) set_append)
  ultimately show ?thesis using h'(1,2) unfolding s_def by blast
qed


section \<open>Size and reversal\<close>

lemma dlist_list_end: "dlist h l xs \<Longrightarrow> list_end l = Some (tail_of l)"
  by (simp add: dlist_not_NULL)

lemma list_size_loop_run:
  "dlist h l (A @ B) \<Longrightarrow>
     list_size_loop h l (succ_of l B) c = Some (c + of_nat (length B))"
proof (induction B arbitrary: A c)
  case Nil
  then show ?case by (simp add: list_size_loop.simps dlist_list_end)
next
  case (Cons b B)
  have d: "dlist h l ((A @ [b]) @ B)" using Cons.prems by simp
  have "b \<noteq> tail_of l" using Cons.prems by (auto simp: dlist_def)
  then show ?case
    using Cons.IH [OF d, of "c + 1"] list_next_elem [of h l A b B] Cons.prems
    by (subst list_size_loop.simps) (simp add: dlist_list_end [OF Cons.prems] algebra_simps)
qed

lemma list_size_run: "dlist h l xs \<Longrightarrow> list_size h l = Some (of_nat (length xs))"
  using list_size_loop_run [of h l "[]" xs 0] by (simp add: list_size_def list_begin_run)

text \<open>The heap in which the links of the elements of \<open>S\<close> are swapped.\<close>

definition swapped_on :: "lheap \<Rightarrow> addr set \<Rightarrow> lheap" where
  "swapped_on h S = (\<lambda>a. if a \<in> S
     then map_option (\<lambda>x. \<lparr>le_prev = le_next x, le_next = le_prev x\<rparr>) (h a) else h a)"

lemma swapped_on_fields:
  "nxt (swapped_on h S) = (\<lambda>a. if a \<in> S then prv h a else nxt h a)"
  "prv (swapped_on h S) = (\<lambda>a. if a \<in> S then nxt h a else prv h a)"
  "dom (swapped_on h S) = dom h"
  by (auto simp: swapped_on_def nxt_def prv_def fun_eq_iff option.map_comp o_def split: if_splits)

lemma swap_links_run:
  assumes "e \<noteq> NULL" "e \<in> dom h" "e \<notin> S"
  shows "swap_links (swapped_on h S) e = Some (swapped_on h (insert e S))"
  using assms in_dom_fields [OF assms(2)]
  by (auto simp: swap_links_def load_def set_prev_def set_next_def swapped_on_def fun_eq_iff)

lemma list_reverse_loop_run:
  "dlist h l (A @ B) \<Longrightarrow>
     list_reverse_loop (swapped_on h (set A)) l (succ_of l B) = Some (swapped_on h (set (A @ B)))"
proof (induction B arbitrary: A)
  case Nil
  then show ?case by (simp add: list_reverse_loop.simps dlist_list_end)
next
  case (Cons b B)
  have d: "dlist h l ((A @ [b]) @ B)" using Cons.prems by simp
  have b: "b \<noteq> tail_of l" "b \<notin> set A" "b \<noteq> NULL" "b \<in> dom h"
    using Cons.prems by (auto simp: dlist_def)
  have n: "nxt h b = Some (succ_of l B)" using d unfolding dlist_split by simp
  then have "prv (swapped_on h (insert b (set A))) b = Some (succ_of l B)"
    by (simp add: swapped_on_fields)
  then obtain m where "load (swapped_on h (insert b (set A))) b = Some \<lparr>le_prev = succ_of l B, le_next = m\<rparr>"
    using load_prv b(3) by blast
  then show ?case
    using Cons.IH [OF d] b swap_links_run [of b h "set A"] Cons.prems
    by (subst list_reverse_loop.simps) (simp add: dlist_list_end [OF Cons.prems])
qed

lemma chain_swapped:
  "set xs \<subseteq> S \<Longrightarrow> chain (swapped_on h S) (rev xs) = chain h xs"
  unfolding chain_def successively_rev
  by (intro successively_cong) (auto simp: swapped_on_fields)


text \<open>After the loop only the two headers and the outer links of the end elements are wrong.\<close>

lemma list_reverse_repair:
  assumes d: "dlist h l xs" and ne: "xs \<noteq> []"
  shows "\<exists>h'. list_reverse h l = Some h' \<and> dom h' = dom h \<and>
     nxt h' = (nxt (swapped_on h (set xs)))(l \<mapsto> last xs, hd xs \<mapsto> tail_of l) \<and>
     prv h' = (prv (swapped_on h (set xs)))(tail_of l \<mapsto> hd xs, last xs \<mapsto> l) \<and>
     (\<forall>a. a \<notin> set (nodes l xs) \<longrightarrow> h' a = h a)"
proof -
  define h1 where "h1 = swapped_on h (set xs)"
  have s: "dlist h l ([] @ xs)" "dlist h l (xs @ [])" using d by auto
  note f1 = swapped_on_fields [of h "set xs", folded h1_def]
  have el: "hd xs \<in> set xs" "last xs \<in> set xs" using ne by auto
  have nn: "l \<noteq> NULL" "tail_of l \<noteq> NULL" "l \<notin> set xs" "tail_of l \<notin> set xs" "l \<noteq> tail_of l"
    "NULL \<notin> set xs" "set (nodes l xs) \<subseteq> dom h1"
    using d by (auto simp: dlist_def f1(3))
  have ee: "hd xs \<noteq> NULL" "last xs \<noteq> NULL" "hd xs \<noteq> l" "last xs \<noteq> tail_of l"
    using nn el by metis+
  have loop: "list_reverse_loop h l (hd xs) = Some h1"
    using list_reverse_loop_run [OF s(1)] ne by (simp add: swapped_on_def h1_def)
  have k: "prv h (hd xs) = Some l" "nxt h (last xs) = Some (tail_of l)" "nxt h l = Some (hd xs)"
    "prv h (tail_of l) = Some (last xs)" "prv h l = Some NULL" "nxt h (tail_of l) = Some NULL"
    using s [unfolded dlist_split] ne by (auto simp: hd_append)
  have m1: "l \<in> dom h1" "tail_of l \<in> dom h1" "hd xs \<in> dom h1" "last xs \<in> dom h1"
    using nn(7) el by auto
  obtain h2 where h2: "set_next h1 l (last xs) = Some h2" "nxt h2 = (nxt h1)(l \<mapsto> last xs)"
    "prv h2 = prv h1" "dom h2 = dom h1" "\<forall>a. a \<noteq> l \<longrightarrow> h2 a = h1 a"
    using set_next_run [OF nn(1) m1(1), of "last xs"] by blast
  obtain h3 where h3: "set_prev h2 (tail_of l) (hd xs) = Some h3" "prv h3 = (prv h1)(tail_of l \<mapsto> hd xs)"
    "nxt h3 = (nxt h1)(l \<mapsto> last xs)" "dom h3 = dom h1" "\<forall>a. a \<noteq> tail_of l \<longrightarrow> h3 a = h2 a"
    using set_prev_run [OF nn(2) m1(2) [folded h2(4)], of "hd xs"] unfolding h2(2,3,4) by blast
  obtain h4 where h4: "set_prev h3 (last xs) l = Some h4"
    "prv h4 = (prv h1)(tail_of l \<mapsto> hd xs, last xs \<mapsto> l)"
    "nxt h4 = (nxt h1)(l \<mapsto> last xs)" "dom h4 = dom h1" "\<forall>a. a \<noteq> last xs \<longrightarrow> h4 a = h3 a"
    using set_prev_run [OF ee(2) m1(4) [folded h3(4)], of l] unfolding h3(2,3,4) by blast
  obtain h5 where h5: "set_next h4 (hd xs) (tail_of l) = Some h5"
    "nxt h5 = (nxt h1)(l \<mapsto> last xs, hd xs \<mapsto> tail_of l)"
    "prv h5 = (prv h1)(tail_of l \<mapsto> hd xs, last xs \<mapsto> l)" "dom h5 = dom h1"
    "\<forall>a. a \<noteq> hd xs \<longrightarrow> h5 a = h4 a"
    using set_next_run [OF ee(1) m1(3) [folded h4(4)], of "tail_of l"] unfolding h4(2,3,4) by blast
  have l1: "load h1 l = Some \<lparr>le_prev = NULL, le_next = hd xs\<rparr>"
    "load h1 (tail_of l) = Some \<lparr>le_prev = last xs, le_next = NULL\<rparr>"
    "load h3 l = Some \<lparr>le_prev = NULL, le_next = last xs\<rparr>"
    "load h3 (tail_of l) = Some \<lparr>le_prev = hd xs, le_next = NULL\<rparr>"
    using k nn by (auto simp: load_fields f1 h3(2,3))
  obtain n where n: "load h3 (last xs) = Some \<lparr>le_prev = tail_of l, le_next = n\<rparr>"
    using load_prv [of "last xs" h3 "tail_of l"] ee el k by (auto simp: f1 h3(2))
  have "nxt h3 (hd xs) = Some l" using ee el k by (simp add: f1 h3(3))
  then obtain m where m: "load h3 (hd xs) = Some \<lparr>le_prev = m, le_next = l\<rparr>"
    using ee(1) m1(3) in_dom_fields [of "hd xs" h3] by (auto simp: h3(4) load_def nxt_def)
  have "list_reverse h l = Some h5"
    using ne by (simp add: list_reverse_def list_empty_run [OF d] list_begin_run [OF d] hd_append loop
        l1 h2(1) h3(1) n m h4(1) h5(1) cong: bind_weak_cong)
  moreover have "\<forall>a. a \<notin> set (nodes l xs) \<longrightarrow> h5 a = h a"
  proof (intro allI impI)
    fix a assume "a \<notin> set (nodes l xs)"
    then have "a \<noteq> l" "a \<noteq> tail_of l" "a \<noteq> last xs" "a \<noteq> hd xs" "a \<notin> set xs" using el by auto
    then show "h5 a = h a" using h2(5) h3(5) h4(5) h5(5) by (simp add: h1_def swapped_on_def)
  qed
  ultimately show ?thesis using h5(2,3,4) f1(3) unfolding h1_def by blast
qed

lemma list_reverse_run:
  assumes d: "dlist h l xs"
  shows "\<exists>h'. list_reverse h l = Some h' \<and> dlist h' l (rev xs) \<and> dom h' = dom h \<and>
     (\<forall>a. a \<notin> set (nodes l xs) \<longrightarrow> h' a = h a)"
proof (cases "xs = []")
  case True
  with d show ?thesis by (simp add: list_reverse_def list_empty_run)
next
  case False
  note f1 = swapped_on_fields [of h "set xs"]
  obtain h' where h': "list_reverse h l = Some h'" "dom h' = dom h"
    "nxt h' = (nxt (swapped_on h (set xs)))(l \<mapsto> last xs, hd xs \<mapsto> tail_of l)"
    "prv h' = (prv (swapped_on h (set xs)))(tail_of l \<mapsto> hd xs, last xs \<mapsto> l)"
    "\<forall>a. a \<notin> set (nodes l xs) \<longrightarrow> h' a = h a"
    using list_reverse_repair [OF d False] by blast
  have nn: "l \<notin> set xs" "tail_of l \<notin> set xs" "distinct xs" "l \<noteq> tail_of l" using d by (auto simp: dlist_def)
  have el: "hd xs \<in> set xs" "last xs \<in> set xs" using False by auto
  have "chain h xs" using d chain_append [of h "[l]" "xs @ [tail_of l]"] chain_append [of h xs]
    by (simp add: dlist_def)
  then have "chain (swapped_on h (set xs)) (rev xs)" by (simp add: chain_swapped)
  moreover have "hd xs \<notin> set (butlast (rev xs))" "last xs \<notin> set (tl (rev xs))"
    using False nn(3) last_notin_butlast [of "rev xs"] hd_notin_tl [of "rev xs"]
    by (simp_all add: last_rev hd_rev)
  moreover have "l \<notin> set (butlast (rev xs))" "tail_of l \<notin> set (tl (rev xs))"
    using nn False by (metis in_set_butlastD set_rev, metis list.set_sel(2) rev_is_Nil_conv set_rev)
  ultimately have "chain h' (rev xs)"
    by (subst chain_frame [where h = "swapped_on h (set xs)"]) (auto simp: h'(3,4))
  moreover have "nodes l (rev xs) = [l] @ rev xs @ [tail_of l]" by simp
  ultimately have "chain h' (nodes l (rev xs))"
    using False nn el by (simp only: chain_append) (auto simp: h'(3,4) last_rev hd_rev)
  moreover have "prv h' l = Some NULL" "nxt h' (tail_of l) = Some NULL"
    using d nn el by (auto simp: h'(3,4) f1 dlist_def)
  ultimately have "dlist h' l (rev xs)"
    using d by (auto simp: dlist_def h'(2))
  with h' show ?thesis by blast
qed

end
