(* ===== verification/KSort.thy ===== *)
theory KSort
  imports KList
begin

text \<open>
  The ordered operations of \<open>lib/kernel/list.c\<close>: the natural in-place merge sort, ordered
  insertion, duplicate removal, the extrema, and the thread index the project adds.  The
  comparison callback with its auxiliary data is one function \<open>lt\<close> on element addresses.
  The pointer loops are shown equal to a merge sort on sequences, which under the contract
  \<open>strict_weak_order\<close> sorts, permutes and is stable; the number of runs bounds the passes.
\<close>

section \<open>The code\<close>

partial_function (option) is_sorted_loop ::
  "lheap \<Rightarrow> (addr \<Rightarrow> addr \<Rightarrow> bool) \<Rightarrow> addr \<Rightarrow> addr \<Rightarrow> bool option" where
  "is_sorted_loop h lt a b = do {
     a \<leftarrow> list_next h a;
     if a = b then Some True
     else do {
       p \<leftarrow> list_prev h a;
       if lt a p then Some False else is_sorted_loop h lt a b
     }
   }"

definition is_sorted :: "lheap \<Rightarrow> addr \<Rightarrow> addr \<Rightarrow> (addr \<Rightarrow> addr \<Rightarrow> bool) \<Rightarrow> bool option" where
  "is_sorted h a b lt = (if a \<noteq> b then is_sorted_loop h lt a b else Some True)"

text \<open>The \<open>do\<close>--\<open>while\<close> loop of \<open>find_end_of_run\<close>.\<close>

partial_function (option) find_end_of_run_loop ::
  "lheap \<Rightarrow> (addr \<Rightarrow> addr \<Rightarrow> bool) \<Rightarrow> addr \<Rightarrow> addr \<Rightarrow> addr option" where
  "find_end_of_run_loop h lt a b = do {
     a \<leftarrow> list_next h a;
     if a = b then Some a
     else do {
       p \<leftarrow> list_prev h a;
       if \<not> lt a p then find_end_of_run_loop h lt a b else Some a
     }
   }"

definition find_end_of_run ::
  "lheap \<Rightarrow> addr \<Rightarrow> addr \<Rightarrow> (addr \<Rightarrow> addr \<Rightarrow> bool) \<Rightarrow> addr option" where
  "find_end_of_run h a b lt = do {
     ASSERT (a \<noteq> NULL); ASSERT (b \<noteq> NULL); ASSERT (a \<noteq> b);
     find_end_of_run_loop h lt a b
   }"

partial_function (option) inplace_merge_loop ::
  "lheap \<Rightarrow> (addr \<Rightarrow> addr \<Rightarrow> bool) \<Rightarrow> addr \<Rightarrow> addr \<Rightarrow> addr \<Rightarrow> lheap option" where
  "inplace_merge_loop h lt a0 a1b0 b1 =
     (if a0 \<noteq> a1b0 \<and> a1b0 \<noteq> b1 then
        if \<not> lt a1b0 a0 then do {
          a0 \<leftarrow> list_next h a0;
          inplace_merge_loop h lt a0 a1b0 b1
        } else do {
          a1b0 \<leftarrow> list_next h a1b0;
          p \<leftarrow> list_prev h a1b0;
          h \<leftarrow> list_splice h a0 p a1b0;
          inplace_merge_loop h lt a0 a1b0 b1
        }
      else Some h)"

definition inplace_merge ::
  "lheap \<Rightarrow> addr \<Rightarrow> addr \<Rightarrow> addr \<Rightarrow> (addr \<Rightarrow> addr \<Rightarrow> bool) \<Rightarrow> lheap option" where
  "inplace_merge h a0 a1b0 b1 lt = do {
     ASSERT (a0 \<noteq> NULL); ASSERT (a1b0 \<noteq> NULL); ASSERT (b1 \<noteq> NULL);
     s \<leftarrow> is_sorted h a0 a1b0 lt; ASSERT s;
     t \<leftarrow> is_sorted h a1b0 b1 lt; ASSERT t;
     inplace_merge_loop h lt a0 a1b0 b1
   }"

text \<open>\<open>list_sort\<close>: one pass of the \<open>for\<close> loop, and the outer \<open>do\<close>--\<open>while\<close> loop.\<close>

partial_function (option) list_sort_pass ::
  "lheap \<Rightarrow> addr \<Rightarrow> (addr \<Rightarrow> addr \<Rightarrow> bool) \<Rightarrow> addr \<Rightarrow> u32 \<Rightarrow> (lheap \<times> u32) option" where
  "list_sort_pass h l lt a0 output_run_cnt = do {
     e \<leftarrow> list_end l;
     if a0 = e then Some (h, output_run_cnt)
     else do {
       a1b0 \<leftarrow> find_end_of_run h a0 e lt;
       if a1b0 = e then Some (h, output_run_cnt + 1)
       else do {
         b1 \<leftarrow> find_end_of_run h a1b0 e lt;
         h \<leftarrow> inplace_merge h a0 a1b0 b1 lt;
         list_sort_pass h l lt b1 (output_run_cnt + 1)
       }
     }
   }"

partial_function (option) list_sort_loop ::
  "lheap \<Rightarrow> addr \<Rightarrow> (addr \<Rightarrow> addr \<Rightarrow> bool) \<Rightarrow> lheap option" where
  "list_sort_loop h l lt = do {
     a0 \<leftarrow> list_begin h l;
     r \<leftarrow> list_sort_pass h l lt a0 0;
     if snd r > 1 then list_sort_loop (fst r) l lt else Some (fst r)
   }"

definition list_sort :: "lheap \<Rightarrow> addr \<Rightarrow> (addr \<Rightarrow> addr \<Rightarrow> bool) \<Rightarrow> lheap option" where
  "list_sort h l lt = do {
     ASSERT (l \<noteq> NULL);
     h \<leftarrow> list_sort_loop h l lt;
     b \<leftarrow> list_begin h l; e \<leftarrow> list_end l;
     s \<leftarrow> is_sorted h b e lt; ASSERT s;
     Some h
   }"

partial_function (option) list_insert_ordered_loop ::
  "lheap \<Rightarrow> addr \<Rightarrow> addr \<Rightarrow> (addr \<Rightarrow> addr \<Rightarrow> bool) \<Rightarrow> addr \<Rightarrow> addr option" where
  "list_insert_ordered_loop h l elem lt e = do {
     t \<leftarrow> list_end l;
     if e = t then Some e
     else if lt elem e then Some e
     else do { e \<leftarrow> list_next h e; list_insert_ordered_loop h l elem lt e }
   }"

definition list_insert_ordered ::
  "lheap \<Rightarrow> addr \<Rightarrow> addr \<Rightarrow> (addr \<Rightarrow> addr \<Rightarrow> bool) \<Rightarrow> lheap option" where
  "list_insert_ordered h l elem lt = do {
     ASSERT (l \<noteq> NULL); ASSERT (elem \<noteq> NULL);
     b \<leftarrow> list_begin h l;
     e \<leftarrow> list_insert_ordered_loop h l elem lt b;
     list_insert h e elem
   }"

partial_function (option) list_unique_loop ::
  "lheap \<Rightarrow> addr \<Rightarrow> addr \<Rightarrow> (addr \<Rightarrow> addr \<Rightarrow> bool) \<Rightarrow> addr \<Rightarrow> lheap option" where
  "list_unique_loop h l duplicates lt elem = do {
     next \<leftarrow> list_next h elem;
     t \<leftarrow> list_end l;
     if next = t then Some h
     else if \<not> lt elem next \<and> \<not> lt next elem then do {
       r \<leftarrow> list_remove h next;
       h \<leftarrow> (if duplicates \<noteq> NULL then list_push_back (snd r) duplicates next else Some (snd r));
       list_unique_loop h l duplicates lt elem
     } else list_unique_loop h l duplicates lt next
   }"

definition list_unique ::
  "lheap \<Rightarrow> addr \<Rightarrow> addr \<Rightarrow> (addr \<Rightarrow> addr \<Rightarrow> bool) \<Rightarrow> lheap option" where
  "list_unique h l duplicates lt = do {
     ASSERT (l \<noteq> NULL);
     em \<leftarrow> list_empty h l;
     if em then Some h
     else do { elem \<leftarrow> list_begin h l; list_unique_loop h l duplicates lt elem }
   }"

partial_function (option) list_max_loop ::
  "lheap \<Rightarrow> addr \<Rightarrow> (addr \<Rightarrow> addr \<Rightarrow> bool) \<Rightarrow> addr \<Rightarrow> addr \<Rightarrow> addr option" where
  "list_max_loop h l lt mx e = do {
     t \<leftarrow> list_end l;
     if e = t then Some mx
     else do {
       n \<leftarrow> list_next h e;
       list_max_loop h l lt (if lt mx e then e else mx) n
     }
   }"

definition list_max :: "lheap \<Rightarrow> addr \<Rightarrow> (addr \<Rightarrow> addr \<Rightarrow> bool) \<Rightarrow> addr option" where
  "list_max h l lt = do {
     mx \<leftarrow> list_begin h l; t \<leftarrow> list_end l;
     if mx \<noteq> t then do { e \<leftarrow> list_next h mx; list_max_loop h l lt mx e }
     else Some mx
   }"

partial_function (option) list_min_loop ::
  "lheap \<Rightarrow> addr \<Rightarrow> (addr \<Rightarrow> addr \<Rightarrow> bool) \<Rightarrow> addr \<Rightarrow> addr \<Rightarrow> addr option" where
  "list_min_loop h l lt mn e = do {
     t \<leftarrow> list_end l;
     if e = t then Some mn
     else do {
       n \<leftarrow> list_next h e;
       list_min_loop h l lt (if lt e mn then e else mn) n
     }
   }"

definition list_min :: "lheap \<Rightarrow> addr \<Rightarrow> (addr \<Rightarrow> addr \<Rightarrow> bool) \<Rightarrow> addr option" where
  "list_min h l lt = do {
     mn \<leftarrow> list_begin h l; t \<leftarrow> list_end l;
     if mn \<noteq> t then do { e \<leftarrow> list_next h mn; list_min_loop h l lt mn e }
     else Some mn
   }"

text \<open>
  The two functions the shell project added to \<open>list.c\<close>.  \<open>tids\<close> is the \<open>tid\<close> field of the
  thread structures in memory; \<open>allelem\<close> is 32 bytes into \<open>struct thread\<close> (\<open>tid\<close>, \<open>status\<close>,
  \<open>name[16]\<close>, \<open>stack\<close>, \<open>priority\<close>), so that \<open>list_entry\<close> subtracts 32, and \<open>&p_head->tid\<close> is
  \<open>p_head\<close> itself.
\<close>

definition list_entry :: "addr \<Rightarrow> nat \<Rightarrow> addr" where
  "list_entry e off = e - off"

abbreviation allelem_off :: nat where
  "allelem_off \<equiv> 32"

definition comparator :: "(addr \<Rightarrow> int) \<Rightarrow> addr \<Rightarrow> addr \<Rightarrow> addr \<Rightarrow> bool" where
  "comparator tids a b aux =
     (if a = NULL \<or> b = NULL \<or> aux = NULL then False
      else tids (list_entry a allelem_off) < tids (list_entry b allelem_off))"

partial_function (option) get_sorted_index_loop ::
  "lheap \<Rightarrow> (addr \<Rightarrow> int) \<Rightarrow> addr \<Rightarrow> addr \<Rightarrow> addr \<Rightarrow> int \<Rightarrow> int option" where
  "get_sorted_index_loop h tids threads target p_elem index = do {
     t \<leftarrow> list_end threads;
     if t = p_elem then Some (- 1)
     else if tids target = tids (list_entry p_elem allelem_off) then Some index
     else do {
       p_elem \<leftarrow> list_next h p_elem;
       get_sorted_index_loop h tids threads target p_elem (index + 1)
     }
   }"

definition get_sorted_index ::
  "lheap \<Rightarrow> (addr \<Rightarrow> int) \<Rightarrow> addr \<Rightarrow> addr \<Rightarrow> (int \<times> lheap) option" where
  "get_sorted_index h tids threads target =
     (if threads = NULL \<or> target = NULL then Some (- 1, h)
      else do {
        p_entry \<leftarrow> list_begin h threads;
        p_head \<leftarrow> Some (list_entry p_entry allelem_off);
        h \<leftarrow> list_sort h threads (\<lambda>a b. comparator tids a b p_head);
        p_elem \<leftarrow> list_begin h threads;
        i \<leftarrow> get_sorted_index_loop h tids threads target p_elem 0;
        Some (i, h)
      })"


section \<open>The same algorithm on sequences\<close>

fun take_run :: "('a \<Rightarrow> 'a \<Rightarrow> bool) \<Rightarrow> 'a list \<Rightarrow> 'a list \<times> 'a list" where
  "take_run lt (x # y # ys) =
     (if lt y x then ([x], y # ys) else (x # fst (take_run lt (y # ys)), snd (take_run lt (y # ys))))"
| "take_run lt xs = (xs, [])"

fun lmerge :: "('a \<Rightarrow> 'a \<Rightarrow> bool) \<Rightarrow> 'a list \<Rightarrow> 'a list \<Rightarrow> 'a list" where
  "lmerge lt (x # xs) (y # ys) =
     (if lt y x then y # lmerge lt (x # xs) ys else x # lmerge lt xs (y # ys))"
| "lmerge lt [] ys = ys"
| "lmerge lt xs [] = xs"

lemma take_run_append: "fst (take_run lt xs) @ snd (take_run lt xs) = xs"
  by (induction lt xs rule: take_run.induct) auto

lemma take_run_Nil [simp]: "fst (take_run lt xs) = [] \<longleftrightarrow> xs = []"
  by (induction lt xs rule: take_run.induct) auto

lemma take_run_shorter: "xs \<noteq> [] \<Longrightarrow> length (snd (take_run lt xs)) < length xs"
  by (induction lt xs rule: take_run.induct) auto

lemma take_run_hd: "xs \<noteq> [] \<Longrightarrow> hd (fst (take_run lt xs)) = hd xs"
  by (induction lt xs rule: take_run.induct) auto

lemma take_run_sorted: "successively (\<lambda>x y. \<not> lt y x) (fst (take_run lt xs))"
  by (induction lt xs rule: take_run.induct) (auto simp: successively_Cons take_run_hd)

function lpass :: "('a \<Rightarrow> 'a \<Rightarrow> bool) \<Rightarrow> 'a list \<Rightarrow> 'a list \<times> nat" where
  "lpass lt xs = (if xs = [] then ([], 0)
     else let r = fst (take_run lt xs); s = snd (take_run lt xs) in
       if s = [] then (xs, 1)
       else let q = lpass lt (snd (take_run lt s)) in
         (lmerge lt r (fst (take_run lt s)) @ fst q, snd q + 1))"
  by pat_completeness auto
termination
proof (relation "measure (\<lambda>(lt, xs). length xs)")
  fix lt :: "'a \<Rightarrow> 'a \<Rightarrow> bool" and xs r s
  assume "xs \<noteq> []" "s = snd (take_run lt xs)" "s \<noteq> []"
  then show "((lt, snd (take_run lt s)), lt, xs) \<in> measure (\<lambda>(lt, xs). length xs)"
    using take_run_shorter [of xs lt] take_run_shorter [of s lt] by simp
qed simp

declare lpass.simps [simp del]

text \<open>The number of maximal runs is what the passes decrease.\<close>

fun runs :: "('a \<Rightarrow> 'a \<Rightarrow> bool) \<Rightarrow> 'a list \<Rightarrow> nat" where
  "runs lt (x # y # ys) = (if lt y x then 1 else 0) + runs lt (y # ys)"
| "runs lt [x] = 1"
| "runs lt [] = 0"

lemma runs_take_run: "xs \<noteq> [] \<Longrightarrow> runs lt xs = 1 + runs lt (snd (take_run lt xs))"
  by (induction lt xs rule: take_run.induct) auto

lemma runs_append: "runs lt (xs @ ys) \<le> runs lt xs + runs lt ys"
proof (induction lt xs rule: runs.induct)
  case (2 lt x)
  then show ?case by (cases ys) auto
qed auto

lemma runs_sorted: "successively (\<lambda>x y. \<not> lt y x) xs \<Longrightarrow> runs lt xs \<le> 1"
  by (induction lt xs rule: runs.induct) auto

lemma runs_0 [simp]: "runs lt xs = 0 \<longleftrightarrow> xs = []"
  by (induction lt xs rule: runs.induct) auto

lemma sorted_runs: "runs lt xs \<le> 1 \<Longrightarrow> successively (\<lambda>x y. \<not> lt y x) xs"
  by (induction lt xs rule: runs.induct) (auto split: if_splits)

lemma runs_le_length: "runs lt xs \<le> length xs"
  by (induction lt xs rule: runs.induct) auto

lemma mset_lmerge: "mset (lmerge lt xs ys) = mset xs + mset ys"
  by (induction lt xs ys rule: lmerge.induct) auto

lemma set_lmerge: "set (lmerge lt xs ys) = set xs \<union> set ys"
  using mset_lmerge [of lt xs ys] by (metis set_mset_mset set_mset_union)

lemma lpass_step:
  assumes "xs \<noteq> []" "snd (take_run lt xs) \<noteq> []"
  obtains r q t where "take_run lt xs = (r, q @ t)" "take_run lt (q @ t) = (q, t)" "r \<noteq> []" "q \<noteq> []"
    "xs = r @ q @ t" "lpass lt xs = (lmerge lt r q @ fst (lpass lt t), snd (lpass lt t) + 1)"
proof -
  define r s where "r = fst (take_run lt xs)" and "s = snd (take_run lt xs)"
  define q t where "q = fst (take_run lt s)" and "t = snd (take_run lt s)"
  have e: "xs = r @ s" "s = q @ t"
    unfolding r_def s_def q_def t_def by (simp_all add: take_run_append)
  have p: "take_run lt xs = (r, s)" "take_run lt s = (q, t)"
    by (simp_all add: r_def s_def q_def t_def)
  show ?thesis
  proof (rule that)
    show "take_run lt xs = (r, q @ t)" "take_run lt (q @ t) = (q, t)" using p e by simp_all
    show "r \<noteq> []" "q \<noteq> []" using assms by (simp_all add: r_def q_def s_def)
    show "xs = r @ q @ t" using e by simp
    show "lpass lt xs = (lmerge lt r q @ fst (lpass lt t), snd (lpass lt t) + 1)"
      using assms p by (subst lpass.simps) (simp add: Let_def)
  qed
qed

lemma lpass_single: "snd (take_run lt xs) = [] \<Longrightarrow> lpass lt xs = (xs, min 1 (length xs))"
  by (subst lpass.simps) (auto simp: Suc_le_eq)

text \<open>Induction over the pairs of runs that one pass merges.\<close>

lemma lpass_induct [case_names single step]:
  assumes "\<And>xs. snd (take_run lt xs) = [] \<Longrightarrow> lpass lt xs = (xs, min 1 (length xs)) \<Longrightarrow> P xs"
    and "\<And>r q t. take_run lt (r @ q @ t) = (r, q @ t) \<Longrightarrow> take_run lt (q @ t) = (q, t) \<Longrightarrow>
       r \<noteq> [] \<Longrightarrow> q \<noteq> [] \<Longrightarrow>
       lpass lt (r @ q @ t) = (lmerge lt r q @ fst (lpass lt t), snd (lpass lt t) + 1) \<Longrightarrow>
       P t \<Longrightarrow> P (r @ q @ t)"
  shows "P xs"
proof (induction xs rule: length_induct)
  case (1 xs)
  show ?case
  proof (cases "snd (take_run lt xs) = []")
    case False
    then have "xs \<noteq> []" by auto
    from lpass_step [OF this False] obtain r q t where
      "take_run lt xs = (r, q @ t)" "take_run lt (q @ t) = (q, t)" "r \<noteq> []" "q \<noteq> []"
      "xs = r @ q @ t" "lpass lt xs = (lmerge lt r q @ fst (lpass lt t), snd (lpass lt t) + 1)"
      by blast
    with 1 assms(2) [of r q t] show ?thesis by (simp add: add.commute)
  qed (use assms(1) lpass_single in blast)
qed

lemma lpass_cnt: "2 * snd (lpass lt xs) \<le> runs lt xs + 1"
proof (induction xs rule: lpass_induct [where lt = lt])
  case (step r q t)
  then show ?case using runs_take_run [of "r @ q @ t" lt] runs_take_run [of "q @ t" lt] by simp
next
  case (single xs)
  then show ?case using runs_take_run [of xs lt] by (cases xs) simp_all
qed

lemma mset_lpass: "mset (fst (lpass lt xs)) = mset xs"
  by (induction xs rule: lpass_induct [where lt = lt]) (simp_all add: mset_lmerge)

context strict_weak_order
begin

lemma lmerge_sorted:
  "sorted_wrt (\<lambda>x y. \<not> less y x) xs \<Longrightarrow> sorted_wrt (\<lambda>x y. \<not> less y x) ys \<Longrightarrow>
   set xs \<subseteq> A \<Longrightarrow> set ys \<subseteq> A \<Longrightarrow> sorted_wrt (\<lambda>x y. \<not> less y x) (lmerge less xs ys)"
proof (induction lt \<equiv> less xs ys rule: lmerge.induct)
  case (1 x xs y ys)
  have "\<forall>z\<in>set xs. \<not> less z y" if "less y x"
  proof
    fix z assume "z \<in> set xs"
    then have "y \<in> A" "x \<in> A" "z \<in> A" "\<not> less z x" using 1(3,5,6) by auto
    then show "\<not> less z y" using that less_le_trans asym by blast
  qed
  moreover have "\<forall>z\<in>set ys. \<not> less z x" if "\<not> less y x"
  proof
    fix z assume "z \<in> set ys"
    then have "y \<in> A" "x \<in> A" "z \<in> A" "\<not> less z y" using 1(4,5,6) by auto
    then show "\<not> less z x" using that le_trans by blast
  qed
  moreover have "less y x \<Longrightarrow> \<not> less x y" using 1(5,6) asym [of y x] by simp
  ultimately show ?case using 1 by (simp add: set_lmerge ball_Un)
qed auto

lemma lmerge_stable:
  "sorted_wrt (\<lambda>x y. \<not> less y x) xs \<Longrightarrow> set xs \<subseteq> A \<Longrightarrow> set ys \<subseteq> A \<Longrightarrow> k \<in> A \<Longrightarrow>
   filter (eqv less k) (lmerge less xs ys) = filter (eqv less k) xs @ filter (eqv less k) ys"
proof (induction lt \<equiv> less xs ys rule: lmerge.induct)
  case (1 x xs y ys)
  have "filter (eqv less k) (x # xs) = []" if "less y x" "eqv less k y"
  proof -
    have "\<not> eqv less k z" if "z \<in> set (x # xs)" for z
    proof -
      have zA: "z \<in> A" "y \<in> A" "x \<in> A" using that 1(4,5) by auto
      have "\<not> less z x" using that 1(3) irrefl zA by auto
      then have "less y z" using less_le_trans [of y x z] zA \<open>less y x\<close> by blast
      then have "less k z" using eqv_less [of k y z] zA 1(6) \<open>eqv less k y\<close> by blast
      then show ?thesis by (simp add: eqv_def)
    qed
    then show ?thesis by (auto simp: filter_empty_conv)
  qed
  with 1 show ?case by auto
qed auto

lemma lpass_runs: "set xs \<subseteq> A \<Longrightarrow> runs less (fst (lpass less xs)) \<le> snd (lpass less xs)"
proof (induction xs rule: lpass_induct [where lt = less])
  case (single xs)
  then show ?case using runs_take_run [of xs less] by (cases xs) simp_all
next
  case (step r q t)
  have "successively (\<lambda>x y. \<not> less y x) r" "successively (\<lambda>x y. \<not> less y x) q"
    using take_run_sorted [of less "r @ q @ t"] take_run_sorted [of less "q @ t"] step by simp_all
  then have "sorted_wrt (\<lambda>x y. \<not> less y x) (lmerge less r q)"
    using step.prems by (intro lmerge_sorted) (simp_all flip: sorted_neighbours)
  moreover have "set (lmerge less r q) \<subseteq> A" using step.prems by (simp add: set_lmerge)
  ultimately have "runs less (lmerge less r q) \<le> 1"
    using sorted_neighbours runs_sorted by blast
  then show ?case
    using step runs_append [of less "lmerge less r q" "fst (lpass less t)"] by simp
qed

lemma lpass_stable:
  "set xs \<subseteq> A \<Longrightarrow> k \<in> A \<Longrightarrow> filter (eqv less k) (fst (lpass less xs)) = filter (eqv less k) xs"
proof (induction xs rule: lpass_induct [where lt = less])
  case (step r q t)
  have "successively (\<lambda>x y. \<not> less y x) r"
    using take_run_sorted [of less "r @ q @ t"] step by simp
  then show ?case
    using step lmerge_stable [of r q k] by (simp flip: sorted_neighbours)
qed simp

end

section \<open>The pointer program implements it\<close>

lemma find_end_of_run_loop_run:
  "dlist h l (A @ x # B) \<Longrightarrow>
     find_end_of_run_loop h lt x (tail_of l) = Some (succ_of l (snd (take_run lt (x # B))))"
proof (induction B arbitrary: A x)
  case Nil
  then show ?case by (subst find_end_of_run_loop.simps) (simp add: list_next_elem)
next
  case (Cons y B)
  have d: "dlist h l ((A @ [x]) @ y # B)" using Cons.prems by simp
  have "y \<noteq> tail_of l" using Cons.prems by (auto simp: dlist_def)
  then show ?case
    using Cons.IH [OF d] list_next_elem [OF Cons.prems] list_prev_elem [OF d]
    by (subst find_end_of_run_loop.simps) simp
qed

lemma find_end_of_run_run:
  assumes "dlist h l (A @ B)" "B \<noteq> []"
  shows "find_end_of_run h (succ_of l B) (tail_of l) lt = Some (succ_of l (snd (take_run lt B)))"
proof -
  from assms(2) obtain x C where B: "B = x # C" by (cases B) auto
  have "x \<noteq> NULL" "x \<noteq> tail_of l" "l \<noteq> NULL" using assms(1) by (auto simp: B dlist_def)
  then show ?thesis
    using find_end_of_run_loop_run [of h l A x C lt] assms(1) by (simp add: find_end_of_run_def B)
qed

lemma is_sorted_loop_run:
  "dlist h l (A @ x # X @ B) \<Longrightarrow>
     is_sorted_loop h lt x (succ_of l B) = Some (successively (\<lambda>x y. \<not> lt y x) (x # X))"
proof (induction X arbitrary: A x)
  case Nil
  then show ?case by (subst is_sorted_loop.simps) (simp add: list_next_elem [of h l A])
next
  case (Cons y X)
  have d: "dlist h l ((A @ [x]) @ y # X @ B)" using Cons.prems by simp
  have "y \<noteq> succ_of l B" using Cons.prems by (cases B) (auto simp: dlist_def)
  moreover have "list_next h x = Some y" using list_next_elem [of h l A x "y # X @ B"] Cons.prems by simp
  ultimately show ?case
    using Cons.IH [OF d] list_prev_elem [OF d]
    by (subst is_sorted_loop.simps) simp
qed

lemma is_sorted_run:
  assumes "dlist h l (A @ X @ B)"
  shows "is_sorted h (succ_of l (X @ B)) (succ_of l B) lt = Some (successively (\<lambda>x y. \<not> lt y x) X)"
proof (cases X)
  case (Cons x Y)
  have "x \<noteq> succ_of l B" using assms by (cases B) (auto simp: dlist_def Cons)
  then show ?thesis
    using is_sorted_loop_run [of h l A x Y B lt] assms by (simp add: is_sorted_def Cons)
qed (simp add: is_sorted_def)

lemma inplace_merge_loop_run:
  "dlist h l (A @ X @ Y @ B) \<Longrightarrow>
   \<exists>h'. inplace_merge_loop h lt (succ_of l (X @ Y @ B)) (succ_of l (Y @ B)) (succ_of l B) = Some h' \<and>
     dlist h' l (A @ lmerge lt X Y @ B) \<and> dom h' = dom h \<and>
     (\<forall>a. a \<notin> set (nodes l (A @ X @ Y @ B)) \<longrightarrow> h' a = h a)"
proof (induction lt X Y arbitrary: A h rule: lmerge.induct)
  case (1 lt x xs y ys)
  have ne: "x \<noteq> y" "y \<noteq> succ_of l B" "x \<noteq> succ_of l B"
    using 1(3) by (cases B; auto simp: dlist_def)+
  show ?case
  proof (cases "lt y x")
    case False
    have d: "dlist h l ((A @ [x]) @ xs @ (y # ys) @ B)" using 1(3) by simp
    have "list_next h x = Some (succ_of l (xs @ (y # ys) @ B))"
      using list_next_elem [of h l A x] 1(3) by simp
    then show ?thesis
      using 1(2) [OF False d] False ne by (subst inplace_merge_loop.simps) simp
  next
    case True
    have n: "list_next h y = Some (succ_of l (ys @ B))"
      using list_next_elem [of h l "A @ x # xs" y "ys @ B"] 1(3) by simp
    have p: "list_prev h (succ_of l (ys @ B)) = Some y"
      using list_prev_run [of h l "A @ x # xs @ [y]" "ys @ B"] 1(3) by simp
    obtain h1 where h1: "list_splice h x y (succ_of l (ys @ B)) = Some h1"
      "dlist h1 l ((A @ [y]) @ (x # xs) @ ys @ B)" "dom h1 = dom h"
      "\<forall>a. a \<notin> set (nodes l (A @ (x # xs) @ [y] @ ys @ B)) \<longrightarrow> h1 a = h a"
      using list_splice_forward [of h l A "x # xs" "[y]" "ys @ B"] 1(3) by auto
    have fr: "set (nodes l (A @ (x # xs) @ (y # ys) @ B)) = set (nodes l ((A @ [y]) @ (x # xs) @ ys @ B))"
      by auto
    obtain h2 where h2: "inplace_merge_loop h1 lt x (succ_of l (ys @ B)) (succ_of l B) = Some h2"
      "dlist h2 l ((A @ [y]) @ lmerge lt (x # xs) ys @ B)" "dom h2 = dom h1"
      "\<forall>a. a \<notin> set (nodes l ((A @ [y]) @ (x # xs) @ ys @ B)) \<longrightarrow> h2 a = h1 a"
      using 1(1) [OF True h1(2)] by auto
    have "\<forall>a. a \<notin> set (nodes l (A @ (x # xs) @ (y # ys) @ B)) \<longrightarrow> h2 a = h a"
      using h1(4) h2(4) unfolding fr by simp
    then show ?thesis
      using True ne n p h1(1,3) h2(1-3) by (subst inplace_merge_loop.simps) simp
  qed
qed (auto simp: inplace_merge_loop.simps)

lemma inplace_merge_run:
  assumes d: "dlist h l (A @ X @ Y @ B)"
    and "successively (\<lambda>x y. \<not> lt y x) X" "successively (\<lambda>x y. \<not> lt y x) Y"
  shows "\<exists>h'. inplace_merge h (succ_of l (X @ Y @ B)) (succ_of l (Y @ B)) (succ_of l B) lt = Some h' \<and>
     dlist h' l (A @ lmerge lt X Y @ B) \<and> dom h' = dom h \<and>
     (\<forall>a. a \<notin> set (nodes l (A @ X @ Y @ B)) \<longrightarrow> h' a = h a)"
proof -
  have N: "NULL \<notin> set (nodes l (A @ X @ Y @ B))" using d by (simp add: dlist_def)
  have z: "succ_of l Z \<noteq> NULL" if "set Z \<subseteq> set (A @ X @ Y @ B)" for Z
    using N that succ_of_in [of Z l] by (metis UnE list.set_intros(2) set_append subsetD UnI1 UnI2)
  have "succ_of l (X @ Y @ B) \<noteq> NULL" "succ_of l (Y @ B) \<noteq> NULL" "succ_of l B \<noteq> NULL"
    using z [of "X @ Y @ B"] z [of "Y @ B"] z [of B] by auto
  then show ?thesis
    using inplace_merge_loop_run [OF d, of lt] is_sorted_run [OF d] is_sorted_run [of h l "A @ X" Y B] assms
    by (auto simp: inplace_merge_def)
qed

lemma list_sort_pass_run:
  "dlist h l (A @ xs) \<Longrightarrow>
   \<exists>h'. list_sort_pass h l lt (succ_of l xs) c = Some (h', c + of_nat (snd (lpass lt xs))) \<and>
     dlist h' l (A @ fst (lpass lt xs)) \<and> dom h' = dom h \<and>
     (\<forall>a. a \<notin> set (nodes l (A @ xs)) \<longrightarrow> h' a = h a)"
proof (induction xs arbitrary: A h c rule: lpass_induct [where lt = lt])
  case (single xs)
  show ?case
  proof (cases "xs = []")
    case True
    then show ?thesis using single by (simp add: list_sort_pass.simps dlist_list_end)
  next
    case False
    moreover have "succ_of l xs \<noteq> tail_of l" using succ_of_tail_iff single.prems False by blast
    ultimately show ?thesis
      using single find_end_of_run_run [OF single.prems False, of lt] dlist_list_end [OF single.prems]
      by (subst list_sort_pass.simps) (cases xs; simp)
  qed
next
  case (step r q t)
  note d = step.prems
  have d2: "dlist h l ((A @ r) @ q @ t)" using d by simp
  have ne: "succ_of l (r @ q @ t) \<noteq> tail_of l" "succ_of l (q @ t) \<noteq> tail_of l"
    using succ_of_tail_iff [OF d] succ_of_tail_iff [OF d2] step by simp_all
  have f: "find_end_of_run h (succ_of l (r @ q @ t)) (tail_of l) lt = Some (succ_of l (q @ t))"
    "find_end_of_run h (succ_of l (q @ t)) (tail_of l) lt = Some (succ_of l t)"
    using find_end_of_run_run [OF d, of lt] find_end_of_run_run [OF d2, of lt] step by simp_all
  have "successively (\<lambda>x y. \<not> lt y x) r" "successively (\<lambda>x y. \<not> lt y x) q"
    using take_run_sorted [of lt "r @ q @ t"] take_run_sorted [of lt "q @ t"] step by simp_all
  then obtain h1 where h1: "inplace_merge h (succ_of l (r @ q @ t)) (succ_of l (q @ t)) (succ_of l t) lt = Some h1"
    "dlist h1 l ((A @ lmerge lt r q) @ t)" "dom h1 = dom h"
    "\<forall>a. a \<notin> set (nodes l (A @ r @ q @ t)) \<longrightarrow> h1 a = h a"
    using inplace_merge_run [OF d, of lt] by auto
  obtain h2 where h2: "list_sort_pass h1 l lt (succ_of l t) (c + 1) = Some (h2, c + 1 + of_nat (snd (lpass lt t)))"
    "dlist h2 l ((A @ lmerge lt r q) @ fst (lpass lt t))" "dom h2 = dom h1"
    "\<forall>a. a \<notin> set (nodes l ((A @ lmerge lt r q) @ t)) \<longrightarrow> h2 a = h1 a"
    using step.IH [OF h1(2)] by blast
  have "set (nodes l ((A @ lmerge lt r q) @ t)) = set (nodes l (A @ r @ q @ t))"
    by (auto simp: set_lmerge)
  then have "\<forall>a. a \<notin> set (nodes l (A @ r @ q @ t)) \<longrightarrow> h2 a = h a" using h1(4) h2(4) by simp
  moreover have "list_sort_pass h l lt (succ_of l (r @ q @ t)) c =
      Some (h2, c + 1 + of_nat (snd (lpass lt t)))"
    using ne f h1(1) h2(1) dlist_list_end [OF d]
    by (subst list_sort_pass.simps) (simp del: hd_append2)
  ultimately show ?case using step.hyps(5) h2(2,3) h1(3) by (simp add: add.assoc)
qed

section \<open>Sorting\<close>

lemma list_sort_loop_run:
  assumes swo: "strict_weak_order lt S"
  shows "dlist h l xs \<Longrightarrow> set xs \<subseteq> S \<Longrightarrow> length xs < 2 ^ 32 \<Longrightarrow>
   \<exists>h' ys. list_sort_loop h l lt = Some h' \<and> dlist h' l ys \<and> mset ys = mset xs \<and>
     successively (\<lambda>x y. \<not> lt y x) ys \<and> (\<forall>k\<in>S. filter (eqv lt k) ys = filter (eqv lt k) xs) \<and>
     dom h' = dom h \<and> (\<forall>a. a \<notin> set (nodes l xs) \<longrightarrow> h' a = h a)"
proof (induction "runs lt xs" arbitrary: h xs rule: less_induct)
  case less
  define ys n where "ys = fst (lpass lt xs)" and "n = snd (lpass lt xs)"
  have ms: "mset ys = mset xs" unfolding ys_def by (rule mset_lpass)
  then have st: "set ys = set xs" and len: "length ys = length xs"
    by (metis set_mset_mset, metis size_mset)
  obtain h1 where h1: "list_sort_pass h l lt (succ_of l xs) 0 = Some (h1, of_nat n)"
    "dlist h1 l ys" "dom h1 = dom h" "\<forall>a. a \<notin> set (nodes l xs) \<longrightarrow> h1 a = h a"
    using list_sort_pass_run [of h l "[]" xs lt 0] less.prems(1) unfolding ys_def n_def by auto
  have r1: "runs lt ys \<le> n"
    unfolding ys_def n_def by (rule strict_weak_order.lpass_runs [OF swo less.prems(2)])
  have r2: "2 * n \<le> runs lt xs + 1" unfolding n_def by (rule lpass_cnt)
  have r3: "runs lt xs < 2 ^ 32" using runs_le_length [of lt xs] less.prems(3) by simp
  have wn: "(1 :: u32) < of_nat n \<longleftrightarrow> 1 < n"
    using r2 r3 by (simp add: word_less_nat_alt unat_of_nat take_bit_nat_eq_self)
  have stb: "\<forall>k\<in>S. filter (eqv lt k) ys = filter (eqv lt k) xs"
    unfolding ys_def using strict_weak_order.lpass_stable [OF swo less.prems(2)] by blast
  have unf: "list_sort_loop h l lt = (if 1 < n then list_sort_loop h1 l lt else Some h1)"
    using h1(1) wn by (subst list_sort_loop.simps) (simp add: list_begin_run [OF less.prems(1)])
  show ?case
  proof (cases "1 < n")
    case False
    then have "successively (\<lambda>x y. \<not> lt y x) ys" using r1 by (intro sorted_runs) simp
    then show ?thesis using False unf h1 ms stb by auto
  next
    case True
    then have "runs lt ys < runs lt xs" using r1 r2 by simp
    then show ?thesis
      using less.hyps [of ys h1] h1 less.prems True unf ms stb st len by auto
  qed
qed

lemma list_sort_run:
  assumes swo: "strict_weak_order lt S" and d: "dlist h l xs" and s: "set xs \<subseteq> S"
    and len: "length xs < 2 ^ 32"
  shows "\<exists>h' ys. list_sort h l lt = Some h' \<and> dlist h' l ys \<and> mset ys = mset xs \<and>
     sorted_wrt (\<lambda>x y. \<not> lt y x) ys \<and> (\<forall>k\<in>S. filter (eqv lt k) ys = filter (eqv lt k) xs) \<and>
     dom h' = dom h \<and> (\<forall>a. a \<notin> set (nodes l xs) \<longrightarrow> h' a = h a)"
proof -
  from list_sort_loop_run [OF swo d s len] obtain h' ys where
    h': "list_sort_loop h l lt = Some h'" "dlist h' l ys" "mset ys = mset xs"
     "successively (\<lambda>x y. \<not> lt y x) ys" "\<forall>k\<in>S. filter (eqv lt k) ys = filter (eqv lt k) xs"
     "dom h' = dom h" "\<forall>a. a \<notin> set (nodes l xs) \<longrightarrow> h' a = h a" by blast
  have "is_sorted h' (succ_of l ys) (tail_of l) lt = Some True"
    using is_sorted_run [of h' l "[]" ys "[]" lt] h'(2,4) by simp
  then have "list_sort h l lt = Some h'"
    using h'(1,2) by (simp add: list_sort_def dlist_not_NULL [OF d] list_begin_run)
  moreover have "set ys \<subseteq> S" using h'(3) s by (metis set_mset_mset)
  ultimately show ?thesis
    using h' strict_weak_order.sorted_neighbours [OF swo, of ys] by blast
qed

section \<open>Ordered insertion\<close>

lemma list_insert_ordered_loop_run:
  "dlist h l (A @ B) \<Longrightarrow>
     list_insert_ordered_loop h l elem lt (succ_of l B) =
       Some (succ_of l (dropWhile (\<lambda>e. \<not> lt elem e) B))"
proof (induction B arbitrary: A)
  case Nil
  then show ?case by (simp add: list_insert_ordered_loop.simps dlist_list_end)
next
  case (Cons b B)
  have d: "dlist h l ((A @ [b]) @ B)" using Cons.prems by simp
  have "b \<noteq> tail_of l" using Cons.prems by (auto simp: dlist_def)
  then show ?case
    using Cons.IH [OF d] list_next_elem [OF Cons.prems] dlist_list_end [OF Cons.prems]
    by (subst list_insert_ordered_loop.simps) simp
qed

lemma list_insert_ordered_run:
  assumes d: "dlist h l xs" and e: "elem \<noteq> NULL" "elem \<in> dom h" "elem \<notin> set (nodes l xs)"
  shows "\<exists>h'. list_insert_ordered h l elem lt = Some h' \<and>
     dlist h' l (takeWhile (\<lambda>e. \<not> lt elem e) xs @ elem # dropWhile (\<lambda>e. \<not> lt elem e) xs) \<and>
     dom h' = dom h \<and> (\<forall>a. a \<notin> set (nodes l (elem # xs)) \<longrightarrow> h' a = h a)"
proof -
  let ?P = "\<lambda>e. \<not> lt elem e"
  have d2: "dlist h l (takeWhile ?P xs @ dropWhile ?P xs)" using d by simp
  have "list_insert_ordered_loop h l elem lt (succ_of l xs) = Some (succ_of l (dropWhile ?P xs))"
    using list_insert_ordered_loop_run [of h l "[]" xs] d by simp
  then have "list_insert_ordered h l elem lt = list_insert h (succ_of l (dropWhile ?P xs)) elem"
    using e d by (auto simp: list_insert_ordered_def list_begin_run dlist_not_NULL)
  moreover have "elem \<notin> set (nodes l (takeWhile ?P xs @ dropWhile ?P xs))" using e(3) by simp
  moreover have "set (nodes l (takeWhile ?P xs @ elem # dropWhile ?P xs)) = set (nodes l (elem # xs))"
  proof -
    have "set xs = set (takeWhile ?P xs) \<union> set (dropWhile ?P xs)"
      by (metis set_append takeWhile_dropWhile_id)
    then show ?thesis by auto
  qed
  ultimately show ?thesis using list_insert_run [OF d2 _ e(1,2)] by simp
qed

context strict_weak_order
begin

lemma insert_ordered_sorted:
  assumes "sorted_wrt (\<lambda>x y. \<not> less y x) xs" "set xs \<subseteq> A" "e \<in> A"
  shows "sorted_wrt (\<lambda>x y. \<not> less y x)
     (takeWhile (\<lambda>y. \<not> less e y) xs @ e # dropWhile (\<lambda>y. \<not> less e y) xs)"
  using assms
proof (induction xs)
  case (Cons x xs)
  show ?case
  proof (cases "less e x")
    case True
    then have "\<forall>y\<in>set xs. \<not> less y e"
      using Cons.prems less_le_trans [of e x] asym [of e] by auto
    moreover have "\<not> less x e" using True Cons.prems asym by auto
    ultimately show ?thesis using True Cons.prems by auto
  next
    case False
    then have "\<forall>y\<in>set (takeWhile (\<lambda>y. \<not> less e y) xs @ e # dropWhile (\<lambda>y. \<not> less e y) xs). \<not> less y x"
      using Cons.prems by (auto dest: set_takeWhileD set_dropWhileD)
    then show ?thesis using False Cons by auto
  qed
qed simp

end


section \<open>Extrema\<close>

lemma list_max_loop_run:
  "dlist h l (A @ B) \<Longrightarrow>
     list_max_loop h l lt m (succ_of l B) = Some (foldl (\<lambda>m e. if lt m e then e else m) m B)"
proof (induction B arbitrary: A m)
  case Nil
  then show ?case by (simp add: list_max_loop.simps dlist_list_end)
next
  case (Cons b B)
  have d: "dlist h l ((A @ [b]) @ B)" using Cons.prems by simp
  have "b \<noteq> tail_of l" using Cons.prems by (auto simp: dlist_def)
  then show ?case
    using Cons.IH [OF d] list_next_elem [OF Cons.prems] dlist_list_end [OF Cons.prems]
    by (subst list_max_loop.simps) simp
qed

lemma list_min_loop_run:
  "dlist h l (A @ B) \<Longrightarrow>
     list_min_loop h l lt m (succ_of l B) = Some (foldl (\<lambda>m e. if lt e m then e else m) m B)"
proof (induction B arbitrary: A m)
  case Nil
  then show ?case by (simp add: list_min_loop.simps dlist_list_end)
next
  case (Cons b B)
  have d: "dlist h l ((A @ [b]) @ B)" using Cons.prems by simp
  have "b \<noteq> tail_of l" using Cons.prems by (auto simp: dlist_def)
  then show ?case
    using Cons.IH [OF d] list_next_elem [OF Cons.prems] dlist_list_end [OF Cons.prems]
    by (subst list_min_loop.simps) simp
qed

text \<open>The fold keeps the first of the elements that no other one exceeds.\<close>

context strict_weak_order
begin

lemma foldl_first_max:
  "set (m # xs) \<subseteq> A \<Longrightarrow>
   \<exists>P Q. m # xs = P @ foldl (\<lambda>m e. if less m e then e else m) m xs # Q \<and>
     (\<forall>p\<in>set P. less p (foldl (\<lambda>m e. if less m e then e else m) m xs)) \<and>
     (\<forall>q\<in>set (m # xs). \<not> less (foldl (\<lambda>m e. if less m e then e else m) m xs) q)"
proof (induction xs rule: rev_induct)
  case Nil
  then show ?case using irrefl by (intro exI [of _ "[]"] exI [of _ "[]"]) auto
next
  case (snoc x xs)
  let ?r = "foldl (\<lambda>m e. if less m e then e else m) m xs"
  have "set (m # xs) \<subseteq> A" using snoc.prems by simp
  from snoc.IH [OF this] obtain P Q where
    r: "m # xs = P @ ?r # Q" "\<forall>p\<in>set P. less p ?r" "\<forall>q\<in>set (m # xs). \<not> less ?r q"
    by blast
  have "?r \<in> set (m # xs)" by (subst r(1)) simp
  then have inA: "?r \<in> A" "x \<in> A" "\<forall>q\<in>set (m # xs). q \<in> A"
    using snoc.prems by auto
  show ?case
  proof (cases "less ?r x")
    case True
    then have "\<forall>q\<in>set (m # xs). less q x" using r(3) inA negtrans [of ?r _ x] by blast
    moreover have "\<not> less x x" using irrefl inA(2) by blast
    ultimately show ?thesis using True inA asym
      by - (rule exI [of _ "m # xs"], rule exI [of _ "[]"], auto)
  next
    case False
    moreover have "m # xs @ [x] = P @ ?r # Q @ [x]" using arg_cong [OF r(1), of "\<lambda>l. l @ [x]"] by simp
    moreover have "\<not> less ?r m" "\<forall>q\<in>set xs. \<not> less ?r q" using r(3) by simp_all
    ultimately show ?thesis using r(2)
      by - (rule exI [of _ P], rule exI [of _ "Q @ [x]"], simp)
  qed
qed

end

lemma strict_weak_order_dual: "strict_weak_order lt S \<Longrightarrow> strict_weak_order (\<lambda>a b. lt b a) S"
  unfolding strict_weak_order_def by blast

lemma list_max_run:
  assumes swo: "strict_weak_order lt S" and d: "dlist h l xs" and xs: "set xs \<subseteq> S" "xs \<noteq> []"
  shows "\<exists>m P Q. list_max h l lt = Some m \<and> xs = P @ m # Q \<and> (\<forall>p\<in>set P. lt p m) \<and>
     (\<forall>q\<in>set xs. \<not> lt m q)"
proof -
  from xs obtain x ys where c: "xs = x # ys" by (cases xs) auto
  have d1: "dlist h l ([] @ x # ys)" "dlist h l ([x] @ ys)" using d c by simp_all
  have "x \<noteq> tail_of l" using d by (auto simp: dlist_def c)
  then have "list_max h l lt = Some (foldl (\<lambda>m e. if lt m e then e else m) x ys)"
    using list_max_loop_run [OF d1(2)] list_next_elem [OF d1(1)] dlist_list_end [OF d]
    by (simp add: list_max_def list_begin_run [OF d] c)
  then show ?thesis
    using strict_weak_order.foldl_first_max [OF swo, of x ys] xs(1) unfolding c by blast
qed

lemma list_min_run:
  assumes swo: "strict_weak_order lt S" and d: "dlist h l xs" and xs: "set xs \<subseteq> S" "xs \<noteq> []"
  shows "\<exists>m P Q. list_min h l lt = Some m \<and> xs = P @ m # Q \<and> (\<forall>p\<in>set P. lt m p) \<and>
     (\<forall>q\<in>set xs. \<not> lt q m)"
proof -
  from xs obtain x ys where c: "xs = x # ys" by (cases xs) auto
  have d1: "dlist h l ([] @ x # ys)" "dlist h l ([x] @ ys)" using d c by simp_all
  have "x \<noteq> tail_of l" using d by (auto simp: dlist_def c)
  then have "list_min h l lt = Some (foldl (\<lambda>m e. if lt e m then e else m) x ys)"
    using list_min_loop_run [OF d1(2)] list_next_elem [OF d1(1)] dlist_list_end [OF d]
    by (simp add: list_min_def list_begin_run [OF d] c)
  then show ?thesis
    using strict_weak_order.foldl_first_max [OF strict_weak_order_dual [OF swo], of x ys] xs(1)
    unfolding c by blast
qed


section \<open>The index of a thread\<close>

interpretation tid_order: strict_weak_order "\<lambda>a b. comparator tids a b aux" "{a. a \<noteq> NULL}"
  for tids aux
  by unfold_locales (auto simp: comparator_def split: if_splits)

abbreviation elem_tid :: "(addr \<Rightarrow> int) \<Rightarrow> addr \<Rightarrow> int" where
  "elem_tid tids e \<equiv> tids (list_entry e allelem_off)"

lemma get_sorted_index_loop_run:
  "dlist h l (A @ B) \<Longrightarrow>
     get_sorted_index_loop h tids l target (succ_of l B) i =
       Some (if tids target \<in> elem_tid tids ` set B
             then i + int (length (takeWhile (\<lambda>e. elem_tid tids e \<noteq> tids target) B)) else - 1)"
proof (induction B arbitrary: A i)
  case Nil
  then show ?case by (simp add: get_sorted_index_loop.simps dlist_list_end)
next
  case (Cons b B)
  have d: "dlist h l ((A @ [b]) @ B)" using Cons.prems by simp
  have "tail_of l \<noteq> b" using Cons.prems by (auto simp: dlist_def)
  then show ?case
    using Cons.IH [OF d, of "i + 1"] list_next_elem [OF Cons.prems] dlist_list_end [OF Cons.prems]
    by (subst get_sorted_index_loop.simps) auto
qed

lemma length_takeWhile_sorted:
  fixes f :: "'a \<Rightarrow> int"
  assumes "sorted_wrt (\<lambda>x y. f x \<le> f y) ys" "k \<in> f ` set ys"
  shows "length (takeWhile (\<lambda>e. f e \<noteq> k) ys) = length (filter (\<lambda>e. f e < k) ys)"
  using assms
proof (induction ys)
  case (Cons y ys)
  show ?case
  proof (cases "f y = k")
    case True
    then have "filter (\<lambda>e. f e < k) ys = []" using Cons.prems by (auto simp: filter_empty_conv)
    with True show ?thesis by simp
  next
    case False
    then have "k \<in> f ` set ys" using Cons.prems by auto
    moreover from this have "f y < k" using Cons.prems False by auto
    ultimately show ?thesis using Cons by simp
  qed
qed simp

lemma get_sorted_index_run:
  assumes d: "dlist h l xs" and len: "length xs < 2 ^ 31" and t: "target \<noteq> NULL"
    and lo: "\<forall>e\<in>set xs. allelem_off < e"
  shows "\<exists>h' ys. get_sorted_index h tids l target =
       Some (if tids target \<in> elem_tid tids ` set xs
             then int (length (filter (\<lambda>e. elem_tid tids e < tids target) xs)) else - 1, h') \<and>
     dlist h' l ys \<and> mset ys = mset xs \<and> sorted_wrt (\<lambda>x y. elem_tid tids x \<le> elem_tid tids y) ys"
proof -
  define aux where "aux = list_entry (succ_of l xs) allelem_off"
  define lt where "lt = (\<lambda>a b. comparator tids a b aux)"
  have "set xs \<subseteq> {a. a \<noteq> NULL}" using lo by auto
  then obtain h' ys where h': "list_sort h l lt = Some h'" "dlist h' l ys" "mset ys = mset xs"
      "sorted_wrt (\<lambda>x y. \<not> lt y x) ys"
    using list_sort_run [OF tid_order.strict_weak_order_axioms d, of tids aux] len
    unfolding lt_def by auto
  have st: "set ys = set xs" using h'(3) by (metis set_mset_mset)
  have "aux \<noteq> NULL" if "x \<in> set xs" for x
    using that lo by (cases xs) (auto simp: aux_def list_entry_def)
  then have sorted: "sorted_wrt (\<lambda>x y. elem_tid tids x \<le> elem_tid tids y) ys"
    using lo st by (intro sorted_wrt_mono_rel [OF _ h'(4)]) (auto simp: lt_def comparator_def split: if_splits)
  have "length (filter P ys) = length (filter P xs)" for P
    using h'(3) by (metis mset_filter size_mset)
  with sorted have "get_sorted_index_loop h' tids l target (succ_of l ys) 0 =
      Some (if tids target \<in> elem_tid tids ` set xs
             then int (length (filter (\<lambda>e. elem_tid tids e < tids target) xs)) else - 1)"
    using get_sorted_index_loop_run [of h' l "[]" ys tids target 0] h'(2) st
    by (simp add: length_takeWhile_sorted)
  then have "get_sorted_index h tids l target =
      Some (if tids target \<in> elem_tid tids ` set xs
             then int (length (filter (\<lambda>e. elem_tid tids e < tids target) xs)) else - 1, h')"
    using h'(1,2) t unfolding lt_def aux_def
    by (simp add: get_sorted_index_def dlist_not_NULL [OF d] list_begin_run [OF d] list_begin_run)
  with h'(2,3) sorted show ?thesis by blast
qed

section \<open>Removing duplicates\<close>

fun lunique :: "('a \<Rightarrow> 'a \<Rightarrow> bool) \<Rightarrow> 'a list \<Rightarrow> 'a list \<times> 'a list" where
  "lunique lt (x # y # ys) =
     (if eqv lt x y then apsnd ((#) y) (lunique lt (x # ys)) else apfst ((#) x) (lunique lt (y # ys)))"
| "lunique lt xs = (xs, [])"

lemma list_unique_loop_run:
  "dlist h l (A @ xs) \<Longrightarrow> xs \<noteq> [] \<Longrightarrow> dlist h m zs \<Longrightarrow>
   set (nodes l (A @ xs)) \<inter> set (nodes m zs) = {} \<Longrightarrow>
   \<exists>h'. list_unique_loop h l m lt (hd xs) = Some h' \<and> dlist h' l (A @ fst (lunique lt xs)) \<and>
     dlist h' m (zs @ snd (lunique lt xs))"
proof (induction lt xs arbitrary: A h zs rule: lunique.induct)
  case (1 lt x y ys)
  note d = 1(3) and dm = 1(5) and dj = 1(6)
  have y: "y \<noteq> tail_of l" "y \<noteq> NULL" "y \<in> dom h" "m \<noteq> NULL" "y \<notin> set (nodes m zs)"
    "y \<notin> set (nodes l (A @ x # ys))"
    using d dm dj by (auto simp: dlist_def)
  have n: "list_next h x = Some y" using list_next_elem [of h l A x] d by simp
  show ?case
  proof (cases "eqv lt x y")
    case False
    have "dlist h l ((A @ [x]) @ y # ys)" "set (nodes l ((A @ [x]) @ y # ys)) \<inter> set (nodes m zs) = {}"
      using d dj by auto
    from 1(2) [OF False this(1) _ dm this(2)] show ?thesis
      using False n y dlist_list_end [OF d]
      by (subst list_unique_loop.simps) (auto simp: eqv_def)
  next
    case True
    have "dlist h l ((A @ [x]) @ y # ys)" using d by simp
    from list_remove_run [OF this] obtain h1 where h1: "list_remove h y = Some (succ_of l ys, h1)"
      "dlist h1 l (A @ x # ys)" "dom h1 = dom h" "\<forall>a. a \<notin> set (nodes l (A @ x # ys)) \<longrightarrow> h1 a = h a"
      by auto
    have "set (nodes l (A @ x # ys)) \<inter> set (nodes m zs) = {}" using dj by auto
    then have "\<forall>a\<in>set (nodes m zs). h1 a = h a" using h1(4) by (metis disjoint_iff)
    then have "dlist h1 m zs" by (rule dlist_frame [OF dm])
    from list_push_back_run [OF this y(5,2)] y(3) obtain h2 where h2: "list_push_back h1 m y = Some h2"
      "dlist h2 m (zs @ [y])" "\<forall>a. a \<notin> set (nodes m (zs @ [y])) \<longrightarrow> h2 a = h1 a"
      by (auto simp: h1(3))
    have dj2: "set (nodes l (A @ x # ys)) \<inter> set (nodes m (zs @ [y])) = {}" using dj y(6) by auto
    have "\<forall>a\<in>set (nodes l (A @ x # ys)). h2 a = h1 a" using h2(3) dj2 by (metis disjoint_iff)
    then have "dlist h2 l (A @ x # ys)" by (rule dlist_frame [OF h1(2)])
    from 1(1) [OF True this _ h2(2) dj2] show ?thesis
      using True n y h1(1) h2(1) dlist_list_end [OF d]
      by (subst list_unique_loop.simps) (auto simp: eqv_def)
  qed
qed (auto simp: list_unique_loop.simps list_next_elem dlist_list_end)

lemma list_unique_run:
  assumes "dlist h l xs" "dlist h m zs" "set (nodes l xs) \<inter> set (nodes m zs) = {}"
  shows "\<exists>h'. list_unique h l m lt = Some h' \<and> dlist h' l (fst (lunique lt xs)) \<and>
     dlist h' m (zs @ snd (lunique lt xs))"
proof (cases "xs = []")
  case True
  then show ?thesis using assms by (simp add: list_unique_def list_empty_run dlist_not_NULL)
next
  case False
  then show ?thesis
    using list_unique_loop_run [of h l "[]" xs m zs lt] assms
    by (simp add: list_unique_def list_empty_run dlist_not_NULL list_begin_run)
qed

lemma lunique_ne [simp]: "xs \<noteq> [] \<Longrightarrow> fst (lunique lt xs) \<noteq> [] \<and> hd (fst (lunique lt xs)) = hd xs"
  by (induction lt xs rule: lunique.induct) auto

text \<open>No two neighbours of what is kept are equal, and nothing is lost.\<close>

lemma lunique_neighbours: "successively (\<lambda>x y. \<not> eqv lt x y) (fst (lunique lt xs))"
  by (induction lt xs rule: lunique.induct) (auto simp: successively_Cons)

lemma mset_lunique: "mset (fst (lunique lt xs)) + mset (snd (lunique lt xs)) = mset xs"
  by (induction lt xs rule: lunique.induct) (auto simp: apfst_def apsnd_def map_prod_def split_beta)


section \<open>Properties\<close>

text \<open>A heap with one list at address 8 holding the elements 100, 200 and 300, and an empty list at 400.\<close>

definition demo_heap :: lheap where
  "demo_heap = [8 \<mapsto> \<lparr>le_prev = 0, le_next = 100\<rparr>, 100 \<mapsto> \<lparr>le_prev = 8, le_next = 200\<rparr>,
     200 \<mapsto> \<lparr>le_prev = 100, le_next = 300\<rparr>, 300 \<mapsto> \<lparr>le_prev = 200, le_next = 16\<rparr>,
     16 \<mapsto> \<lparr>le_prev = 300, le_next = 0\<rparr>, 400 \<mapsto> \<lparr>le_prev = 0, le_next = 408\<rparr>,
     408 \<mapsto> \<lparr>le_prev = 400, le_next = 0\<rparr>]"

lemma demo_heap_dlist: "dlist demo_heap 8 [100, 200, 300]" "dlist demo_heap 400 []"
  by (simp_all add: dlist_def demo_heap_def chain_def nxt_def prv_def)

text \<open>
  C1.  \<open>list_sort\<close> with a strict weak order always returns, leaves a well-formed list with the same
  elements, in order and with equivalent elements in their original order, and changes
  no memory outside the list.
\<close>

theorem list_sort_correct:
  assumes "strict_weak_order lt S" "dlist h l xs" "set xs \<subseteq> S" "length xs < 2 ^ 32"
  shows "\<exists>h' ys. list_sort h l lt = Some h' \<and> dlist h' l ys \<and> mset ys = mset xs \<and>
     sorted_wrt (\<lambda>x y. \<not> lt y x) ys \<and> (\<forall>k\<in>S. filter (eqv lt k) ys = filter (eqv lt k) xs) \<and>
     dom h' = dom h \<and> (\<forall>a. a \<notin> set (nodes l xs) \<longrightarrow> h' a = h a)"
  by (rule list_sort_run [OF assms])

theorem list_sort_correct_witness:
  "\<exists>h' ys. list_sort demo_heap 8 (\<lambda>a b. b < a) = Some h' \<and> dlist h' 8 ys \<and>
     mset ys = {#100, 200, 300#} \<and> sorted_wrt (\<lambda>x y. y \<le> x) ys"
proof -
  have "strict_weak_order (\<lambda>a b :: nat. b < a) UNIV" by unfold_locales auto
  from list_sort_correct [OF this demo_heap_dlist(1)] show ?thesis by (auto simp: not_less)
qed

text \<open>
  C2.  \<open>get_sorted_index\<close> returns how many threads of the list have a smaller thread id than the
  target, or -1 when no thread of the list has the target's id, and leaves the list sorted by id.
\<close>

theorem get_sorted_index_correct:
  assumes "dlist h l xs" "length xs < 2 ^ 31" "target \<noteq> NULL" "\<forall>e\<in>set xs. allelem_off < e"
  shows "\<exists>h' ys. get_sorted_index h tids l target =
       Some (if tids target \<in> elem_tid tids ` set xs
             then int (length (filter (\<lambda>e. elem_tid tids e < tids target) xs)) else - 1, h') \<and>
     dlist h' l ys \<and> mset ys = mset xs \<and> sorted_wrt (\<lambda>x y. elem_tid tids x \<le> elem_tid tids y) ys"
  by (rule get_sorted_index_run [OF assms])

theorem get_sorted_index_correct_witness:
  "\<exists>h'. get_sorted_index demo_heap (\<lambda>a. 1000 - int a) 8 168 = Some (1, h')"
  using get_sorted_index_correct [OF demo_heap_dlist(1), of 168 "\<lambda>a. 1000 - int a"]
  by (auto simp: list_entry_def)

text \<open>
  C3.  \<open>list_insert\<close> puts a fresh element at the position asked for, whichever position that is,
  and removing it again gives back the old list and the element that followed it.
\<close>

theorem list_insert_remove:
  assumes "dlist h l (A @ B)" "e \<notin> set (nodes l (A @ B))" "e \<noteq> NULL" "e \<in> dom h"
  shows "\<exists>h1 h2. list_insert h (succ_of l B) e = Some h1 \<and> dlist h1 l (A @ e # B) \<and>
     list_remove h1 e = Some (succ_of l B, h2) \<and> dlist h2 l (A @ B) \<and>
     (\<forall>a. a \<notin> set (nodes l (A @ e # B)) \<longrightarrow> h2 a = h a)"
proof -
  obtain h1 where h1: "list_insert h (succ_of l B) e = Some h1" "dlist h1 l (A @ e # B)"
    "\<forall>a. a \<notin> set (nodes l (A @ e # B)) \<longrightarrow> h1 a = h a"
    using list_insert_run [OF assms] by blast
  obtain h2 where h2: "list_remove h1 e = Some (succ_of l B, h2)" "dlist h2 l (A @ B)"
    "\<forall>a. a \<notin> set (nodes l (A @ B)) \<longrightarrow> h2 a = h1 a"
    using list_remove_run [OF h1(2)] by blast
  have "set (nodes l (A @ B)) \<subseteq> set (nodes l (A @ e # B))" by auto
  then have "\<forall>a. a \<notin> set (nodes l (A @ e # B)) \<longrightarrow> h2 a = h a" using h1(3) h2(3) by (metis subsetD)
  with h1 h2 show ?thesis by blast
qed

theorem list_insert_remove_witness:
  "\<exists>h1 h2. list_insert (demo_heap(500 \<mapsto> \<lparr>le_prev = 1, le_next = 2\<rparr>)) 200 500 = Some h1 \<and>
     dlist h1 8 [100, 500, 200, 300] \<and> list_remove h1 500 = Some (200, h2) \<and> dlist h2 8 [100, 200, 300]"
proof -
  have "dlist (demo_heap(500 \<mapsto> \<lparr>le_prev = 1, le_next = 2\<rparr>)) 8 ([100] @ [200, 300])"
    by (simp add: dlist_def demo_heap_def chain_def nxt_def prv_def)
  from list_insert_remove [OF this, of 500] show ?thesis by auto
qed

text \<open>
  \<open>list_reverse\<close> leaves a well-formed list with the elements in the opposite order.
\<close>

theorem list_reverse_correct:
  assumes "dlist h l xs"
  shows "\<exists>h'. list_reverse h l = Some h' \<and> dlist h' l (rev xs) \<and> dom h' = dom h \<and>
     (\<forall>a. a \<notin> set (nodes l xs) \<longrightarrow> h' a = h a)"
  by (rule list_reverse_run [OF assms])

theorem list_reverse_correct_witness:
  "\<exists>h'. list_reverse demo_heap 8 = Some h' \<and> dlist h' 8 [300, 200, 100] \<and> h' 408 = demo_heap 408"
  using list_reverse_correct [OF demo_heap_dlist(1)] by auto



end
