(* ===== verification/Bitmap.thy ===== *)
theory Bitmap
  imports Prelude
begin

text \<open>
  The bitmaps of \<open>lib/kernel/bitmap.c\<close>: an array of 32-bit elements that simulates an array
  of bits.  Sizes and indices are 32-bit \<open>size_t\<close> values, with the wrap-around of the C
  arithmetic.  The operations are shown to act on single bits of the abstract bit
  array \<open>bit_at\<close>; scanning is first fit.  The pair \<open>bitmap_scan_and_flip\<close>,
  \<open>bitmap_set_multiple\<close> implements the region allocator contract the page allocator and the
  free map of the file system rely on.
\<close>

section \<open>The code\<close>

record bitmap =
  bit_cnt :: u32
  bits :: "u32 list"

definition elem_idx :: "u32 \<Rightarrow> u32" where
  "elem_idx bit_idx = bit_idx div 32"

definition bit_mask :: "u32 \<Rightarrow> u32" where
  "bit_mask bit_idx = push_bit (unat (bit_idx mod 32)) 1"

definition elem_cnt :: "u32 \<Rightarrow> u32" where
  "elem_cnt n = (n + 32 - 1) div 32"

definition byte_cnt :: "u32 \<Rightarrow> u32" where
  "byte_cnt n = 4 * elem_cnt n"

definition last_mask :: "bitmap \<Rightarrow> u32" where
  "last_mask b = (let last_bits = bit_cnt b mod 32 in
     if last_bits \<noteq> 0 then push_bit (unat last_bits) 1 - 1 else - 1)"

abbreviation BITMAP_ERROR :: u32 where
  "BITMAP_ERROR \<equiv> - 1"

definition bitmap_size :: "bitmap \<Rightarrow> u32" where
  "bitmap_size b = bit_cnt b"

definition bitmap_mark :: "bitmap \<Rightarrow> u32 \<Rightarrow> bitmap option" where
  "bitmap_mark b bit_idx = do {
     let idx = unat (elem_idx bit_idx); let mask = bit_mask bit_idx;
     w \<leftarrow> rd (bits b) idx;
     ws \<leftarrow> wr (bits b) idx (w OR mask);
     Some (b\<lparr>bits := ws\<rparr>)
   }"

definition bitmap_reset :: "bitmap \<Rightarrow> u32 \<Rightarrow> bitmap option" where
  "bitmap_reset b bit_idx = do {
     let idx = unat (elem_idx bit_idx); let mask = bit_mask bit_idx;
     w \<leftarrow> rd (bits b) idx;
     ws \<leftarrow> wr (bits b) idx (w AND NOT mask);
     Some (b\<lparr>bits := ws\<rparr>)
   }"

definition bitmap_flip :: "bitmap \<Rightarrow> u32 \<Rightarrow> bitmap option" where
  "bitmap_flip b bit_idx = do {
     let idx = unat (elem_idx bit_idx); let mask = bit_mask bit_idx;
     w \<leftarrow> rd (bits b) idx;
     ws \<leftarrow> wr (bits b) idx (w XOR mask);
     Some (b\<lparr>bits := ws\<rparr>)
   }"

definition bitmap_set :: "bitmap \<Rightarrow> u32 \<Rightarrow> bool \<Rightarrow> bitmap option" where
  "bitmap_set b idx value = do {
     ASSERT (idx < bit_cnt b);
     if value then bitmap_mark b idx else bitmap_reset b idx
   }"

definition bitmap_test :: "bitmap \<Rightarrow> u32 \<Rightarrow> bool option" where
  "bitmap_test b idx = do {
     ASSERT (idx < bit_cnt b);
     w \<leftarrow> rd (bits b) (unat (elem_idx idx));
     Some (w AND bit_mask idx \<noteq> 0)
   }"

definition bitmap_set_multiple :: "bitmap \<Rightarrow> u32 \<Rightarrow> u32 \<Rightarrow> bool \<Rightarrow> bitmap option" where
  "bitmap_set_multiple b start cnt value = do {
     ASSERT (start \<le> bit_cnt b);
     ASSERT (start + cnt \<le> bit_cnt b);
     for_range 0 (unat cnt) (\<lambda>i b. bitmap_set b (start + of_nat i) value) b
   }"

definition bitmap_set_all :: "bitmap \<Rightarrow> bool \<Rightarrow> bitmap option" where
  "bitmap_set_all b value = bitmap_set_multiple b 0 (bitmap_size b) value"

definition bitmap_count :: "bitmap \<Rightarrow> u32 \<Rightarrow> u32 \<Rightarrow> bool \<Rightarrow> u32 option" where
  "bitmap_count b start cnt value = do {
     ASSERT (start \<le> bit_cnt b);
     ASSERT (start + cnt \<le> bit_cnt b);
     for_range 0 (unat cnt) (\<lambda>i value_cnt. do {
       t \<leftarrow> bitmap_test b (start + of_nat i);
       Some (if t = value then value_cnt + 1 else value_cnt) }) 0
   }"

function bitmap_contains_loop :: "bitmap \<Rightarrow> u32 \<Rightarrow> u32 \<Rightarrow> bool \<Rightarrow> nat \<Rightarrow> bool option" where
  "bitmap_contains_loop b start cnt value i =
     (if i < unat cnt then do {
        t \<leftarrow> bitmap_test b (start + of_nat i);
        if t = value then Some True else bitmap_contains_loop b start cnt value (Suc i)
      } else Some False)"
  by pat_completeness auto
termination by (relation "measure (\<lambda>(b, start, cnt, value, i). unat cnt - i)") auto

definition bitmap_contains :: "bitmap \<Rightarrow> u32 \<Rightarrow> u32 \<Rightarrow> bool \<Rightarrow> bool option" where
  "bitmap_contains b start cnt value = do {
     ASSERT (start \<le> bit_cnt b);
     ASSERT (start + cnt \<le> bit_cnt b);
     bitmap_contains_loop b start cnt value 0
   }"

definition bitmap_any :: "bitmap \<Rightarrow> u32 \<Rightarrow> u32 \<Rightarrow> bool option" where
  "bitmap_any b start cnt = bitmap_contains b start cnt True"

definition bitmap_none :: "bitmap \<Rightarrow> u32 \<Rightarrow> u32 \<Rightarrow> bool option" where
  "bitmap_none b start cnt = map_option Not (bitmap_contains b start cnt True)"

definition bitmap_all :: "bitmap \<Rightarrow> u32 \<Rightarrow> u32 \<Rightarrow> bool option" where
  "bitmap_all b start cnt = map_option Not (bitmap_contains b start cnt False)"

text \<open>The loop of \<open>bitmap_scan\<close>; the counter cannot wrap, because a scan for no bits returns at once.\<close>

function bitmap_scan_loop :: "bitmap \<Rightarrow> u32 \<Rightarrow> bool \<Rightarrow> nat \<Rightarrow> nat \<Rightarrow> u32 option" where
  "bitmap_scan_loop b cnt value lst i =
     (if i \<le> lst then do {
        c \<leftarrow> bitmap_contains b (of_nat i) cnt (\<not> value);
        if \<not> c then Some (of_nat i) else bitmap_scan_loop b cnt value lst (Suc i)
      } else Some BITMAP_ERROR)"
  by pat_completeness auto
termination by (relation "measure (\<lambda>(b, cnt, value, lst, i). Suc lst - i)") auto

definition bitmap_scan :: "bitmap \<Rightarrow> u32 \<Rightarrow> u32 \<Rightarrow> bool \<Rightarrow> u32 option" where
  "bitmap_scan b start cnt value = do {
     ASSERT (start \<le> bit_cnt b);
     if cnt \<le> bit_cnt b
     then bitmap_scan_loop b cnt value (unat (bit_cnt b - cnt)) (unat start)
     else Some BITMAP_ERROR
   }"

definition bitmap_scan_and_flip :: "bitmap \<Rightarrow> u32 \<Rightarrow> u32 \<Rightarrow> bool \<Rightarrow> (u32 \<times> bitmap) option" where
  "bitmap_scan_and_flip b start cnt value = do {
     idx \<leftarrow> bitmap_scan b start cnt value;
     if idx \<noteq> BITMAP_ERROR then do {
       b \<leftarrow> bitmap_set_multiple b idx cnt (\<not> value);
       Some (idx, b)
     } else Some (idx, b)
   }"

text \<open>
  Creation.  \<open>hdr\<close> tells whether the \<open>malloc\<close> of the header succeeds, and \<open>malloc\<close> gives
  for a request of so many bytes the words found in the new block, if there is one.
\<close>

definition bitmap_create :: "bool \<Rightarrow> (u32 \<Rightarrow> u32 list option) \<Rightarrow> u32 \<Rightarrow> bitmap option option" where
  "bitmap_create hdr malloc n =
     (if hdr then
        case malloc (byte_cnt n) of
          Some ws \<Rightarrow> map_option Some (bitmap_set_all \<lparr>bit_cnt = n, bits = ws\<rparr> False)
        | None \<Rightarrow> if n = 0 then map_option Some (bitmap_set_all \<lparr>bit_cnt = n, bits = []\<rparr> False)
                  else Some None
      else Some None)"

definition bitmap_buf_size :: "u32 \<Rightarrow> u32" where
  "bitmap_buf_size n = 8 + byte_cnt n"

text \<open>The block is given as the words it holds; the first two become the header.\<close>

definition bitmap_create_in_buf :: "u32 \<Rightarrow> u32 list \<Rightarrow> u32 \<Rightarrow> bitmap option" where
  "bitmap_create_in_buf n block block_size = do {
     ASSERT (block_size \<ge> bitmap_buf_size n);
     bitmap_set_all \<lparr>bit_cnt = n, bits = drop 2 block\<rparr> False
   }"

definition bitmap_file_size :: "bitmap \<Rightarrow> u32" where
  "bitmap_file_size b = byte_cnt (bit_cnt b)"

section \<open>Single bits\<close>

definition bit_at :: "bitmap \<Rightarrow> nat \<Rightarrow> bool" where
  "bit_at b i = bit (bits b ! (i div 32)) (i mod 32)"

text \<open>The type invariant: there is an element for every bit.\<close>

definition bitmap_ok :: "bitmap \<Rightarrow> bool" where
  "bitmap_ok b \<longleftrightarrow> unat (bit_cnt b) \<le> 32 * length (bits b)"

lemma unat_elem_idx [simp]: "unat (elem_idx i) = unat i div 32"
  by (simp add: elem_idx_def unat_div)

lemma bit_mask_eq: "bit_mask i = 2 ^ (unat i mod 32)"
  by (simp add: bit_mask_def unat_mod push_bit_eq_mult)

lemma bit_bit_mask: "n < 32 \<Longrightarrow> bit (bit_mask i) n \<longleftrightarrow> n = unat i mod 32"
  by (auto simp: bit_mask_eq bit_exp_iff)

lemma same_bit: "(i :: nat) div 32 = j div 32 \<Longrightarrow> i mod 32 = j mod 32 \<Longrightarrow> i = j"
  by (metis div_mult_mod_eq)

lemma bitmap_mark_run:
  assumes "unat i < 32 * length (bits b)"
  shows "\<exists>b'. bitmap_mark b i = Some b' \<and> bit_cnt b' = bit_cnt b \<and>
     length (bits b') = length (bits b) \<and> bit_at b' = (bit_at b)(unat i := True)"
proof -
  have "unat i div 32 < length (bits b)" using assms by (simp add: less_mult_imp_div_less mult.commute)
  then show ?thesis
    by (auto simp: Let_def bitmap_mark_def bit_at_def fun_eq_iff bit_or_iff bit_bit_mask nth_list_update
        dest: same_bit)
qed

lemma bitmap_reset_run:
  assumes "unat i < 32 * length (bits b)"
  shows "\<exists>b'. bitmap_reset b i = Some b' \<and> bit_cnt b' = bit_cnt b \<and>
     length (bits b') = length (bits b) \<and> bit_at b' = (bit_at b)(unat i := False)"
proof -
  have "unat i div 32 < length (bits b)" using assms by (simp add: less_mult_imp_div_less mult.commute)
  then show ?thesis
    by (auto simp: Let_def bitmap_reset_def bit_at_def fun_eq_iff bit_and_iff bit_not_iff bit_bit_mask nth_list_update
        dest: same_bit)
qed

lemma bitmap_flip_run:
  assumes "unat i < 32 * length (bits b)"
  shows "\<exists>b'. bitmap_flip b i = Some b' \<and> bit_cnt b' = bit_cnt b \<and>
     length (bits b') = length (bits b) \<and> bit_at b' = (bit_at b)(unat i := \<not> bit_at b (unat i))"
proof -
  have "unat i div 32 < length (bits b)" using assms by (simp add: less_mult_imp_div_less mult.commute)
  then show ?thesis
    by (auto simp: Let_def bitmap_flip_def bit_at_def fun_eq_iff bit_xor_iff bit_bit_mask nth_list_update
        dest: same_bit)
qed

lemma bitmap_set_run:
  assumes "bitmap_ok b" "i < bit_cnt b"
  shows "\<exists>b'. bitmap_set b i v = Some b' \<and> bit_cnt b' = bit_cnt b \<and>
     length (bits b') = length (bits b) \<and> bit_at b' = (bit_at b)(unat i := v)"
proof -
  have "unat i < 32 * length (bits b)"
    using assms by (simp add: bitmap_ok_def word_less_nat_alt)
  then show ?thesis
    using bitmap_mark_run [of i b] bitmap_reset_run [of i b] assms(2) by (simp add: bitmap_set_def)
qed

lemma bitmap_test_run:
  assumes "bitmap_ok b" "i < bit_cnt b"
  shows "bitmap_test b i = Some (bit_at b (unat i))"
proof -
  have "unat i < 32 * length (bits b)" using assms by (simp add: bitmap_ok_def word_less_nat_alt)
  then have "unat i div 32 < length (bits b)" by (simp add: less_mult_imp_div_less mult.commute)
  then show ?thesis
    using assms(2) by (simp add: bitmap_test_def bit_at_def bit_mask_eq and_exp_eq_0_iff_not_bit)
qed


section \<open>Ranges of bits\<close>

lemma unat_start_plus:
  "unat (start :: u32) + unat (cnt :: u32) \<le> n \<Longrightarrow> n < 2 ^ 32 \<Longrightarrow> i < unat cnt \<Longrightarrow>
     unat (start + of_nat i) = unat start + i"
  using unat_lt_32 [of cnt] by (simp add: unat_word_ariths unat_of_nat take_bit_nat_eq_self)

lemma range_guard:
  "unat (start :: u32) + unat (cnt :: u32) \<le> unat n \<Longrightarrow> start \<le> n \<and> start + cnt \<le> n"
  using unat_lt_32 [of n] by (simp add: word_le_nat_alt unat_word_ariths)

lemma range_in:
  "unat (start :: u32) + unat (cnt :: u32) \<le> unat n \<Longrightarrow> i < unat cnt \<Longrightarrow>
     unat (start + of_nat i) = unat start + i \<and> start + of_nat i < n"
  using unat_start_plus [of start cnt "unat n" i] unat_lt_32 [of n] by (simp add: word_less_nat_alt)

lemma add_of_nat_diff:
  fixes s b :: u32
  assumes le: "unat s \<le> unat b"
  shows "s + of_nat (unat b - unat s) = b"
proof -
  have "(of_nat (unat b - unat s) :: u32) = of_nat (unat b) - of_nat (unat s)" by (rule of_nat_diff [OF le])
  also have "\<dots> = b - s" by (simp only: of_nat_unat ucast_id)
  finally show ?thesis by simp
qed

lemma bitmap_set_multiple_run:
  assumes ok: "bitmap_ok b" and r: "unat start + unat cnt \<le> unat (bit_cnt b)"
  shows "\<exists>b'. bitmap_set_multiple b start cnt v = Some b' \<and> bit_cnt b' = bit_cnt b \<and>
     length (bits b') = length (bits b) \<and>
     bit_at b' = (\<lambda>j. if unat start \<le> j \<and> j < unat start + unat cnt then v else bit_at b j)"
proof -
  let ?I = "\<lambda>i b'. bit_cnt b' = bit_cnt b \<and> length (bits b') = length (bits b) \<and>
    bit_at b' = (\<lambda>j. if unat start \<le> j \<and> j < unat start + i then v else bit_at b j)"
  have "\<exists>b'. for_range 0 (unat cnt) (\<lambda>i b. bitmap_set b (start + of_nat i) v) b = Some b' \<and> ?I (unat cnt) b'"
  proof (rule for_range_rule)
    fix i b' assume i: "i < unat cnt" and I: "?I i b'"
    then have "bitmap_ok b'" using ok by (simp add: bitmap_ok_def)
    then show "\<exists>b''. bitmap_set b' (start + of_nat i) v = Some b'' \<and> ?I (Suc i) b''"
      using bitmap_set_run [of b' "start + of_nat i" v] range_in [OF r i] I
      by (auto simp: fun_eq_iff less_Suc_eq)
  qed auto
  then show ?thesis using range_guard [OF r] by (simp add: bitmap_set_multiple_def)
qed

lemma bitmap_set_SomeD: "bitmap_set b i v = Some b' \<Longrightarrow> i < bit_cnt b \<and> bit_cnt b' = bit_cnt b"
  by (auto simp: bitmap_set_def bitmap_mark_def bitmap_reset_def Let_def bind_eq_Some_conv split: if_splits)

lemma for_range_visits:
  assumes "for_range lo hi f s = Some s'" "I s" "\<And>i s s'. I s \<Longrightarrow> f i s = Some s' \<Longrightarrow> I s'"
    and "lo \<le> i" "i < hi"
  shows "\<exists>t t'. I t \<and> f i t = Some t'"
  using assms
proof (induction "hi - lo" arbitrary: lo s)
  case (Suc n)
  then have l: "lo < hi" by simp
  then obtain t where t: "f lo s = Some t" "for_range (Suc lo) hi f t = Some s'"
    using Suc.prems(1) by (auto simp: for_range_step bind_eq_Some_conv)
  then have It: "I t" using Suc.prems(2,3) by blast
  show ?case
  proof (cases "i = lo")
    case True
    then show ?thesis using t(1) Suc.prems(2) by blast
  next
    case False
    have "n = hi - Suc lo" "Suc lo \<le> i" using Suc.hyps(2) Suc.prems(4) False by auto
    then show ?thesis using Suc.hyps(1) [of "Suc lo" t] t(2) It Suc.prems(3,5) by blast
  qed
qed simp

text \<open>The guards of \<open>bitmap_set_multiple\<close> wrap around, but a range that leaves the bitmap still panics.\<close>

lemma bitmap_set_multiple_defined:
  assumes "bitmap_ok b"
  shows "bitmap_set_multiple b start cnt v \<noteq> None \<longleftrightarrow> unat start + unat cnt \<le> unat (bit_cnt b)"
proof
  assume "bitmap_set_multiple b start cnt v \<noteq> None"
  then obtain b' where st: "start \<le> bit_cnt b"
    and l: "for_range 0 (unat cnt) (\<lambda>i b. bitmap_set b (start + of_nat i) v) b = Some b'"
    by (auto simp: bitmap_set_multiple_def)
  show "unat start + unat cnt \<le> unat (bit_cnt b)"
  proof (rule ccontr)
    assume *: "\<not> ?thesis"
    define i where "i = unat (bit_cnt b) - unat start"
    have le: "unat start \<le> unat (bit_cnt b)" using st unfolding word_le_nat_alt .
    have i: "i < unat cnt" using * le unfolding i_def by arith
    have e: "start + of_nat i = bit_cnt b" unfolding i_def by (rule add_of_nat_diff [OF le])
    have "\<exists>t t'. bit_cnt t = bit_cnt b \<and> bitmap_set t (start + of_nat i) v = Some t'"
      by (rule for_range_visits [OF l, where I = "\<lambda>t. bit_cnt t = bit_cnt b"])
        (simp_all add: i bitmap_set_SomeD)
    then obtain t t' where t: "bit_cnt t = bit_cnt b" "bitmap_set t (bit_cnt b) v = Some t'"
      unfolding e by blast
    show False using bitmap_set_SomeD [OF t(2)] t(1) by simp
  qed
next
  assume "unat start + unat cnt \<le> unat (bit_cnt b)"
  from bitmap_set_multiple_run [OF assms this] show "bitmap_set_multiple b start cnt v \<noteq> None" by force
qed

lemma bitmap_contains_loop_run:
  assumes ok: "bitmap_ok b" and r: "unat start + unat cnt \<le> unat (bit_cnt b)"
  shows "bitmap_contains_loop b start cnt v i =
     Some (\<exists>j. i \<le> j \<and> j < unat cnt \<and> bit_at b (unat start + j) = v)"
proof (induction "unat cnt - i" arbitrary: i)
  case 0
  then show ?case by (subst bitmap_contains_loop.simps) auto
next
  case (Suc n)
  then have i: "i < unat cnt" by simp
  have t: "bitmap_test b (start + of_nat i) = Some (bit_at b (unat start + i))"
    using bitmap_test_run [OF ok] range_in [OF r i] by simp
  have *: "(\<exists>j\<ge>i. j < unat cnt \<and> P j) \<longleftrightarrow> P i \<or> (\<exists>j\<ge>Suc i. j < unat cnt \<and> P j)" for P
    using i by (metis Suc_leD Suc_leI le_neq_implies_less order_refl)
  show ?case
    using Suc i t * [of "\<lambda>j. bit_at b (unat start + j) = v"]
    by (subst bitmap_contains_loop.simps) simp
qed

lemma bitmap_contains_run:
  assumes ok: "bitmap_ok b" and r: "unat start + unat cnt \<le> unat (bit_cnt b)"
  shows "bitmap_contains b start cnt v =
     Some (\<exists>j. unat start \<le> j \<and> j < unat start + unat cnt \<and> bit_at b j = v)"
proof -
  have "(\<exists>j<unat cnt. P (unat start + j)) \<longleftrightarrow> (\<exists>j. unat start \<le> j \<and> j < unat start + unat cnt \<and> P j)" for P
    by (metis add.commute add_less_cancel_left le_Suc_ex le_add1)
  then show ?thesis
    using bitmap_contains_loop_run [OF ok r, of v 0] range_guard [OF r] by (simp add: bitmap_contains_def)
qed

lemma bitmap_count_run:
  assumes ok: "bitmap_ok b" and r: "unat start + unat cnt \<le> unat (bit_cnt b)"
  shows "bitmap_count b start cnt v =
     Some (of_nat (card {j. unat start \<le> j \<and> j < unat start + unat cnt \<and> bit_at b j = v}))"
proof -
  let ?S = "\<lambda>i. {j. unat start \<le> j \<and> j < unat start + i \<and> bit_at b j = v}"
  have "\<exists>c. for_range 0 (unat cnt) (\<lambda>i value_cnt. do {
       t \<leftarrow> bitmap_test b (start + of_nat i);
       Some (if t = v then value_cnt + 1 else value_cnt) }) 0 = Some c \<and> c = (of_nat (card (?S (unat cnt))) :: u32)"
  proof (rule for_range_rule)
    fix i and c :: u32 assume i: "i < unat cnt" and c: "c = of_nat (card (?S i))"
    have "?S (Suc i) = (if bit_at b (unat start + i) = v then insert (unat start + i) (?S i) else ?S i)"
      by (auto simp: less_Suc_eq)
    moreover have "finite (?S i)" by (rule finite_subset [of _ "{..<unat start + i}"]) auto
    ultimately show "\<exists>c'. (do { t \<leftarrow> bitmap_test b (start + of_nat i);
       Some (if t = v then c + 1 else c) }) = Some c' \<and> c' = of_nat (card (?S (Suc i)))"
      using bitmap_test_run [OF ok] range_in [OF r i] c by simp
  next
    have "?S 0 = {}" by auto
    then show "(0 :: u32) = of_nat (card (?S 0))" by (simp only: card.empty semiring_1_class.of_nat_0)
  qed simp
  then show ?thesis using range_guard [OF r] by (simp add: bitmap_count_def)
qed


section \<open>First-fit scanning\<close>

definition run_of :: "bitmap \<Rightarrow> nat \<Rightarrow> bool \<Rightarrow> nat \<Rightarrow> bool" where
  "run_of b n v k \<longleftrightarrow> k + n \<le> unat (bit_cnt b) \<and> (\<forall>j. k \<le> j \<and> j < k + n \<longrightarrow> bit_at b j = v)"

lemma bitmap_scan_loop_run:
  assumes ok: "bitmap_ok b" and c: "unat cnt \<le> unat (bit_cnt b)"
    and l: "lst = unat (bit_cnt b) - unat cnt"
  shows "(\<exists>k\<ge>i. run_of b (unat cnt) v k \<and> (\<forall>k'. i \<le> k' \<and> k' < k \<longrightarrow> \<not> run_of b (unat cnt) v k') \<and>
            bitmap_scan_loop b cnt v lst i = Some (of_nat k)) \<or>
         (\<forall>k\<ge>i. \<not> run_of b (unat cnt) v k) \<and> bitmap_scan_loop b cnt v lst i = Some BITMAP_ERROR"
proof (induction "Suc lst - i" arbitrary: i)
  case 0
  then show ?case using l c by (subst (1 2) bitmap_scan_loop.simps) (auto simp: run_of_def)
next
  case (Suc n)
  then have i: "i \<le> lst" by simp
  have ui: "unat (of_nat i :: u32) = i"
    using i l unat_lt_32 [of "bit_cnt b"] by (simp add: unat_of_nat take_bit_nat_eq_self)
  have "unat (of_nat i :: u32) + unat cnt \<le> unat (bit_cnt b)" using i l c ui by simp
  from bitmap_contains_run [OF ok this, of "\<not> v"]
  have con: "bitmap_contains b (of_nat i) cnt (\<not> v) = Some (\<not> run_of b (unat cnt) v i)"
    using i l c by (auto simp: ui run_of_def)
  have unf: "bitmap_scan_loop b cnt v lst i =
      (if run_of b (unat cnt) v i then Some (of_nat i) else bitmap_scan_loop b cnt v lst (Suc i))"
    using i con by (subst bitmap_scan_loop.simps) simp
  show ?case
  proof (cases "run_of b (unat cnt) v i")
    case True
    then show ?thesis using unf by auto
  next
    case False
    have "n = Suc lst - Suc i" using Suc.hyps(2) by simp
    from Suc.hyps(1) [OF this] False show ?thesis
      unfolding unf by (auto simp: Suc_le_eq) (metis le_eq_less_or_eq)+
  qed
qed

lemma bitmap_scan_run:
  assumes ok: "bitmap_ok b" and s: "start \<le> bit_cnt b"
  shows "(\<exists>k\<ge>unat start. run_of b (unat cnt) v k \<and>
            (\<forall>k'. unat start \<le> k' \<and> k' < k \<longrightarrow> \<not> run_of b (unat cnt) v k') \<and>
            bitmap_scan b start cnt v = Some (of_nat k)) \<or>
         (\<forall>k\<ge>unat start. \<not> run_of b (unat cnt) v k) \<and> bitmap_scan b start cnt v = Some BITMAP_ERROR"
proof (cases "cnt \<le> bit_cnt b")
  case True
  then have le: "unat cnt \<le> unat (bit_cnt b)" unfolding word_le_nat_alt .
  have "unat (bit_cnt b - cnt) = unat (bit_cnt b) - unat cnt" using True by (rule unat_sub)
  from bitmap_scan_loop_run [OF ok le this, of "unat start" v] show ?thesis
    using s True by (simp add: bitmap_scan_def)
next
  case False
  then have "unat (bit_cnt b) < unat cnt" by (simp add: word_less_nat_alt not_le)
  then show ?thesis using s False by (auto simp: bitmap_scan_def run_of_def)
qed

lemma unat_BITMAP_ERROR: "unat BITMAP_ERROR = 2 ^ 32 - 1"
  by (simp add: unsigned_minus_1_eq_mask mask_eq_exp_minus_1)

lemma bitmap_scan_and_flip_run:
  assumes ok: "bitmap_ok b" and s: "start \<le> bit_cnt b" and n: "cnt \<noteq> 0"
  shows "(\<exists>k b'. bitmap_scan_and_flip b start cnt v = Some (of_nat k, b') \<and> of_nat k \<noteq> BITMAP_ERROR \<and>
            unat start \<le> k \<and> run_of b (unat cnt) v k \<and>
            (\<forall>k'. unat start \<le> k' \<and> k' < k \<longrightarrow> \<not> run_of b (unat cnt) v k') \<and>
            bit_cnt b' = bit_cnt b \<and> length (bits b') = length (bits b) \<and>
            bit_at b' = (\<lambda>j. if k \<le> j \<and> j < k + unat cnt then \<not> v else bit_at b j)) \<or>
         (\<forall>k\<ge>unat start. \<not> run_of b (unat cnt) v k) \<and>
           bitmap_scan_and_flip b start cnt v = Some (BITMAP_ERROR, b)"
  using bitmap_scan_run [OF ok s, of cnt v]
proof (elim disjE exE conjE)
  fix k assume k: "unat start \<le> k" "run_of b (unat cnt) v k"
    "\<forall>k'. unat start \<le> k' \<and> k' < k \<longrightarrow> \<not> run_of b (unat cnt) v k'"
    "bitmap_scan b start cnt v = Some (of_nat k)"
  have "unat cnt > 0" using n by (simp add: unat_gt_0)
  then have "k < 2 ^ 32 - 1" using k(2) unat_lt_32 [of "bit_cnt b"] by (simp add: run_of_def)
  then have uk: "unat (of_nat k :: u32) = k" by (simp add: unat_of_nat take_bit_nat_eq_self)
  have ne: "(of_nat k :: u32) \<noteq> BITMAP_ERROR"
    using uk \<open>k < 2 ^ 32 - 1\<close> unat_BITMAP_ERROR by (metis less_irrefl)
  have "unat (of_nat k :: u32) + unat cnt \<le> unat (bit_cnt b)" using k(2) uk by (simp add: run_of_def)
  from bitmap_set_multiple_run [OF ok this, of "\<not> v"] show ?thesis
    using k ne uk by (auto simp: bitmap_scan_and_flip_def)
qed (auto simp: bitmap_scan_and_flip_def)


section \<open>Creation\<close>

lemma unat_elem_cnt:
  "unat (elem_cnt n) = (if unat n + 31 < 2 ^ 32 then (unat n + 31) div 32 else 0)"
proof -
  have e: "n + 32 - 1 = n + 31" by simp
  show ?thesis
  proof (cases "unat n + 31 < 2 ^ 32")
    case True
    then have "unat (n + 31) = unat n + 31" by (simp add: unat_word_ariths)
    then show ?thesis using True unfolding elem_cnt_def e by (simp add: unat_div)
  next
    case False
    then have "unat (n + 31) = unat n + 31 - 2 ^ 32"
      using unat_lt_32 [of n] by (simp add: unat_word_ariths mod_if)
    then have "unat (n + 31) < 32" using unat_lt_32 [of n] by simp
    then show ?thesis using False unfolding elem_cnt_def e by (simp add: unat_div)
  qed
qed

lemma unat_byte_cnt: "unat (byte_cnt n) = 4 * unat (elem_cnt n)"
  unfolding byte_cnt_def using unat_lt_32 [of n]
  by (simp add: unat_word_ariths unat_elem_cnt)

lemma bitmap_set_all_run:
  assumes "bitmap_ok b"
  shows "\<exists>b'. bitmap_set_all b v = Some b' \<and> bitmap_ok b' \<and> bit_cnt b' = bit_cnt b \<and>
     (\<forall>j<unat (bit_cnt b). bit_at b' j = v)"
  using bitmap_set_multiple_run [OF assms, of 0 "bit_cnt b" v] assms
  by (auto simp: bitmap_set_all_def bitmap_size_def bitmap_ok_def)

lemma bitmap_create_run:
  assumes m: "\<And>sz ws. malloc sz = Some ws \<Longrightarrow> sz \<noteq> 0 \<and> unat sz \<le> 4 * length ws"
  shows "\<exists>r. bitmap_create hdr malloc n = Some r \<and>
     (\<forall>b. r = Some b \<longrightarrow> bitmap_ok b \<and> bit_cnt b = n \<and> (\<forall>j<unat n. \<not> bit_at b j))"
proof (cases "malloc (byte_cnt n)")
  case None
  have "bitmap_ok \<lparr>bit_cnt = 0, bits = []\<rparr>" by (simp add: bitmap_ok_def)
  from bitmap_set_all_run [OF this, of False] None show ?thesis by (auto simp: bitmap_create_def)
next
  case (Some ws)
  then have w: "byte_cnt n \<noteq> 0" "unat (byte_cnt n) \<le> 4 * length ws" using m by blast+
  then have "unat (elem_cnt n) \<noteq> 0" by (auto simp: byte_cnt_def unat_eq_0)
  then have "unat n \<le> 32 * length ws"
    using w(2) by (simp add: unat_byte_cnt unat_elem_cnt split: if_splits)
  then have "bitmap_ok \<lparr>bit_cnt = n, bits = ws\<rparr>" by (simp add: bitmap_ok_def)
  from bitmap_set_all_run [OF this, of False] Some show ?thesis by (auto simp: bitmap_create_def)
qed

section \<open>The region allocator contract\<close>

definition region :: "u32 \<Rightarrow> u32 \<Rightarrow> nat set" where
  "region i n = {unat i..<unat i + unat n}"

text \<open>
  What a client that hands out runs of numbered units (pages, sectors) expects: \<open>get\<close> marks a
  free run and returns its start or the all-ones error value, \<open>put\<close> frees a run.
\<close>

locale region_allocator =
  fixes inv :: "'s \<Rightarrow> bool" and units :: "'s \<Rightarrow> nat" and used :: "'s \<Rightarrow> nat set"
    and get :: "'s \<Rightarrow> u32 \<Rightarrow> (u32 \<times> 's) option" and put :: "'s \<Rightarrow> u32 \<Rightarrow> u32 \<Rightarrow> 's option"
  assumes get_total: "inv s \<Longrightarrow> n \<noteq> 0 \<Longrightarrow> \<exists>i s'. get s n = Some (i, s')"
    and get_fail: "inv s \<Longrightarrow> n \<noteq> 0 \<Longrightarrow> get s n = Some (- 1, s') \<Longrightarrow>
      s' = s \<and> \<not> (\<exists>k. k + unat n \<le> units s \<and> {k..<k + unat n} \<inter> used s = {})"
    and get_ok: "inv s \<Longrightarrow> n \<noteq> 0 \<Longrightarrow> get s n = Some (i, s') \<Longrightarrow> i \<noteq> - 1 \<Longrightarrow>
      inv s' \<and> units s' = units s \<and> unat i + unat n \<le> units s \<and> region i n \<inter> used s = {} \<and>
      used s' = used s \<union> region i n"
    and put_ok: "inv s \<Longrightarrow> unat i + unat n \<le> units s \<Longrightarrow>
      \<exists>s'. put s i n = Some s' \<and> inv s' \<and> units s' = units s \<and> used s' = used s - region i n"
begin

lemma get_put:
  assumes "inv s" "n \<noteq> 0" "get s n = Some (i, s')" "i \<noteq> - 1"
  shows "\<exists>s''. put s' i n = Some s'' \<and> inv s'' \<and> used s'' = used s"
proof -
  from get_ok [OF assms] have g: "inv s'" "units s' = units s" "unat i + unat n \<le> units s"
    "region i n \<inter> used s = {}" "used s' = used s \<union> region i n" by blast+
  from put_ok [OF g(1)] g obtain s'' where "put s' i n = Some s''" "inv s''"
    "used s'' = used s' - region i n" by metis
  then show ?thesis using g by auto
qed

end

text \<open>
  The states reached by sequences of operations, with the list of runs handed out and not yet
  given back.
\<close>

inductive alloc_trace ::
  "('s \<Rightarrow> u32 \<Rightarrow> (u32 \<times> 's) option) \<Rightarrow> ('s \<Rightarrow> u32 \<Rightarrow> u32 \<Rightarrow> 's option) \<Rightarrow> 's \<Rightarrow> 's \<Rightarrow> (u32 \<times> u32) list \<Rightarrow> bool"
  for get put s0 where
  start: "alloc_trace get put s0 s0 []"
| get: "alloc_trace get put s0 s L \<Longrightarrow> n \<noteq> 0 \<Longrightarrow> get s n = Some (i, s') \<Longrightarrow> i \<noteq> - 1 \<Longrightarrow>
    alloc_trace get put s0 s' ((i, n) # L)"
| put: "alloc_trace get put s0 s (A @ (i, n) # B) \<Longrightarrow> put s i n = Some s' \<Longrightarrow>
    alloc_trace get put s0 s' (A @ B)"

context region_allocator
begin

lemma alloc_trace_inv:
  assumes "alloc_trace get put s0 s L" "inv s0"
  shows "inv s \<and> units s = units s0 \<and>
    used s = used s0 \<union> (\<Union>(i, n) \<in> set L. region i n) \<and>
    (\<forall>(i, n) \<in> set L. region i n \<inter> used s0 = {} \<and> unat i + unat n \<le> units s0) \<and>
    sorted_wrt (\<lambda>(i, n) (j, m). region i n \<inter> region j m = {}) L"
  using assms
proof (induction rule: alloc_trace.induct)
  case (get s L n i s')
  then have I: "inv s" by simp
  from get_ok [OF I get.hyps(2,3,4)] get show ?case by (auto simp: disjoint_iff)
next
  case (put s A i n B s')
  then have I: "inv s" "unat i + unat n \<le> units s"
    and U: "used s = used s0 \<union> (\<Union>(i, n) \<in> set (A @ (i, n) # B). region i n)"
    and D: "\<forall>(i, n) \<in> set (A @ (i, n) # B). region i n \<inter> used s0 = {} \<and> unat i + unat n \<le> units s0"
    and P: "sorted_wrt (\<lambda>(i, n) (j, m). region i n \<inter> region j m = {}) (A @ (i, n) # B)"
    by auto
  from put_ok [OF I] put.hyps(2) have "inv s'" "units s' = units s" "used s' = used s - region i n" by auto
  moreover have "(used s0 \<union> (\<Union>(i, n) \<in> set (A @ B). region i n)) \<inter> region i n = {}"
    using D P by (fastforce simp: sorted_wrt_append)
  ultimately show ?case using put U D P by (auto simp: sorted_wrt_append)
qed simp

end

definition used_units :: "bitmap \<Rightarrow> nat set" where
  "used_units b = {j. j < unat (bit_cnt b) \<and> bit_at b j}"

lemma run_of_used: "run_of b n False k \<longleftrightarrow> k + n \<le> unat (bit_cnt b) \<and> {k..<k + n} \<inter> used_units b = {}"
  by (auto simp: run_of_def used_units_def)

interpretation bitmap_regions: region_allocator bitmap_ok "\<lambda>b. unat (bit_cnt b)" used_units
  "\<lambda>b n. bitmap_scan_and_flip b 0 n False" "\<lambda>b i n. bitmap_set_multiple b i n False"
proof unfold_locales
  fix b b' and n i :: u32 assume ok: "bitmap_ok b"
  note sf = bitmap_scan_and_flip_run [OF ok word_zero_le, where v = False]
  show "\<exists>i s'. bitmap_scan_and_flip b 0 n False = Some (i, s')" if "n \<noteq> 0"
    using sf [OF that] by blast
  show "b' = b \<and> \<not> (\<exists>k. k + unat n \<le> unat (bit_cnt b) \<and> {k..<k + unat n} \<inter> used_units b = {})"
    if "n \<noteq> 0" "bitmap_scan_and_flip b 0 n False = Some (- 1, b')"
    using sf [OF that(1)] that(2) by (auto simp: run_of_used)
  show "bitmap_ok b' \<and> unat (bit_cnt b') = unat (bit_cnt b) \<and> unat i + unat n \<le> unat (bit_cnt b) \<and>
      region i n \<inter> used_units b = {} \<and> used_units b' = used_units b \<union> region i n"
    if "n \<noteq> 0" "bitmap_scan_and_flip b 0 n False = Some (i, b')" "i \<noteq> - 1"
  proof -
    from sf [OF that(1)] that(2,3) obtain k where k: "i = of_nat k" "run_of b (unat n) False k"
      "bit_cnt b' = bit_cnt b" "length (bits b') = length (bits b)"
      "bit_at b' = (\<lambda>j. if k \<le> j \<and> j < k + unat n then True else bit_at b j)" by auto
    have "unat i = k" using k(1,2) unat_lt_32 [of "bit_cnt b"]
      by (simp add: run_of_def unat_of_nat take_bit_nat_eq_self)
    then show ?thesis using k ok
      by (auto simp: bitmap_ok_def run_of_used region_def used_units_def)
  qed
  show "\<exists>s'. bitmap_set_multiple b i n False = Some s' \<and> bitmap_ok s' \<and>
      unat (bit_cnt s') = unat (bit_cnt b) \<and> used_units s' = used_units b - region i n"
    if "unat i + unat n \<le> unat (bit_cnt b)"
    using bitmap_set_multiple_run [OF ok that, of False] ok
    by (auto simp: bitmap_ok_def region_def used_units_def)
qed


section \<open>Properties\<close>

definition demo_bitmap :: bitmap where
  "demo_bitmap = \<lparr>bit_cnt = 40, bits = [0xF, 0]\<rparr>"

lemma demo_bitmap_ok: "bitmap_ok demo_bitmap"
  by (simp add: bitmap_ok_def demo_bitmap_def)

text \<open>
  C5.  \<open>bitmap_scan_and_flip\<close> is first fit: it returns the lowest start, at or after the given
  one, of a run of \<open>cnt\<close> bits with the wanted value and flips exactly that run, or it
  returns \<open>BITMAP_ERROR\<close> and changes nothing when there is no such run.
\<close>

theorem bitmap_scan_and_flip_first_fit:
  assumes "bitmap_ok b" "start \<le> bit_cnt b" "cnt \<noteq> 0"
  shows "(\<exists>k b'. bitmap_scan_and_flip b start cnt v = Some (of_nat k, b') \<and> of_nat k \<noteq> BITMAP_ERROR \<and>
            unat start \<le> k \<and> run_of b (unat cnt) v k \<and>
            (\<forall>k'. unat start \<le> k' \<and> k' < k \<longrightarrow> \<not> run_of b (unat cnt) v k') \<and>
            bit_cnt b' = bit_cnt b \<and> length (bits b') = length (bits b) \<and>
            bit_at b' = (\<lambda>j. if k \<le> j \<and> j < k + unat cnt then \<not> v else bit_at b j)) \<or>
         (\<forall>k\<ge>unat start. \<not> run_of b (unat cnt) v k) \<and>
           bitmap_scan_and_flip b start cnt v = Some (BITMAP_ERROR, b)"
  by (rule bitmap_scan_and_flip_run [OF assms])

theorem bitmap_scan_and_flip_first_fit_witness:
  "\<exists>k b'. bitmap_scan_and_flip demo_bitmap 0 2 False = Some (of_nat k, b') \<and>
     run_of demo_bitmap 2 False k"
proof -
  have "j = 32 \<or> j = 33" if "32 \<le> j" "j < 34" for j :: nat using that by arith
  then have "run_of demo_bitmap 2 False 32"
    by (fastforce simp: run_of_def demo_bitmap_def bit_at_def)
  then show ?thesis
    using bitmap_scan_and_flip_first_fit [OF demo_bitmap_ok, of 0 2 False] by fastforce
qed

text \<open>
  \<open>bitmap_set_multiple\<close> panics exactly when the range leaves the bitmap, although its
  second assertion is evaluated with 32-bit wrap-around.
\<close>

theorem bitmap_set_multiple_panics:
  assumes "bitmap_ok b"
  shows "bitmap_set_multiple b start cnt v = None \<longleftrightarrow> unat (bit_cnt b) < unat start + unat cnt"
  using bitmap_set_multiple_defined [OF assms, of start cnt v] by auto

theorem bitmap_set_multiple_panics_witness:
  "(8 :: u32) + 0xFFFFFFFA \<le> bit_cnt demo_bitmap \<and>
   bitmap_set_multiple demo_bitmap 8 0xFFFFFFFA True = None"
  using bitmap_set_multiple_panics [OF demo_bitmap_ok, of 8 "0xFFFFFFFA" True]
  by (simp add: demo_bitmap_def)

text \<open>
  \<open>bitmap_create\<close> never panics, and a bitmap it returns has an element for every bit and all
  bits clear, also for sizes whose byte count wraps around to zero, given that \<open>malloc\<close> refuses
  empty requests and returns blocks of the requested size.
\<close>

theorem bitmap_create_clear:
  assumes "\<And>sz ws. malloc sz = Some ws \<Longrightarrow> sz \<noteq> 0 \<and> unat sz \<le> 4 * length ws"
  shows "\<exists>r. bitmap_create hdr malloc n = Some r \<and>
     (\<forall>b. r = Some b \<longrightarrow> bitmap_ok b \<and> bit_cnt b = n \<and> (\<forall>j<unat n. \<not> bit_at b j))"
  by (rule bitmap_create_run [OF assms])

theorem bitmap_create_clear_witness:
  "\<exists>b. bitmap_create True (\<lambda>sz. if sz = 8 then Some [7, 9] else None) 40 = Some (Some b) \<and>
     bitmap_ok b \<and> \<not> bit_at b 3"
proof -
  let ?m = "\<lambda>sz :: u32. if sz = 8 then Some [7, 9 :: u32] else None"
  have "\<exists>b'. bitmap_set_all \<lparr>bit_cnt = 40, bits = [7, 9]\<rparr> False = Some b'"
    using bitmap_set_all_run [of "\<lparr>bit_cnt = 40, bits = [7, 9]\<rparr>"] by (auto simp: bitmap_ok_def)
  moreover have "byte_cnt 40 = 8" by (simp add: byte_cnt_def elem_cnt_def)
  moreover have "\<exists>r. bitmap_create True ?m 40 = Some r \<and>
     (\<forall>b. r = Some b \<longrightarrow> bitmap_ok b \<and> bit_cnt b = 40 \<and> (\<forall>j<unat (40 :: u32). \<not> bit_at b j))"
    by (rule bitmap_create_clear) (auto split: if_splits)
  ultimately show ?thesis by (auto simp: bitmap_create_def)
qed

text \<open>
  For a count of zero \<open>bitmap_scan_and_flip\<close> returns the start index it was given, not 0.
\<close>

theorem bitmap_scan_and_flip_zero:
  assumes "bitmap_ok b" "start \<le> bit_cnt b" "start \<noteq> BITMAP_ERROR"
  shows "bitmap_scan_and_flip b start 0 v = Some (start, b)"
proof -
  have "bitmap_scan_loop b 0 v (unat (bit_cnt b)) (unat start) = Some start"
    using assms bitmap_contains_run [OF assms(1), of start 0 "\<not> v"]
    by (subst bitmap_scan_loop.simps) (simp add: word_le_nat_alt)
  then show ?thesis
    using assms by (simp add: bitmap_scan_and_flip_def bitmap_scan_def bitmap_set_multiple_def)
qed

theorem bitmap_scan_and_flip_zero_witness:
  "bitmap_scan_and_flip demo_bitmap 5 0 False = Some (5, demo_bitmap)"
  by (rule bitmap_scan_and_flip_zero [OF demo_bitmap_ok]) (simp_all add: demo_bitmap_def)

end
