(* ===== verification/Hash.thy ===== *)
theory Hash
  imports Prelude
begin

text \<open>
  The hash tables of \<open>lib/kernel/hash.c\<close>.  A bucket is the sequence of elements of its list: the
  list operations used on it (\<open>list_push_front\<close>, \<open>list_remove\<close>, \<open>list_pop_front\<close> and the traversal)
  are those whose effect on sequences the list theory establishes.  Counts are 32-bit, the bucket
  index is the masked hash value, and the table is rehashed after every insertion and deletion
  the way the code does it.  The contract \<open>hash_contract\<close> says what a client's hash and comparison
  callbacks have to satisfy; under it the table is a set of elements up to equivalence.
\<close>

section \<open>The code\<close>

record 'e hash =
  helem_cnt :: u32
  bucket_cnt :: u32
  buckets :: "'e list list"
  hash_fn :: "'e \<Rightarrow> u32"
  less_fn :: "'e \<Rightarrow> 'e \<Rightarrow> bool"

definition find_bucket :: "'e hash \<Rightarrow> 'e \<Rightarrow> nat" where
  "find_bucket h e = unat (hash_fn h e AND (bucket_cnt h - 1))"

definition find_elem :: "'e hash \<Rightarrow> nat \<Rightarrow> 'e \<Rightarrow> 'e option option" where
  "find_elem h bucket e = do {
     bk \<leftarrow> rd (buckets h) bucket;
     Some (List.find (\<lambda>hi. \<not> less_fn h hi e \<and> \<not> less_fn h e hi) bk)
   }"

definition push_bucket :: "'e hash \<Rightarrow> nat \<Rightarrow> 'e \<Rightarrow> 'e hash option" where
  "push_bucket h bucket e = do {
     bk \<leftarrow> rd (buckets h) bucket;
     bs \<leftarrow> wr (buckets h) bucket (e # bk);
     Some (h\<lparr>buckets := bs\<rparr>)
   }"

definition insert_elem :: "'e hash \<Rightarrow> nat \<Rightarrow> 'e \<Rightarrow> 'e hash option" where
  "insert_elem h bucket e = push_bucket (h\<lparr>helem_cnt := helem_cnt h + 1\<rparr>) bucket e"

definition remove_elem :: "'e hash \<Rightarrow> 'e \<Rightarrow> 'e hash" where
  "remove_elem h e = h\<lparr>helem_cnt := helem_cnt h - 1, buckets := map (remove1 e) (buckets h)\<rparr>"

definition turn_off_least_1bit :: "u32 \<Rightarrow> u32" where
  "turn_off_least_1bit x = x AND (x - 1)"

definition is_power_of_2 :: "u32 \<Rightarrow> bool" where
  "is_power_of_2 x \<longleftrightarrow> x \<noteq> 0 \<and> turn_off_least_1bit x = 0"

text \<open>The \<open>while\<close> loop of \<open>rehash\<close>; started at zero it would not return.\<close>

partial_function (option) round_down_power :: "u32 \<Rightarrow> u32 option" where
  "round_down_power x =
     (if \<not> is_power_of_2 x then round_down_power (turn_off_least_1bit x) else Some x)"

text \<open>Moving the elements of the old buckets, in order.\<close>

fun move_elems :: "'e hash \<Rightarrow> 'e list \<Rightarrow> 'e hash option" where
  "move_elems h [] = Some h"
| "move_elems h (e # es) = do { h \<leftarrow> push_bucket h (find_bucket h e) e; move_elems h es }"

text \<open>\<open>mem\<close> tells whether \<open>malloc\<close> of so many bytes succeeds.\<close>

definition rehash :: "(u32 \<Rightarrow> bool) \<Rightarrow> 'e hash \<Rightarrow> 'e hash option" where
  "rehash mem h = do {
     let old_buckets = buckets h; let old_bucket_cnt = bucket_cnt h;
     let n = helem_cnt h div 2;
     n \<leftarrow> round_down_power (if n < 4 then 4 else n);
     if n = old_bucket_cnt then Some h
     else if \<not> mem (16 * n) then Some h
     else move_elems (h\<lparr>buckets := replicate (unat n) [], bucket_cnt := n\<rparr>)
            (concat (take (unat old_bucket_cnt) old_buckets))
   }"

definition hash_clear :: "'e hash \<Rightarrow> 'e hash" where
  "hash_clear h = h\<lparr>buckets := replicate (unat (bucket_cnt h)) [], helem_cnt := 0\<rparr>"

definition hash_init :: "(u32 \<Rightarrow> bool) \<Rightarrow> ('e \<Rightarrow> u32) \<Rightarrow> ('e \<Rightarrow> 'e \<Rightarrow> bool) \<Rightarrow> 'e hash option" where
  "hash_init mem hf lt =
     (if mem (16 * 4)
      then Some (hash_clear \<lparr>helem_cnt = 0, bucket_cnt = 4, buckets = [], hash_fn = hf, less_fn = lt\<rparr>)
      else None)"

text \<open>The elements \<open>hash_clear\<close> passes to a destructor, in the order of the calls.\<close>

definition hash_clear_calls :: "'e hash \<Rightarrow> 'e list" where
  "hash_clear_calls h = concat (take (unat (bucket_cnt h)) (buckets h))"

definition hash_insert :: "(u32 \<Rightarrow> bool) \<Rightarrow> 'e hash \<Rightarrow> 'e \<Rightarrow> ('e option \<times> 'e hash) option" where
  "hash_insert mem h e = do {
     let bucket = find_bucket h e;
     old \<leftarrow> find_elem h bucket e;
     h \<leftarrow> (if old = None then insert_elem h bucket e else Some h);
     h \<leftarrow> rehash mem h;
     Some (old, h)
   }"

definition hash_replace :: "(u32 \<Rightarrow> bool) \<Rightarrow> 'e hash \<Rightarrow> 'e \<Rightarrow> ('e option \<times> 'e hash) option" where
  "hash_replace mem h e = do {
     let bucket = find_bucket h e;
     old \<leftarrow> find_elem h bucket e;
     let h = (case old of Some x \<Rightarrow> remove_elem h x | None \<Rightarrow> h);
     h \<leftarrow> insert_elem h bucket e;
     h \<leftarrow> rehash mem h;
     Some (old, h)
   }"

definition hash_find :: "'e hash \<Rightarrow> 'e \<Rightarrow> 'e option option" where
  "hash_find h e = find_elem h (find_bucket h e) e"

definition hash_delete :: "(u32 \<Rightarrow> bool) \<Rightarrow> 'e hash \<Rightarrow> 'e \<Rightarrow> ('e option \<times> 'e hash) option" where
  "hash_delete mem h e = do {
     found \<leftarrow> find_elem h (find_bucket h e) e;
     case found of
       None \<Rightarrow> Some (None, h)
     | Some x \<Rightarrow> do { h \<leftarrow> rehash mem (remove_elem h x); Some (Some x, h) }
   }"

text \<open>\<open>hash_apply\<close>: the elements the action is called with, in order.\<close>

definition hash_apply_calls :: "'e hash \<Rightarrow> 'e list" where
  "hash_apply_calls h = concat (take (unat (bucket_cnt h)) (buckets h))"

text \<open>
  Iterators.  The position in the current bucket is 0 at the list head, \<open>Suc i\<close> at element \<open>i\<close>; one
  past the last element it stands for the list tail.  \<open>it_null\<close> is the state with \<open>elem == NULL\<close>.
\<close>

record 'e hash_iterator =
  it_hash :: "'e hash"
  it_bucket :: nat
  it_pos :: nat
  it_null :: bool

definition hash_first :: "'e hash \<Rightarrow> 'e hash_iterator" where
  "hash_first h = \<lparr>it_hash = h, it_bucket = 0, it_pos = 0, it_null = False\<rparr>"

definition hash_cur :: "'e hash_iterator \<Rightarrow> 'e option" where
  "hash_cur i = (if it_null i then None
     else Some (buckets (it_hash i) ! it_bucket i ! (it_pos i - 1)))"

function hash_next_loop :: "'e hash_iterator \<Rightarrow> 'e hash_iterator" where
  "hash_next_loop i =
     (if \<not> it_null i \<and> it_bucket i < unat (bucket_cnt (it_hash i)) \<and>
         it_pos i = Suc (length (buckets (it_hash i) ! it_bucket i)) then
        if Suc (it_bucket i) \<ge> unat (bucket_cnt (it_hash i))
        then i\<lparr>it_bucket := Suc (it_bucket i), it_null := True\<rparr>
        else hash_next_loop (i\<lparr>it_bucket := Suc (it_bucket i), it_pos := 1\<rparr>)
      else i)"
  by pat_completeness auto
termination
  by (relation "measure (\<lambda>i. unat (bucket_cnt (it_hash i)) - it_bucket i)") auto

declare hash_next_loop.simps [simp del]

definition hash_next :: "'e hash_iterator \<Rightarrow> 'e option \<times> 'e hash_iterator" where
  "hash_next i = (let i = hash_next_loop (i\<lparr>it_pos := Suc (it_pos i)\<rparr>) in (hash_cur i, i))"

definition hash_size :: "'e hash \<Rightarrow> u32" where
  "hash_size h = helem_cnt h"

definition hash_empty :: "'e hash \<Rightarrow> bool" where
  "hash_empty h \<longleftrightarrow> helem_cnt h = 0"

abbreviation FNV_32_PRIME :: u32 where
  "FNV_32_PRIME \<equiv> 16777619"

abbreviation FNV_32_BASIS :: u32 where
  "FNV_32_BASIS \<equiv> 2166136261"

fun hash_bytes_loop :: "u32 \<Rightarrow> u8 list \<Rightarrow> u32" where
  "hash_bytes_loop hash [] = hash"
| "hash_bytes_loop hash (b # buf) = hash_bytes_loop ((hash * FNV_32_PRIME) XOR ucast b) buf"

definition hash_bytes :: "u8 list \<Rightarrow> u32" where
  "hash_bytes buf = hash_bytes_loop FNV_32_BASIS buf"

text \<open>\<open>hash_string\<close> on the memory that starts at \<open>s\<close>; without a terminator it runs off its end.\<close>

fun hash_string_loop :: "u32 \<Rightarrow> u8 list \<Rightarrow> u32 option" where
  "hash_string_loop hash [] = None"
| "hash_string_loop hash (c # s) =
     (if c \<noteq> 0 then hash_string_loop ((hash * FNV_32_PRIME) XOR ucast c) s else Some hash)"

definition hash_string :: "u8 list \<Rightarrow> u32 option" where
  "hash_string s = hash_string_loop FNV_32_BASIS s"

text \<open>\<open>hash_int\<close> hashes the four little-endian bytes of its argument.\<close>

definition int_bytes :: "u32 \<Rightarrow> u8 list" where
  "int_bytes i = [ucast i, ucast (drop_bit 8 i), ucast (drop_bit 16 i), ucast (drop_bit 24 i)]"

definition hash_int :: "u32 \<Rightarrow> u32" where
  "hash_int i = hash_bytes (int_bytes i)"


section \<open>The bucket count\<close>

lemma unat_and_le: "unat (x AND y :: u32) \<le> unat y"
  by (metis word_and_le1 word_le_nat_alt)

lemma turn_off_less: "x \<noteq> 0 \<Longrightarrow> unat (turn_off_least_1bit x) < unat x"
  using unat_and_le [of x "x - 1"] measure_unat [of x] by (simp add: turn_off_least_1bit_def)

lemma round_down_power_run:
  "x \<noteq> 0 \<Longrightarrow> \<exists>n. round_down_power x = Some n \<and> is_power_of_2 n \<and> unat n \<le> unat x"
proof (induction "unat x" arbitrary: x rule: less_induct)
  case less
  show ?case
  proof (cases "is_power_of_2 x")
    case True
    then show ?thesis by (auto simp: round_down_power.simps)
  next
    case False
    then have "turn_off_least_1bit x \<noteq> 0" using less.prems by (simp add: is_power_of_2_def)
    with less.hyps [OF turn_off_less [OF less.prems] this] turn_off_less [OF less.prems] False
    show ?thesis by (subst round_down_power.simps) auto
  qed
qed

lemma find_bucket_less: "is_power_of_2 (bucket_cnt h) \<Longrightarrow> find_bucket h e < unat (bucket_cnt h)"
  using unat_and_le [of "hash_fn h e" "bucket_cnt h - 1"] measure_unat [of "bucket_cnt h"]
  by (simp add: find_bucket_def is_power_of_2_def)

section \<open>Tables as multisets\<close>

definition elems :: "'e hash \<Rightarrow> 'e set" where
  "elems h = set (concat (buckets h))"

definition placed :: "'e hash \<Rightarrow> bool" where
  "placed h \<longleftrightarrow> is_power_of_2 (bucket_cnt h) \<and> length (buckets h) = unat (bucket_cnt h) \<and>
     (\<forall>i<length (buckets h). \<forall>e\<in>set (buckets h ! i). find_bucket h e = i)"

definition hash_ok :: "'e hash \<Rightarrow> bool" where
  "hash_ok h \<longleftrightarrow> placed h \<and> distinct (concat (buckets h)) \<and>
     helem_cnt h = of_nat (length (concat (buckets h))) \<and>
     (\<forall>a\<in>elems h. \<forall>b\<in>elems h. eqv (less_fn h) a b \<longrightarrow> a = b)"

lemma mset_concat_push:
  "i < length xss \<Longrightarrow> mset (concat (xss[i := e # xss ! i])) = add_mset e (mset (concat xss))"
  by (induction xss arbitrary: i) (auto split: nat.splits)

lemma mset_concat_remove:
  "distinct (concat xss) \<Longrightarrow> mset (concat (map (remove1 e) xss)) = mset (concat xss) - {#e#}"
proof (induction xss)
  case (Cons xs xss)
  show ?case
  proof (cases "e \<in> set xs")
    case True
    then have "e \<notin> set (concat xss)" using Cons.prems by auto
    then have "map (remove1 e) xss = xss" by (induction xss) (auto simp: remove1_idem)
    with True show ?thesis by simp
  next
    case False
    then have c: "count (mset xs) e = 0" by (simp add: count_eq_zero_iff)
    show ?thesis using Cons False by (simp add: remove1_idem multiset_eq_iff c)
  qed
qed simp

lemma find_bucket_buckets [simp]:
  "find_bucket (h\<lparr>buckets := bs\<rparr>) = find_bucket h" "find_bucket (h\<lparr>helem_cnt := c\<rparr>) = find_bucket h"
  by (simp_all add: find_bucket_def fun_eq_iff)

lemma push_bucket_run:
  assumes "placed h"
  shows "\<exists>h'. push_bucket h (find_bucket h e) e = Some h' \<and> placed h' \<and>
     mset (concat (buckets h')) = add_mset e (mset (concat (buckets h))) \<and>
     helem_cnt h' = helem_cnt h \<and> less_fn h' = less_fn h \<and> hash_fn h' = hash_fn h \<and>
     bucket_cnt h' = bucket_cnt h"
proof -
  have b: "find_bucket h e < length (buckets h)"
    using assms find_bucket_less [of h e] by (simp add: placed_def)
  let ?h = "h\<lparr>buckets := (buckets h)[find_bucket h e := e # buckets h ! find_bucket h e]\<rparr>"
  have "push_bucket h (find_bucket h e) e = Some ?h"
    using b by (simp add: push_bucket_def)
  moreover have "placed ?h" using assms b by (auto simp: placed_def nth_list_update)
  ultimately show ?thesis using mset_concat_push [OF b, of e] by simp
qed

lemma move_elems_run:
  "placed h \<Longrightarrow> \<exists>h'. move_elems h es = Some h' \<and> placed h' \<and>
     mset (concat (buckets h')) = mset (concat (buckets h)) + mset es \<and>
     helem_cnt h' = helem_cnt h \<and> less_fn h' = less_fn h \<and> hash_fn h' = hash_fn h"
proof (induction es arbitrary: h)
  case (Cons e es)
  from push_bucket_run [OF Cons.prems, of e] obtain h1 where h1:
    "push_bucket h (find_bucket h e) e = Some h1" "placed h1"
    "mset (concat (buckets h1)) = add_mset e (mset (concat (buckets h)))"
    "helem_cnt h1 = helem_cnt h" "less_fn h1 = less_fn h" "hash_fn h1 = hash_fn h" by blast
  from Cons.IH [OF h1(2)] h1 show ?case by auto
qed simp

text \<open>Rehashing never fails and keeps the elements, whether or not memory is available.\<close>

lemma rehash_run:
  assumes "placed h"
  shows "\<exists>h'. rehash mem h = Some h' \<and> placed h' \<and> mset (concat (buckets h')) = mset (concat (buckets h)) \<and>
     helem_cnt h' = helem_cnt h \<and> less_fn h' = less_fn h \<and> hash_fn h' = hash_fn h"
proof -
  define n0 where "n0 = (if helem_cnt h div 2 < 4 then 4 else helem_cnt h div 2)"
  have "n0 \<noteq> 0" by (auto simp: n0_def)
  then obtain n where n: "round_down_power n0 = Some n" "is_power_of_2 n"
    using round_down_power_run by blast
  define h0 where "h0 = h\<lparr>buckets := replicate (unat n) [], bucket_cnt := n\<rparr>"
  have "placed h0" using n(2) by (simp add: placed_def h0_def)
  from move_elems_run [OF this, of "concat (take (unat (bucket_cnt h)) (buckets h))"]
  obtain h' where h': "move_elems h0 (concat (take (unat (bucket_cnt h)) (buckets h))) = Some h'"
    "placed h'" "mset (concat (buckets h')) = mset (concat (buckets h))"
    "helem_cnt h' = helem_cnt h" "less_fn h' = less_fn h" "hash_fn h' = hash_fn h"
    using assms by (auto simp: h0_def placed_def)
  show ?thesis
    using assms h' n(1) unfolding rehash_def Let_def n0_def [symmetric] h0_def by auto
qed


section \<open>The contract of the callbacks\<close>

locale hash_contract = strict_weak_order less A
  for less :: "'a \<Rightarrow> 'a \<Rightarrow> bool" and A +
  fixes hf :: "'a \<Rightarrow> u32"
  assumes eqv_hash: "a \<in> A \<Longrightarrow> b \<in> A \<Longrightarrow> eqv less a b \<Longrightarrow> hf a = hf b"
begin

lemma eqv_sym: "eqv less a b \<longleftrightarrow> eqv less b a"
  by (auto simp: eqv_def)

lemma eqv_trans: "a \<in> A \<Longrightarrow> b \<in> A \<Longrightarrow> c \<in> A \<Longrightarrow> eqv less a b \<Longrightarrow> eqv less b c \<Longrightarrow> eqv less a c"
  unfolding eqv_def using negtrans by blast

end

text \<open>The sample hash functions of the file satisfy it, for keys compared by value.\<close>

interpretation hash_int_contract: hash_contract "\<lambda>a b :: u32. a < b" UNIV hash_int
  by unfold_locales (auto simp: eqv_def)

definition table_of :: "('e \<Rightarrow> 'e \<Rightarrow> bool) \<Rightarrow> ('e \<Rightarrow> u32) \<Rightarrow> 'e set \<Rightarrow> 'e hash \<Rightarrow> bool" where
  "table_of lt hf A h \<longleftrightarrow> hash_ok h \<and> less_fn h = lt \<and> hash_fn h = hf \<and> elems h \<subseteq> A"

lemma find_elem_run:
  assumes c: "hash_contract lt A hf" and t: "table_of lt hf A h" and e: "e \<in> A"
  shows "\<exists>r. find_elem h (find_bucket h e) e = Some r \<and>
     (case r of Some x \<Rightarrow> x \<in> elems h \<and> eqv lt x e | None \<Rightarrow> \<forall>x\<in>elems h. \<not> eqv lt x e)"
proof -
  let ?b = "find_bucket h e"
  have p: "placed h" "less_fn h = lt" "hash_fn h = hf" "elems h \<subseteq> A"
    using t by (auto simp: table_of_def hash_ok_def)
  have b: "?b < length (buckets h)" using p(1) find_bucket_less [of h e] by (simp add: placed_def)
  have home: "x \<in> set (buckets h ! ?b)" if x: "x \<in> elems h" "eqv lt x e" for x
  proof -
    from x(1) obtain i where i: "i < length (buckets h)" "x \<in> set (buckets h ! i)"
      by (auto simp: elems_def) (metis in_set_conv_nth)
    then have "find_bucket h x = i" using p(1) by (simp add: placed_def)
    moreover have "hf x = hf e"
      using hash_contract.eqv_hash [OF c _ e x(2)] x(1) p(4) by blast
    ultimately show ?thesis using i p(3) by (simp add: find_bucket_def)
  qed
  have sub: "set (buckets h ! ?b) \<subseteq> elems h" using nth_mem [OF b] unfolding elems_def set_concat by blast
  show ?thesis
  proof (cases "List.find (\<lambda>hi. \<not> lt hi e \<and> \<not> lt e hi) (buckets h ! ?b)")
    case None
    then have "\<forall>x\<in>set (buckets h ! ?b). \<not> eqv lt x e" by (auto simp: find_None_iff eqv_def)
    then show ?thesis using None b p home by (auto simp: find_elem_def)
  next
    case (Some x)
    then have "x \<in> set (buckets h ! ?b)" "eqv lt x e"
      by (auto simp: find_Some_iff eqv_def)
    then show ?thesis using Some b p sub by (auto simp: find_elem_def)
  qed
qed

lemma elems_mset: "elems h = set_mset (mset (concat (buckets h)))"
  by (simp only: elems_def set_mset_mset)

lemma rehash_table:
  assumes t: "table_of lt hf A h"
  shows "\<exists>h'. rehash mem h = Some h' \<and> table_of lt hf A h' \<and> elems h' = elems h"
proof -
  have "placed h" using t by (simp add: table_of_def hash_ok_def)
  from rehash_run [OF this, of mem] obtain h' where h': "rehash mem h = Some h'" "placed h'"
    "mset (concat (buckets h')) = mset (concat (buckets h))" "helem_cnt h' = helem_cnt h"
    "less_fn h' = less_fn h" "hash_fn h' = hash_fn h" by blast
  have e: "elems h' = elems h" unfolding elems_mset h'(3) ..
  moreover have "distinct (concat (buckets h')) = distinct (concat (buckets h))"
    using h'(3) by (rule mset_eq_imp_distinct_iff)
  moreover have "length (concat (buckets h')) = length (concat (buckets h))"
    using h'(3) by (rule mset_eq_length)
  ultimately have "table_of lt hf A h'" using t h' by (simp add: table_of_def hash_ok_def)
  with h'(1) e show ?thesis by blast
qed

lemma insert_elem_table:
  assumes t: "table_of lt hf A h" and e: "e \<in> A" "\<forall>x\<in>elems h. \<not> eqv lt x e"
    and c: "hash_contract lt A hf"
  shows "\<exists>h'. insert_elem h (find_bucket h e) e = Some h' \<and> table_of lt hf A h' \<and>
     elems h' = insert e (elems h)"
proof -
  let ?h = "h\<lparr>helem_cnt := helem_cnt h + 1\<rparr>"
  have t': "placed h" "distinct (concat (buckets h))" "helem_cnt h = of_nat (length (concat (buckets h)))"
    "\<forall>a\<in>elems h. \<forall>b\<in>elems h. eqv lt a b \<longrightarrow> a = b" "less_fn h = lt" "hash_fn h = hf" "elems h \<subseteq> A"
    using t by (simp_all add: table_of_def hash_ok_def)
  have "placed ?h" using t'(1) by (simp add: placed_def)
  from push_bucket_run [OF this, of e] obtain h' where h':
    "insert_elem h (find_bucket h e) e = Some h'" "placed h'"
    "mset (concat (buckets h')) = add_mset e (mset (concat (buckets h)))"
    "helem_cnt h' = helem_cnt h + 1" "less_fn h' = lt" "hash_fn h' = hf"
    using t' by (auto simp: insert_elem_def)
  have el: "elems h' = insert e (elems h)" unfolding elems_mset h'(3) by simp
  have "eqv lt e e" using strict_weak_order.irrefl [OF hash_contract.axioms(1) [OF c] e(1)]
    by (simp add: eqv_def)
  then have "e \<notin> elems h" using e(2) by blast
  moreover have "mset (concat (buckets h')) = mset (e # concat (buckets h))" using h'(3) by simp
  ultimately have "distinct (concat (buckets h'))" "length (concat (buckets h')) = Suc (length (concat (buckets h)))"
    using t'(2) mset_eq_imp_distinct_iff [of "concat (buckets h')"] mset_eq_length [of "concat (buckets h')"]
    by (fastforce simp: elems_def)+
  moreover have "\<forall>a\<in>elems h'. \<forall>b\<in>elems h'. eqv lt a b \<longrightarrow> a = b"
    unfolding el using t'(4) e(2) hash_contract.eqv_sym [OF c] by blast
  ultimately have "table_of lt hf A h'"
    using h' t' el e(1) by (simp add: table_of_def hash_ok_def)
  with h'(1) el show ?thesis by blast
qed

lemma remove_elem_table:
  assumes t: "table_of lt hf A h" and x: "x \<in> elems h"
  shows "table_of lt hf A (remove_elem h x) \<and> elems (remove_elem h x) = elems h - {x}"
proof -
  let ?h = "remove_elem h x"
  have t': "placed h" "distinct (concat (buckets h))" "helem_cnt h = of_nat (length (concat (buckets h)))"
    "\<forall>a\<in>elems h. \<forall>b\<in>elems h. eqv lt a b \<longrightarrow> a = b" "less_fn h = lt" "hash_fn h = hf" "elems h \<subseteq> A"
    using t by (simp_all add: table_of_def hash_ok_def)
  have m: "mset (concat (buckets ?h)) = mset (concat (buckets h)) - {#x#}"
    using mset_concat_remove [OF t'(2)] by (simp add: remove_elem_def)
  have "placed ?h" using t'(1) notin_set_remove1
    by (fastforce simp: placed_def remove_elem_def find_bucket_def)
  moreover have rm: "mset (concat (buckets ?h)) = mset (remove1 x (concat (buckets h)))"
    using m by simp
  ultimately have "placed ?h" "distinct (concat (buckets ?h))"
    "length (concat (buckets ?h)) = length (concat (buckets h)) - 1"
    "elems ?h = elems h - {x}"
    using mset_eq_imp_distinct_iff [OF rm] mset_eq_length [OF rm] mset_eq_setD [OF rm] t'(2) x
    by (simp_all add: length_remove1 elems_def)
  moreover have "(of_nat (length (concat (buckets h)) - 1) :: u32) = of_nat (length (concat (buckets h))) - 1"
    using length_pos_if_in_set [OF x [unfolded elems_def]] by (subst of_nat_diff) (simp_all add: Suc_leI)
  moreover have "helem_cnt ?h = helem_cnt h - 1" "less_fn ?h = less_fn h" "hash_fn ?h = hash_fn h"
    by (simp_all add: remove_elem_def)
  ultimately show ?thesis using t' unfolding table_of_def hash_ok_def by auto
qed


section \<open>Iteration\<close>

text \<open>The sequence of elements \<open>hash_next\<close> returns, until it returns a null pointer.\<close>

fun iterate :: "nat \<Rightarrow> 'e hash_iterator \<Rightarrow> 'e list" where
  "iterate 0 i = []"
| "iterate (Suc n) i = (case hash_next i of (None, i') \<Rightarrow> [] | (Some e, i') \<Rightarrow> e # iterate n i')"

definition remaining :: "'e hash_iterator \<Rightarrow> 'e list" where
  "remaining i = drop (it_pos i) (buckets (it_hash i) ! it_bucket i) @
     concat (drop (Suc (it_bucket i)) (buckets (it_hash i)))"

lemma hash_next_loop_run:
  assumes "\<not> it_null i" "it_bucket i < length (buckets (it_hash i))"
    "length (buckets (it_hash i)) = unat (bucket_cnt (it_hash i))"
    "0 < it_pos i" "it_pos i \<le> Suc (length (buckets (it_hash i) ! it_bucket i))"
  shows "let i' = hash_next_loop i; r = drop (it_pos i - 1) (buckets (it_hash i) ! it_bucket i) @
        concat (drop (Suc (it_bucket i)) (buckets (it_hash i))) in
     if r = [] then it_null i'
     else it_hash i' = it_hash i \<and> \<not> it_null i' \<and> it_bucket i' < length (buckets (it_hash i)) \<and>
       0 < it_pos i' \<and> it_pos i' \<le> length (buckets (it_hash i) ! it_bucket i') \<and>
       r = hd r # remaining i' \<and> hash_cur i' = Some (hd r)"
  using assms
proof (induction i rule: hash_next_loop.induct)
  case (1 i)
  let ?bs = "buckets (it_hash i)"
  show ?case
  proof (cases "it_pos i = Suc (length (?bs ! it_bucket i))")
    case False
    then have p: "it_pos i - 1 < length (?bs ! it_bucket i)" using 1 by simp
    then have "drop (it_pos i - 1) (?bs ! it_bucket i) =
        ?bs ! it_bucket i ! (it_pos i - 1) # drop (it_pos i) (?bs ! it_bucket i)"
      using 1(5) by (metis Cons_nth_drop_Suc Suc_diff_1)
    moreover have "hash_next_loop i = i" using False by (subst hash_next_loop.simps) simp
    ultimately show ?thesis using 1 p by (simp add: Let_def remaining_def hash_cur_def)
  next
    case True
    show ?thesis
    proof (cases "Suc (it_bucket i) \<ge> unat (bucket_cnt (it_hash i))")
      case last: True
      then have "it_null (hash_next_loop i)" using True 1 by (subst hash_next_loop.simps) simp
      then show ?thesis using True last 1 by (simp add: Let_def)
    next
      case False
      let ?i = "i\<lparr>it_bucket := Suc (it_bucket i), it_pos := 1\<rparr>"
      have r: "hash_next_loop i = hash_next_loop ?i"
        using True False 1 by (subst hash_next_loop.simps) simp
      have c: "concat (drop (Suc (it_bucket i)) ?bs) =
          ?bs ! Suc (it_bucket i) @ concat (drop (Suc (Suc (it_bucket i))) ?bs)"
        using False 1(4) by (metis Cons_nth_drop_Suc concat.simps(2) not_le)
      have f: "it_hash ?i = it_hash i" "it_bucket ?i = Suc (it_bucket i)" "it_pos ?i = 1"
        "it_null ?i = it_null i" by simp_all
      note IH = 1(1) [unfolded f]
      have d: "drop (it_pos i - 1) (?bs ! it_bucket i) = []" using True by simp
      show ?thesis unfolding r c d
        using IH True False 1(2-5) by (simp only: diff_self_eq_0 drop_0 append_Nil) simp
    qed
  qed
qed


lemma hash_next_run:
  assumes "\<not> it_null i" "it_bucket i < length (buckets (it_hash i))"
    "length (buckets (it_hash i)) = unat (bucket_cnt (it_hash i))"
    "it_pos i \<le> length (buckets (it_hash i) ! it_bucket i)"
  shows "case remaining i of
     [] \<Rightarrow> fst (hash_next i) = None
   | e # es \<Rightarrow> fst (hash_next i) = Some e \<and> remaining (snd (hash_next i)) = es \<and>
       it_hash (snd (hash_next i)) = it_hash i \<and> \<not> it_null (snd (hash_next i)) \<and>
       it_bucket (snd (hash_next i)) < length (buckets (it_hash i)) \<and>
       it_pos (snd (hash_next i)) \<le> length (buckets (it_hash i) ! it_bucket (snd (hash_next i)))"
proof -
  let ?i = "i\<lparr>it_pos := Suc (it_pos i)\<rparr>"
  define i' where "i' = hash_next_loop ?i"
  have f: "it_hash ?i = it_hash i" "it_bucket ?i = it_bucket i" "it_pos ?i = Suc (it_pos i)"
    "it_null ?i = it_null i" "Suc (it_pos i) - 1 = it_pos i" by simp_all
  have n: "hash_next i = (hash_cur i', i')" by (simp add: hash_next_def i'_def Let_def)
  have "if remaining i = [] then it_null i'
     else it_hash i' = it_hash i \<and> \<not> it_null i' \<and> it_bucket i' < length (buckets (it_hash i)) \<and>
       0 < it_pos i' \<and> it_pos i' \<le> length (buckets (it_hash i) ! it_bucket i') \<and>
       remaining i = hd (remaining i) # remaining i' \<and> hash_cur i' = Some (hd (remaining i))"
    using hash_next_loop_run [of ?i, unfolded f, folded i'_def remaining_def, unfolded Let_def] assms
    by simp
  then show ?thesis unfolding n by (cases "remaining i") (simp add: hash_cur_def, simp)
qed

lemma iterate_run:
  "\<not> it_null i \<Longrightarrow> it_bucket i < length (buckets (it_hash i)) \<Longrightarrow>
   length (buckets (it_hash i)) = unat (bucket_cnt (it_hash i)) \<Longrightarrow>
   it_pos i \<le> length (buckets (it_hash i) ! it_bucket i) \<Longrightarrow>
   length (remaining i) < n \<Longrightarrow> iterate n i = remaining i"
proof (induction n arbitrary: i)
  case (Suc n)
  show ?case
  proof (cases "remaining i")
    case Nil
    then show ?thesis
      using hash_next_run [OF Suc.prems(1-4)] by (cases "hash_next i") simp
  next
    case (Cons e es)
    then show ?thesis
      using hash_next_run [OF Suc.prems(1-4)] Suc.IH [of "snd (hash_next i)"] Suc.prems
      by (cases "hash_next i") simp
  qed
qed simp

section \<open>Properties\<close>


definition demo_table :: "u32 hash" where
  "demo_table = hash_clear \<lparr>helem_cnt = 0, bucket_cnt = 4, buckets = [],
     hash_fn = hash_int, less_fn = (\<lambda>a b. a < b)\<rparr>"

lemma demo_table_ok: "table_of (\<lambda>a b. a < b) hash_int UNIV demo_table" "elems demo_table = {}"
  by (auto simp: table_of_def demo_table_def hash_clear_def hash_ok_def placed_def elems_def
      is_power_of_2_def turn_off_least_1bit_def)


text \<open>
  C7.  After \<open>hash_delete\<close> the table holds no element equal to the key, every other element is still
  there, and the result is the removed element or a null pointer if there was none.
\<close>

theorem hash_delete_correct:
  assumes c: "hash_contract lt A hf" and t: "table_of lt hf A h" and e: "e \<in> A"
  shows "\<exists>r h'. hash_delete mem h e = Some (r, h') \<and> table_of lt hf A h' \<and>
     elems h' = {x \<in> elems h. \<not> eqv lt x e} \<and>
     (case r of Some x \<Rightarrow> x \<in> elems h \<and> eqv lt x e | None \<Rightarrow> \<forall>x\<in>elems h. \<not> eqv lt x e)"
proof -
  from find_elem_run [OF c t e] obtain r where r: "find_elem h (find_bucket h e) e = Some r"
    "case r of Some x \<Rightarrow> x \<in> elems h \<and> eqv lt x e | None \<Rightarrow> \<forall>x\<in>elems h. \<not> eqv lt x e" by blast
  show ?thesis
  proof (cases r)
    case None
    then show ?thesis using r t by (auto simp: hash_delete_def)
  next
    case (Some x)
    then have x: "x \<in> elems h" "eqv lt x e" using r(2) by auto
    have A: "elems h \<subseteq> A" and u: "\<forall>a\<in>elems h. \<forall>b\<in>elems h. eqv lt a b \<longrightarrow> a = b"
      using t by (auto simp: table_of_def hash_ok_def)
    have "y = x" if "y \<in> elems h" "eqv lt y e" for y
    proof -
      have "eqv lt e x" using x(2) hash_contract.eqv_sym [OF c] by blast
      then have "eqv lt y x" using hash_contract.eqv_trans [OF c] that x A e by blast
      then show ?thesis using u that x by blast
    qed
    then have "elems h - {x} = {x \<in> elems h. \<not> eqv lt x e}" using x by blast
    moreover from remove_elem_table [OF t x(1)] have
      "table_of lt hf A (remove_elem h x)" "elems (remove_elem h x) = elems h - {x}" by auto
    ultimately show ?thesis
      using rehash_table [of lt hf A "remove_elem h x" mem] r Some x by (auto simp: hash_delete_def)
  qed
qed

theorem hash_delete_correct_witness:
  "\<exists>h'. hash_delete (\<lambda>sz. True) demo_table 7 = Some (None, h') \<and> elems h' = {}"
  using hash_delete_correct [OF hash_int_contract.hash_contract_axioms demo_table_ok(1) UNIV_I]
    demo_table_ok(2) by (fastforce split: option.splits)

text \<open>
  C8.  An iteration with \<open>hash_first\<close> and \<open>hash_next\<close> visits the elements of the table, each exactly
  once, and then returns a null pointer.
\<close>

theorem hash_iteration_complete:
  assumes "hash_ok h" "length (concat (buckets h)) < n"
  shows "set (iterate n (hash_first h)) = elems h \<and> distinct (iterate n (hash_first h))"
proof -
  have h: "placed h" "distinct (concat (buckets h))" using assms(1) by (auto simp: hash_ok_def)
  then have ne: "buckets h \<noteq> []" by (auto simp: placed_def is_power_of_2_def unat_eq_0)
  then have "remaining (hash_first h) = concat (buckets h)"
    by (cases "buckets h") (auto simp: remaining_def hash_first_def)
  moreover have "iterate n (hash_first h) = remaining (hash_first h)"
    using h ne assms(2) calculation
    by (intro iterate_run) (auto simp: hash_first_def placed_def simp flip: length_greater_0_conv)
  ultimately show ?thesis using h(2) by (simp add: elems_def)
qed

theorem hash_iteration_complete_witness: "set (iterate 1 (hash_first demo_table)) = {}"
proof -
  have "hash_ok demo_table" using demo_table_ok(1) by (simp add: table_of_def)
  moreover have "length (concat (buckets demo_table)) < 1" using demo_table_ok(2)
    by (simp add: elems_def)
  ultimately show ?thesis using hash_iteration_complete [of demo_table 1] demo_table_ok(2) by simp
qed

end
