(* ===== verification/Thread.thy ===== *)
theory Thread
  imports Prelude
begin

text \<open>
  The threads and the scheduler of \<open>threads/thread.c\<close>, and the interrupt level of
  \<open>threads/interrupt.c\<close>.  A kernel state holds the thread pages, the run queue, the list of all
  threads, the thread whose stack the CPU is on, the interrupt flag, and the kernel objects of
  \<open>threads/synch.c\<close>.  The lists are the sequences of their elements, justified by the list theory.
  What a suspended thread still has to execute of the kernel primitive it is in is its stack
  of pending actions \<open>conts\<close>; a context switch changes \<open>cur\<close> and leaves the others' stacks alone.
\<close>

section \<open>State\<close>

datatype thread_status = THREAD_RUNNING | THREAD_READY | THREAD_BLOCKED | THREAD_DYING

record thread =
  tid :: int
  status :: thread_status
  name :: string
  stack :: nat
  priority :: int
  pagedir :: bool
  magic :: u32

text \<open>
  Pending actions of a thread: the rest of \<open>sema_down\<close> (its loop, with the interrupt level to
  restore), of \<open>lock_acquire\<close> after the semaphore, calls that are still to be made by
  \<open>lock_release\<close>, \<open>cond_wait\<close>, \<open>cond_broadcast\<close> and \<open>thread_create\<close>, the restoring of the interrupt level, the first
  activation of a thread, and the loop of the idle thread.
\<close>

datatype frame =
    DownLoop nat bool | Down nat | SemaUp nat
  | Acquire nat | SetHolder nat | Release nat
  | Broadcast nat nat
  | SetLevel bool
  | TakeTid nat | StoreTid nat int | FinishCreate nat
  | KernelThread | IdleLoop

record kernel =
  threads :: "nat \<Rightarrow> thread option"
  ready_list :: "nat list"
  all_list :: "nat list"
  idle_thread :: nat
  initial_thread :: nat
  cur :: nat
  conts :: "nat \<Rightarrow> frame list"
  intr_on :: bool
  in_external_intr :: bool
  yield_on_return :: bool
  thread_ticks :: u32
  idle_ticks :: int
  kernel_ticks :: int
  user_ticks :: int
  next_tid :: int
  sema_value :: "nat \<Rightarrow> u32"
  sema_waiters :: "nat \<Rightarrow> nat list"
  lock_holder :: "nat \<Rightarrow> nat"
  cond_waiters :: "nat \<Rightarrow> nat list"

abbreviation THREAD_MAGIC :: u32 where
  "THREAD_MAGIC \<equiv> 0xcd6abf4b"

abbreviation TIME_SLICE :: u32 where
  "TIME_SLICE \<equiv> 4"

abbreviation PRI_MIN :: int where "PRI_MIN \<equiv> 0"
abbreviation PRI_MAX :: int where "PRI_MAX \<equiv> 63"

definition set_thread :: "kernel \<Rightarrow> nat \<Rightarrow> (thread \<Rightarrow> thread) \<Rightarrow> kernel" where
  "set_thread k t f = k\<lparr>threads := (threads k)(t := map_option f (threads k t))\<rparr>"

abbreviation set_status :: "kernel \<Rightarrow> nat \<Rightarrow> thread_status \<Rightarrow> kernel" where
  "set_status k t s \<equiv> set_thread k t (\<lambda>th. th\<lparr>status := s\<rparr>)"

definition push_conts :: "kernel \<Rightarrow> frame list \<Rightarrow> kernel" where
  "push_conts k fs = k\<lparr>conts := (conts k)(cur k := fs @ conts k (cur k))\<rparr>"

section \<open>The interrupt level\<close>

definition intr_context :: "kernel \<Rightarrow> bool" where
  "intr_context k = in_external_intr k"

definition intr_enable :: "kernel \<Rightarrow> kernel option" where
  "intr_enable k = do { ASSERT (\<not> intr_context k); Some (k\<lparr>intr_on := True\<rparr>) }"

definition intr_disable :: "kernel \<Rightarrow> kernel" where
  "intr_disable k = k\<lparr>intr_on := False\<rparr>"

definition intr_set_level :: "kernel \<Rightarrow> bool \<Rightarrow> kernel option" where
  "intr_set_level k level = (if level then intr_enable k else Some (intr_disable k))"

definition intr_yield_on_return :: "kernel \<Rightarrow> kernel option" where
  "intr_yield_on_return k = do { ASSERT (intr_context k); Some (k\<lparr>yield_on_return := True\<rparr>) }"

section \<open>Threads\<close>

definition running_thread :: "kernel \<Rightarrow> nat" where
  "running_thread k = cur k"

definition is_thread :: "kernel \<Rightarrow> nat \<Rightarrow> bool" where
  "is_thread k t \<longleftrightarrow> t \<noteq> NULL \<and> (case threads k t of Some th \<Rightarrow> magic th = THREAD_MAGIC | None \<Rightarrow> False)"

definition thread_current :: "kernel \<Rightarrow> nat option" where
  "thread_current k = do {
     let t = running_thread k;
     ASSERT (is_thread k t);
     th \<leftarrow> threads k t;
     ASSERT (status th = THREAD_RUNNING);
     Some t
   }"

definition next_thread_to_run :: "kernel \<Rightarrow> nat \<times> kernel" where
  "next_thread_to_run k =
     (if ready_list k = [] then (idle_thread k, k)
      else (hd (ready_list k), k\<lparr>ready_list := tl (ready_list k)\<rparr>))"

definition thread_schedule_tail :: "kernel \<Rightarrow> nat \<Rightarrow> kernel option" where
  "thread_schedule_tail k prev = do {
     let c = running_thread k;
     ASSERT (\<not> intr_on k);
     let k = set_status k c THREAD_RUNNING;
     let k = k\<lparr>thread_ticks := 0\<rparr>;
     if prev \<noteq> NULL then do {
       p \<leftarrow> threads k prev;
       if status p = THREAD_DYING \<and> prev \<noteq> initial_thread k then do {
         ASSERT (prev \<noteq> c);
         Some (k\<lparr>threads := (threads k)(prev := None)\<rparr>)
       } else Some k
     } else Some k
   }"

text \<open>\<open>switch_threads\<close> makes \<open>next\<close> the running thread; what follows it in \<open>schedule\<close> runs on its stack.\<close>

definition schedule :: "kernel \<Rightarrow> kernel option" where
  "schedule k = do {
     let c = running_thread k;
     let (nxt, k) = next_thread_to_run k;
     ASSERT (\<not> intr_on k);
     th \<leftarrow> threads k c;
     ASSERT (status th \<noteq> THREAD_RUNNING);
     ASSERT (is_thread k nxt);
     if c \<noteq> nxt then thread_schedule_tail (k\<lparr>cur := nxt\<rparr>) c else thread_schedule_tail k NULL
   }"

definition thread_block :: "kernel \<Rightarrow> kernel option" where
  "thread_block k = do {
     ASSERT (\<not> intr_context k);
     ASSERT (\<not> intr_on k);
     c \<leftarrow> thread_current k;
     schedule (set_status k c THREAD_BLOCKED)
   }"

definition thread_unblock :: "kernel \<Rightarrow> nat \<Rightarrow> kernel option" where
  "thread_unblock k t = do {
     ASSERT (is_thread k t);
     let old_level = intr_on k;
     let k = intr_disable k;
     th \<leftarrow> threads k t;
     ASSERT (status th = THREAD_BLOCKED);
     let k = k\<lparr>ready_list := ready_list k @ [t]\<rparr>;
     let k = set_status k t THREAD_READY;
     intr_set_level k old_level
   }"

definition thread_yield :: "kernel \<Rightarrow> kernel option" where
  "thread_yield k = do {
     c \<leftarrow> thread_current k;
     ASSERT (\<not> intr_context k);
     let old_level = intr_on k;
     let k = intr_disable k;
     let k = (if c \<noteq> idle_thread k then k\<lparr>ready_list := ready_list k @ [c]\<rparr> else k);
     let k = set_status k c THREAD_READY;
     schedule (push_conts k [SetLevel old_level])
   }"

definition thread_exit :: "kernel \<Rightarrow> kernel option" where
  "thread_exit k = do {
     ASSERT (\<not> intr_context k);
     let k = intr_disable k;
     c \<leftarrow> thread_current k;
     let k = k\<lparr>all_list := remove1 c (all_list k)\<rparr>;
     schedule (set_status k c THREAD_DYING)
   }"

definition thread_tick :: "kernel \<Rightarrow> kernel option" where
  "thread_tick k = do {
     t \<leftarrow> thread_current k;
     th \<leftarrow> threads k t;
     let k = (if t = idle_thread k then k\<lparr>idle_ticks := idle_ticks k + 1\<rparr>
              else if pagedir th then k\<lparr>user_ticks := user_ticks k + 1\<rparr>
              else k\<lparr>kernel_ticks := kernel_ticks k + 1\<rparr>);
     let k = k\<lparr>thread_ticks := thread_ticks k + 1\<rparr>;
     if thread_ticks k \<ge> TIME_SLICE then intr_yield_on_return k else Some k
   }"

definition init_thread :: "kernel \<Rightarrow> nat \<Rightarrow> string \<Rightarrow> int \<Rightarrow> kernel option" where
  "init_thread k t nm pri = do {
     ASSERT (t \<noteq> NULL);
     ASSERT (PRI_MIN \<le> pri \<and> pri \<le> PRI_MAX);
     let k = k\<lparr>threads := (threads k)(t \<mapsto>
       \<lparr>tid = 0, status = THREAD_BLOCKED, name = take 15 nm, stack = t + 4096, priority = pri,
        pagedir = False, magic = THREAD_MAGIC\<rparr>)\<rparr>;
     let old_level = intr_on k;
     let k = intr_disable k;
     let k = k\<lparr>all_list := all_list k @ [t]\<rparr>;
     intr_set_level k old_level
   }"

definition alloc_frame :: "kernel \<Rightarrow> nat \<Rightarrow> nat \<Rightarrow> kernel option" where
  "alloc_frame k t sz = do {
     ASSERT (is_thread k t);
     ASSERT (sz mod 4 = 0);
     Some (set_thread k t (\<lambda>th. th\<lparr>stack := stack th - sz\<rparr>))
   }"

abbreviation tid_lock :: nat where
  "tid_lock \<equiv> 4"

text \<open>
  \<open>thread_create\<close>: \<open>page\<close> is the result of \<open>palloc_get_page\<close>.  The call of \<open>allocate_tid\<close> acquires
  \<open>tid_lock\<close> and may sleep, so that what follows it is left pending.
\<close>

definition thread_create :: "kernel \<Rightarrow> nat option \<Rightarrow> string \<Rightarrow> int \<Rightarrow> kernel option" where
  "thread_create k page nm pri =
     (case page of
        None \<Rightarrow> Some k
      | Some t \<Rightarrow> do {
          k \<leftarrow> init_thread k t nm pri;
          Some (push_conts k [Acquire tid_lock, TakeTid t, FinishCreate t])
        })"

definition allocate_tid :: "kernel \<Rightarrow> nat \<Rightarrow> kernel" where
  "allocate_tid k t =
     push_conts (k\<lparr>next_tid := next_tid k + 1\<rparr>) [Release tid_lock, StoreTid t (next_tid k)]"

text \<open>The end of \<open>thread_create\<close>: the three stack frames, and the run queue.\<close>

definition finish_create :: "kernel \<Rightarrow> nat \<Rightarrow> kernel option" where
  "finish_create k t = do {
     k \<leftarrow> alloc_frame k t 12;
     k \<leftarrow> alloc_frame k t 4;
     k \<leftarrow> alloc_frame k t 28;
     thread_unblock (k\<lparr>conts := (conts k)(t := [KernelThread])\<rparr>) t
   }"

definition thread_foreach_calls :: "kernel \<Rightarrow> nat list option" where
  "thread_foreach_calls k = do { ASSERT (\<not> intr_on k); Some (all_list k) }"

definition thread_set_priority :: "kernel \<Rightarrow> int \<Rightarrow> kernel option" where
  "thread_set_priority k p = do {
     c \<leftarrow> thread_current k; Some (set_thread k c (\<lambda>th. th\<lparr>priority := p\<rparr>)) }"

definition thread_get_priority :: "kernel \<Rightarrow> int option" where
  "thread_get_priority k = do { c \<leftarrow> thread_current k; th \<leftarrow> threads k c; Some (priority th) }"

definition thread_tid :: "kernel \<Rightarrow> int option" where
  "thread_tid k = do { c \<leftarrow> thread_current k; th \<leftarrow> threads k c; Some (tid th) }"

text \<open>
  An external interrupt, as \<open>intr_handler\<close> processes it: the CPU turns interrupts off, the handler
  runs in interrupt context, and on the way out the thread may be preempted.  Returning from the
  interrupt turns interrupts on again, which is left pending for the interrupted thread.
\<close>

definition intr_handler :: "kernel \<Rightarrow> (kernel \<Rightarrow> kernel option) \<Rightarrow> kernel option" where
  "intr_handler k handler = do {
     let k = k\<lparr>intr_on := False\<rparr>;
     ASSERT (\<not> intr_on k);
     ASSERT (\<not> intr_context k);
     let k = k\<lparr>in_external_intr := True, yield_on_return := False\<rparr>;
     k \<leftarrow> handler k;
     ASSERT (\<not> intr_on k);
     ASSERT (intr_context k);
     let k = push_conts (k\<lparr>in_external_intr := False\<rparr>) [SetLevel True];
     if yield_on_return k then thread_yield k else Some k
   }"


section \<open>The scheduler invariant\<close>

definition stat :: "kernel \<Rightarrow> nat \<Rightarrow> thread_status option" where
  "stat k t = map_option status (threads k t)"

text \<open>
  The queues agree with the thread states: the run queue holds exactly the ready threads other
  than the idle thread, each once; the list of all threads holds exactly those not dying.
\<close>

definition queues_ok :: "kernel \<Rightarrow> bool" where
  "queues_ok k \<longleftrightarrow>
     threads k (cur k) \<noteq> None \<and> threads k NULL = None \<and>
     (\<forall>t th. threads k t = Some th \<longrightarrow> magic th = THREAD_MAGIC) \<and>
     distinct (ready_list k) \<and>
     (\<forall>t. t \<in> set (ready_list k) \<longleftrightarrow> stat k t = Some THREAD_READY \<and> t \<noteq> idle_thread k) \<and>
     threads k (idle_thread k) \<noteq> None \<and> stat k (idle_thread k) \<noteq> Some THREAD_DYING \<and>
     distinct (all_list k) \<and>
     (\<forall>t. t \<in> set (all_list k) \<longleftrightarrow> threads k t \<noteq> None \<and> stat k t \<noteq> Some THREAD_DYING) \<and>
     (\<forall>t. stat k t = Some THREAD_DYING \<longrightarrow> t = cur k \<or> t = initial_thread k)"

definition sched_ok :: "kernel \<Rightarrow> bool" where
  "sched_ok k \<longleftrightarrow> queues_ok k \<and> (\<forall>t. stat k t = Some THREAD_RUNNING \<longleftrightarrow> t = cur k)"

definition next_thread :: "kernel \<Rightarrow> nat" where
  "next_thread k = (if ready_list k = [] then idle_thread k else hd (ready_list k))"

text \<open>The state \<open>schedule\<close> leaves behind.\<close>

definition switched :: "kernel \<Rightarrow> kernel" where
  "switched k = k\<lparr>cur := next_thread k, ready_list := tl (ready_list k), thread_ticks := 0,
     threads := (\<lambda>t. if t = next_thread k then map_option (\<lambda>th. th\<lparr>status := THREAD_RUNNING\<rparr>) (threads k t)
       else if t = cur k \<and> stat k t = Some THREAD_DYING \<and> t \<noteq> initial_thread k then None
       else threads k t)\<rparr>"

lemma set_thread_simps [simp]:
  "threads (set_thread k t f) = (threads k)(t := map_option f (threads k t))"
  "ready_list (set_thread k t f) = ready_list k" "all_list (set_thread k t f) = all_list k"
  "idle_thread (set_thread k t f) = idle_thread k" "initial_thread (set_thread k t f) = initial_thread k"
  "cur (set_thread k t f) = cur k" "conts (set_thread k t f) = conts k" "intr_on (set_thread k t f) = intr_on k"
  "in_external_intr (set_thread k t f) = in_external_intr k"
  "sema_value (set_thread k t f) = sema_value k" "sema_waiters (set_thread k t f) = sema_waiters k"
  "lock_holder (set_thread k t f) = lock_holder k" "cond_waiters (set_thread k t f) = cond_waiters k"
  "yield_on_return (set_thread k t f) = yield_on_return k"
  "thread_ticks (set_thread k t f) = thread_ticks k"
  "idle_ticks (set_thread k t f) = idle_ticks k"
  "kernel_ticks (set_thread k t f) = kernel_ticks k"
  "user_ticks (set_thread k t f) = user_ticks k"
  "next_tid (set_thread k t f) = next_tid k"
  by (simp_all add: set_thread_def)

lemma push_conts_simps [simp]:
  "threads (push_conts k fs) = threads k" "ready_list (push_conts k fs) = ready_list k"
  "all_list (push_conts k fs) = all_list k" "idle_thread (push_conts k fs) = idle_thread k"
  "initial_thread (push_conts k fs) = initial_thread k" "cur (push_conts k fs) = cur k"
  "intr_on (push_conts k fs) = intr_on k" "in_external_intr (push_conts k fs) = in_external_intr k"
  "conts (push_conts k fs) = (conts k)(cur k := fs @ conts k (cur k))"
  "sema_value (push_conts k fs) = sema_value k" "sema_waiters (push_conts k fs) = sema_waiters k"
  "lock_holder (push_conts k fs) = lock_holder k" "cond_waiters (push_conts k fs) = cond_waiters k"
  "yield_on_return (push_conts k fs) = yield_on_return k"
  "thread_ticks (push_conts k fs) = thread_ticks k"
  "idle_ticks (push_conts k fs) = idle_ticks k"
  "kernel_ticks (push_conts k fs) = kernel_ticks k"
  "user_ticks (push_conts k fs) = user_ticks k"
  "next_tid (push_conts k fs) = next_tid k"
  by (simp_all add: push_conts_def)

lemma stat_set_status [simp]:
  "stat (set_status k t s) = (stat k)(t := map_option (\<lambda>_. s) (threads k t))"
  by (auto simp: stat_def option.map_comp o_def fun_eq_iff)

lemma queues_okD:
  assumes "queues_ok k"
  shows "threads k (cur k) \<noteq> None" "threads k NULL = None"
    "threads k t = Some th \<Longrightarrow> magic th = THREAD_MAGIC" "distinct (ready_list k)"
    "t \<in> set (ready_list k) \<longleftrightarrow> stat k t = Some THREAD_READY \<and> t \<noteq> idle_thread k"
    "threads k (idle_thread k) \<noteq> None" "stat k (idle_thread k) \<noteq> Some THREAD_DYING"
    "distinct (all_list k)"
    "t \<in> set (all_list k) \<longleftrightarrow> threads k t \<noteq> None \<and> stat k t \<noteq> Some THREAD_DYING"
    "stat k t = Some THREAD_DYING \<Longrightarrow> t = cur k \<or> t = initial_thread k"
  using assms unfolding queues_ok_def by blast+

lemma next_thread_ok:
  assumes "queues_ok k"
  shows "threads k (next_thread k) \<noteq> None" "stat k (next_thread k) \<noteq> Some THREAD_DYING"
    "is_thread k (next_thread k)"
proof -
  have "threads k (next_thread k) \<noteq> None \<and> stat k (next_thread k) \<noteq> Some THREAD_DYING"
  proof (cases "ready_list k = []")
    case True
    then show ?thesis using queues_okD [OF assms] by (simp add: next_thread_def)
  next
    case False
    then have "stat k (hd (ready_list k)) = Some THREAD_READY"
      using queues_okD(5) [OF assms] hd_in_set by blast
    then show ?thesis using False by (auto simp: next_thread_def stat_def)
  qed
  moreover from this have "next_thread k \<noteq> NULL" using queues_okD(2) [OF assms] by metis
  ultimately show "threads k (next_thread k) \<noteq> None" "stat k (next_thread k) \<noteq> Some THREAD_DYING"
    "is_thread k (next_thread k)"
    using queues_okD(3) [OF assms] by (auto simp: is_thread_def split: option.splits)
qed

text \<open>With consistent queues and no running thread \<open>schedule\<close> never panics.\<close>

lemma schedule_run:
  assumes q: "queues_ok k" and r: "stat k (cur k) \<noteq> Some THREAD_RUNNING" and i: "\<not> intr_on k"
  shows "schedule k = Some (switched k)"
proof -
  let ?n = "next_thread k" and ?k = "k\<lparr>ready_list := tl (ready_list k)\<rparr>"
  have nt: "next_thread_to_run k = (?n, ?k)"
    by (cases k) (simp add: next_thread_to_run_def next_thread_def)
  obtain th where th: "threads k (cur k) = Some th" using queues_okD(1) [OF q] by blast
  then have st: "status th \<noteq> THREAD_RUNNING" using r by (simp add: stat_def)
  have isn: "is_thread ?k ?n" using next_thread_ok(3) [OF q] by (simp add: is_thread_def)
  have c: "cur k \<noteq> NULL" using queues_okD(1,2) [OF q] by metis
  show ?thesis
  proof (cases "cur k = ?n")
    case True
    have "schedule k = thread_schedule_tail ?k NULL"
      using True isn th st i by (simp add: schedule_def running_thread_def nt Let_def)
    then show ?thesis using True i
      by (simp add: thread_schedule_tail_def running_thread_def switched_def set_thread_def fun_upd_def Let_def)
         (auto simp: fun_eq_iff)
  next
    case False
    have "schedule k = thread_schedule_tail (?k\<lparr>cur := ?n\<rparr>) (cur k)"
      using False isn th st i by (simp add: schedule_def running_thread_def nt Let_def)
    then show ?thesis using False i th c
      by (auto simp: thread_schedule_tail_def running_thread_def switched_def set_thread_def Let_def
          stat_def fun_eq_iff)
  qed
qed

lemma stat_switched:
  "queues_ok k \<Longrightarrow> stat (switched k) t =
     (if t = next_thread k then Some THREAD_RUNNING
      else if t = cur k \<and> stat k t = Some THREAD_DYING \<and> t \<noteq> initial_thread k then None else stat k t)"
  using next_thread_ok(1) [of k] by (auto simp: switched_def stat_def)

lemma switched_ok:
  assumes q: "queues_ok k" and r: "\<forall>t. stat k t \<noteq> Some THREAD_RUNNING"
  shows "sched_ok (switched k)"
proof -
  note s = stat_switched [OF q]
  have f: "cur (switched k) = next_thread k" "ready_list (switched k) = tl (ready_list k)"
    "all_list (switched k) = all_list k" "idle_thread (switched k) = idle_thread k"
    "initial_thread (switched k) = initial_thread k"
    by (simp_all add: switched_def)
  have dom: "threads (switched k) t = None \<longleftrightarrow> stat (switched k) t = None" for t by (simp add: stat_def)
  have rl: "t \<in> set (tl (ready_list k)) \<longleftrightarrow> t \<in> set (ready_list k) \<and> t \<noteq> next_thread k" for t
  proof (cases "ready_list k")
    case Nil
    then show ?thesis using queues_okD(5) [OF q, of t] by (auto simp: next_thread_def)
  next
    case (Cons x xs)
    then show ?thesis using queues_okD(4) [OF q] by (auto simp: next_thread_def)
  qed
  have "queues_ok (switched k)"
    unfolding queues_ok_def f dom
  proof (intro conjI allI impI)
    show "stat (switched k) (next_thread k) \<noteq> None" by (simp add: s)
    have "next_thread k \<noteq> NULL" using queues_okD(2) [OF q] next_thread_ok(1) [OF q] by metis
    then show "stat (switched k) NULL = None"
      using queues_okD(2) [OF q] unfolding s by (auto simp: stat_def)
    show "magic th = THREAD_MAGIC" if "threads (switched k) t = Some th" for t th
      using that queues_okD(3) [OF q] by (auto simp: switched_def split: if_splits)
    show "distinct (tl (ready_list k))" using queues_okD(4) [OF q] by (simp add: distinct_tl)
    show "t \<in> set (tl (ready_list k)) \<longleftrightarrow> stat (switched k) t = Some THREAD_READY \<and> t \<noteq> idle_thread k" for t
      unfolding rl queues_okD(5) [OF q] s by auto
    show "stat (switched k) (idle_thread k) \<noteq> None" "stat (switched k) (idle_thread k) \<noteq> Some THREAD_DYING"
      using queues_okD(6,7) [OF q] unfolding s by (auto simp: stat_def)
    show "distinct (all_list k)" by (rule queues_okD(8) [OF q])
    show "t \<in> set (all_list k) \<longleftrightarrow> stat (switched k) t \<noteq> None \<and> stat (switched k) t \<noteq> Some THREAD_DYING" for t
      unfolding queues_okD(9) [OF q] s using next_thread_ok [OF q] by (auto simp: stat_def)
    show "t = next_thread k \<or> t = initial_thread k" if "stat (switched k) t = Some THREAD_DYING" for t
      using that queues_okD(10) [OF q] by (auto simp: s split: if_splits)
  qed
  then show ?thesis using r by (auto simp: sched_ok_def f s)
qed


text \<open>Fields the scheduler invariant does not depend on.\<close>

lemma sched_ok_cong:
  "threads k' = threads k \<Longrightarrow> cur k' = cur k \<Longrightarrow> ready_list k' = ready_list k \<Longrightarrow>
   all_list k' = all_list k \<Longrightarrow> idle_thread k' = idle_thread k \<Longrightarrow>
   initial_thread k' = initial_thread k \<Longrightarrow> sched_ok k' = sched_ok k \<and> queues_ok k' = queues_ok k"
  by (simp add: sched_ok_def queues_ok_def stat_def)

lemma sched_ok_irrelevant [simp]:
  "sched_ok (k\<lparr>intr_on := b\<rparr>) = sched_ok k" "sched_ok (k\<lparr>in_external_intr := b\<rparr>) = sched_ok k"
  "sched_ok (k\<lparr>yield_on_return := b\<rparr>) = sched_ok k" "sched_ok (k\<lparr>conts := c\<rparr>) = sched_ok k"
  "sched_ok (k\<lparr>thread_ticks := n\<rparr>) = sched_ok k" "sched_ok (k\<lparr>idle_ticks := i\<rparr>) = sched_ok k"
  "sched_ok (k\<lparr>kernel_ticks := i\<rparr>) = sched_ok k" "sched_ok (k\<lparr>user_ticks := i\<rparr>) = sched_ok k"
  "sched_ok (k\<lparr>next_tid := i\<rparr>) = sched_ok k" "sched_ok (k\<lparr>sema_value := v\<rparr>) = sched_ok k"
  "sched_ok (k\<lparr>sema_waiters := w\<rparr>) = sched_ok k" "sched_ok (k\<lparr>lock_holder := h\<rparr>) = sched_ok k"
  "sched_ok (k\<lparr>cond_waiters := cw\<rparr>) = sched_ok k" "sched_ok (push_conts k fs) = sched_ok k"
  by (rule sched_ok_cong [THEN conjunct1]; simp)+

lemma stat_irrelevant [simp]:
  "stat (k\<lparr>intr_on := b\<rparr>) = stat k" "stat (k\<lparr>in_external_intr := b\<rparr>) = stat k"
  "stat (k\<lparr>yield_on_return := b\<rparr>) = stat k" "stat (k\<lparr>conts := c\<rparr>) = stat k"
  "stat (k\<lparr>ready_list := r\<rparr>) = stat k" "stat (k\<lparr>all_list := r\<rparr>) = stat k"
  "stat (push_conts k fs) = stat k" "stat (k\<lparr>sema_value := v\<rparr>) = stat k"
  "stat (k\<lparr>sema_waiters := w\<rparr>) = stat k"
  by (simp_all add: stat_def fun_eq_iff)

lemma sched_okD:
  assumes "sched_ok k"
  shows "queues_ok k" "stat k (cur k) = Some THREAD_RUNNING"
    "stat k t = Some THREAD_RUNNING \<longleftrightarrow> t = cur k" "thread_current k = Some (cur k)"
    "\<exists>th. threads k (cur k) = Some th" "is_thread k (cur k)" "cur k \<notin> set (ready_list k)" "cur k \<noteq> NULL"
proof -
  show q: "queues_ok k" and r: "stat k (cur k) = Some THREAD_RUNNING"
    and "stat k t = Some THREAD_RUNNING \<longleftrightarrow> t = cur k"
    using assms by (auto simp: sched_ok_def)
  show th: "\<exists>th. threads k (cur k) = Some th" using r by (auto simp: stat_def)
  show n: "cur k \<noteq> NULL" using th queues_okD(2) [OF q] by (metis option.distinct(1))
  then show i: "is_thread k (cur k)" using th queues_okD(3) [OF q] by (auto simp: is_thread_def)
  show "thread_current k = Some (cur k)"
    using i th r by (auto simp: thread_current_def running_thread_def stat_def Let_def)
  show "cur k \<notin> set (ready_list k)" using queues_okD(5) [OF q] r by auto
qed

text \<open>Leaving the running state: what every call of \<open>schedule\<close> starts from.\<close>

lemma queues_ok_leave:
  fixes k st
  assumes ok: "sched_ok k" and st: "st \<noteq> THREAD_RUNNING" "st = THREAD_DYING \<Longrightarrow> cur k \<noteq> idle_thread k"
    and rl: "rl = (if st = THREAD_READY \<and> cur k \<noteq> idle_thread k then ready_list k @ [cur k] else ready_list k)"
    and al: "al = (if st = THREAD_DYING then remove1 (cur k) (all_list k) else all_list k)"
  defines "k' \<equiv> set_status (k\<lparr>ready_list := rl, all_list := al\<rparr>) (cur k) st"
  shows "queues_ok k'" "stat k' t \<noteq> Some THREAD_RUNNING"
proof -
  note q = queues_okD [OF sched_okD(1) [OF ok]] and r = sched_okD(2,3,5,7,8) [OF ok]
  obtain th where th: "threads k (cur k) = Some th" using r(3) by blast
  have s: "stat k' t = (if t = cur k then Some st else stat k t)" for t
    using th by (simp add: k'_def)
  have f: "cur k' = cur k" "ready_list k' = rl" "all_list k' = al" "idle_thread k' = idle_thread k"
    "initial_thread k' = initial_thread k" by (simp_all add: k'_def)
  have dom: "threads k' t = None \<longleftrightarrow> threads k t = None" for t by (simp add: k'_def)
  show "stat k' t \<noteq> Some THREAD_RUNNING" using st(1) r(2) by (auto simp: s)
  show "queues_ok k'"
    unfolding queues_ok_def f dom
  proof (intro conjI allI impI)
    show "threads k (cur k) \<noteq> None" "threads k NULL = None" "threads k (idle_thread k) \<noteq> None"
      using q(1,2,6) by blast+
    show "magic th = THREAD_MAGIC" if "threads k' t = Some th" for t th
      using that q(3) by (auto simp: k'_def split: if_splits)
    show "distinct rl" "distinct al" using q(4,8) r(4) by (auto simp: rl al)
    show "t \<in> set rl \<longleftrightarrow> stat k' t = Some THREAD_READY \<and> t \<noteq> idle_thread k" for t
      using q(5) [of t] r(4) by (auto simp: rl s)
    show "stat k' (idle_thread k) \<noteq> Some THREAD_DYING" using st(2) q(7) by (auto simp: s)
    show "t \<in> set al \<longleftrightarrow> threads k t \<noteq> None \<and> stat k' t \<noteq> Some THREAD_DYING" for t
      using q(9) [of t] q(8) r(1) th by (auto simp: al s)
    show "t = cur k \<or> t = initial_thread k" if "stat k' t = Some THREAD_DYING" for t
      using that q(10) [of t] by (auto simp: s split: if_splits)
  qed
qed

lemma thread_block_run:
  assumes ok: "sched_ok k" and i: "\<not> intr_on k" "\<not> in_external_intr k"
  shows "thread_block k = Some (switched (set_status k (cur k) THREAD_BLOCKED))"
    "sched_ok (switched (set_status k (cur k) THREAD_BLOCKED))"
    "queues_ok (set_status k (cur k) THREAD_BLOCKED)"
proof -
  note l = queues_ok_leave [OF ok, of THREAD_BLOCKED "ready_list k" "all_list k", simplified]
  show "sched_ok (switched (set_status k (cur k) THREAD_BLOCKED))"
    using l by (intro switched_ok) simp_all
  show "queues_ok (set_status k (cur k) THREAD_BLOCKED)" by (rule l(1))
  have "schedule (set_status k (cur k) THREAD_BLOCKED) = Some (switched (set_status k (cur k) THREAD_BLOCKED))"
    using l(1) l(2) [of "cur k"] i by (intro schedule_run) simp_all
  then show "thread_block k = Some (switched (set_status k (cur k) THREAD_BLOCKED))"
    using i sched_okD(4) [OF ok] by (simp add: thread_block_def intr_context_def)
qed

text \<open>The state in which \<open>thread_yield\<close> calls \<open>schedule\<close>.\<close>

definition yielding :: "kernel \<Rightarrow> kernel" where
  "yielding k = push_conts (set_status (k\<lparr>intr_on := False,
     ready_list := (if cur k \<noteq> idle_thread k then ready_list k @ [cur k] else ready_list k)\<rparr>)
       (cur k) THREAD_READY) [SetLevel (intr_on k)]"

lemma thread_yield_run:
  assumes ok: "sched_ok k" and i: "\<not> in_external_intr k"
  shows "thread_yield k = Some (switched (yielding k))" "sched_ok (switched (yielding k))"
    "queues_ok (yielding k)"
proof -
  define rl where "rl = (if cur k \<noteq> idle_thread k then ready_list k @ [cur k] else ready_list k)"
  let ?k = "set_status (k\<lparr>ready_list := rl, all_list := all_list k\<rparr>) (cur k) THREAD_READY"
  have l: "queues_ok ?k" "stat ?k t \<noteq> Some THREAD_RUNNING" for t
    using queues_ok_leave [OF ok, of THREAD_READY rl "all_list k"] by (simp_all add: rl_def)
  have "queues_ok (yielding k) = queues_ok ?k"
    by (rule sched_ok_cong [THEN conjunct2]) (simp_all add: yielding_def rl_def)
  moreover have "stat (yielding k) = stat ?k"
    by (simp add: yielding_def rl_def fun_eq_iff)
  ultimately have q: "queues_ok (yielding k)" "stat (yielding k) t \<noteq> Some THREAD_RUNNING" for t
    using l by simp_all
  show "sched_ok (switched (yielding k))" "queues_ok (yielding k)" by (intro switched_ok q allI)+
  have "schedule (yielding k) = Some (switched (yielding k))"
    by (rule schedule_run [OF q]) (simp add: yielding_def)
  moreover have "thread_yield k = schedule (yielding k)"
    using i sched_okD(4) [OF ok]
    by (cases "cur k = idle_thread k")
       (simp_all add: thread_yield_def intr_context_def intr_disable_def Let_def yielding_def)
  ultimately show "thread_yield k = Some (switched (yielding k))" by simp
qed

text \<open>The state in which \<open>thread_exit\<close> calls \<open>schedule\<close>.\<close>

definition exiting :: "kernel \<Rightarrow> kernel" where
  "exiting k = set_status (k\<lparr>intr_on := False, all_list := remove1 (cur k) (all_list k)\<rparr>)
     (cur k) THREAD_DYING"

lemma thread_exit_run:
  assumes ok: "sched_ok k" and i: "\<not> in_external_intr k" "cur k \<noteq> idle_thread k"
  shows "thread_exit k = Some (switched (exiting k))" "sched_ok (switched (exiting k))"
    "queues_ok (exiting k)"
proof -
  let ?k = "set_status (k\<lparr>ready_list := ready_list k, all_list := remove1 (cur k) (all_list k)\<rparr>)
    (cur k) THREAD_DYING"
  have l: "queues_ok ?k" "stat ?k t \<noteq> Some THREAD_RUNNING" for t
    using queues_ok_leave [OF ok, of THREAD_DYING "ready_list k" "remove1 (cur k) (all_list k)"] i
    by simp_all
  have "queues_ok (exiting k) = queues_ok ?k"
    by (rule sched_ok_cong [THEN conjunct2]) (simp_all add: exiting_def)
  moreover have "stat (exiting k) = stat ?k" by (simp add: exiting_def fun_eq_iff)
  ultimately have q: "queues_ok (exiting k)" "stat (exiting k) t \<noteq> Some THREAD_RUNNING" for t
    using l by simp_all
  show "sched_ok (switched (exiting k))" "queues_ok (exiting k)" by (intro switched_ok q allI)+
  have "schedule (exiting k) = Some (switched (exiting k))"
    by (rule schedule_run [OF q]) (simp add: exiting_def)
  moreover have "thread_current (k\<lparr>intr_on := False\<rparr>) = Some (cur k)"
    using sched_okD(4) [of "k\<lparr>intr_on := False\<rparr>"] ok by simp
  ultimately show "thread_exit k = Some (switched (exiting k))"
    using i by (simp add: thread_exit_def intr_context_def intr_disable_def Let_def exiting_def)
qed

text \<open>The state after \<open>thread_unblock\<close>.\<close>

definition unblocked :: "kernel \<Rightarrow> nat \<Rightarrow> kernel" where
  "unblocked k t = set_status (k\<lparr>ready_list := ready_list k @ [t]\<rparr>) t THREAD_READY"

lemma thread_unblock_run:
  assumes ok: "sched_ok k" and t: "stat k t = Some THREAD_BLOCKED" "t \<noteq> idle_thread k"
    and i: "intr_on k \<Longrightarrow> \<not> in_external_intr k"
  shows "thread_unblock k t = Some (unblocked k t)" "sched_ok (unblocked k t)"
proof -
  note q = queues_okD [OF sched_okD(1) [OF ok]] and r = sched_okD(2,3) [OF ok]
  obtain th where th: "threads k t = Some th" "status th = THREAD_BLOCKED" using t(1) by (auto simp: stat_def)
  have n: "t \<noteq> NULL" using th q(2) by (metis option.distinct(1))
  have "is_thread k t" using th n q(3) by (auto simp: is_thread_def)
  moreover have "unblocked k t\<lparr>intr_on := intr_on k\<rparr> = unblocked k t"
    by (simp add: unblocked_def set_thread_def)
  ultimately show "thread_unblock k t = Some (unblocked k t)"
    using th i by (auto simp: thread_unblock_def intr_disable_def intr_set_level_def intr_enable_def
        intr_context_def unblocked_def set_thread_def Let_def)
  let ?k = "unblocked k t"
  have s: "stat ?k u = (if u = t then Some THREAD_READY else stat k u)" for u
    using th by (simp add: unblocked_def)
  have f: "cur ?k = cur k" "ready_list ?k = ready_list k @ [t]" "all_list ?k = all_list k"
    "idle_thread ?k = idle_thread k" "initial_thread ?k = initial_thread k" by (simp_all add: unblocked_def)
  have dom: "threads ?k u = None \<longleftrightarrow> threads k u = None" for u by (simp add: unblocked_def)
  have "queues_ok ?k"
    unfolding queues_ok_def f dom
  proof (intro conjI allI impI)
    show "threads k (cur k) \<noteq> None" "threads k NULL = None" "threads k (idle_thread k) \<noteq> None"
      using q(1,2,6) by blast+
    show "magic th = THREAD_MAGIC" if "threads ?k u = Some th" for u th
      using that q(3) by (auto simp: unblocked_def split: if_splits)
    show "distinct (ready_list k @ [t])" using q(4) q(5) [of t] t by simp
    show "u \<in> set (ready_list k @ [t]) \<longleftrightarrow> stat ?k u = Some THREAD_READY \<and> u \<noteq> idle_thread k" for u
      using q(5) [of u] t by (auto simp: s)
    show "stat ?k (idle_thread k) \<noteq> Some THREAD_DYING" using q(7) by (auto simp: s)
    show "distinct (all_list k)" by (rule q(8))
    show "u \<in> set (all_list k) \<longleftrightarrow> threads k u \<noteq> None \<and> stat ?k u \<noteq> Some THREAD_DYING" for u
      using q(9) [of u] t by (auto simp: s)
    show "u = cur k \<or> u = initial_thread k" if "stat ?k u = Some THREAD_DYING" for u
      using that q(10) [of u] by (auto simp: s split: if_splits)
  qed
  moreover have "t \<noteq> cur k" using t(1) r(1) by auto
  ultimately show "sched_ok ?k" using r(2) by (auto simp: sched_ok_def s f)
qed


lemma init_thread_run:
  assumes ok: "sched_ok k" and t: "threads k t = None" "t \<noteq> NULL" "PRI_MIN \<le> pri" "pri \<le> PRI_MAX"
    and i: "intr_on k \<Longrightarrow> \<not> in_external_intr k"
  shows "\<exists>k'. init_thread k t nm pri = Some k' \<and> sched_ok k' \<and>
     (\<exists>th. status th = THREAD_BLOCKED \<and> magic th = THREAD_MAGIC \<and>
       k' = k\<lparr>threads := (threads k)(t \<mapsto> th), all_list := all_list k @ [t]\<rparr>)"
proof -
  note q = queues_okD [OF sched_okD(1) [OF ok]] and r = sched_okD(2,3) [OF ok]
  define th where "th = \<lparr>tid = 0, status = THREAD_BLOCKED, name = take 15 nm, stack = t + 4096,
     priority = pri, pagedir = False, magic = THREAD_MAGIC\<rparr>"
  define k' where "k' = k\<lparr>threads := (threads k)(t \<mapsto> th), all_list := all_list k @ [t]\<rparr>"
  have "init_thread k t nm pri = Some k'"
    using t i by (auto simp: init_thread_def intr_disable_def intr_set_level_def intr_enable_def
        intr_context_def Let_def k'_def th_def)
  moreover have s: "stat k' u = (if u = t then Some THREAD_BLOCKED else stat k u)" for u
    by (simp add: stat_def k'_def th_def)
  have f: "cur k' = cur k" "ready_list k' = ready_list k" "all_list k' = all_list k @ [t]"
    "idle_thread k' = idle_thread k" "initial_thread k' = initial_thread k" by (simp_all add: k'_def)
  have dom: "threads k' u = None \<longleftrightarrow> threads k u = None \<and> u \<noteq> t" for u by (simp add: k'_def)
  have new: "stat k t = None" "t \<notin> set (all_list k)" "t \<noteq> cur k"
    using t(1) q(9) [of t] q(1) by (auto simp: stat_def)
  have "queues_ok k'"
    unfolding queues_ok_def f dom
  proof (intro conjI allI impI)
    show "\<not> (threads k (cur k) = None \<and> cur k \<noteq> t)" "threads k NULL = None" "NULL \<noteq> t"
      "\<not> (threads k (idle_thread k) = None \<and> idle_thread k \<noteq> t)"
      using q(1,2,6) t(2) by blast+
    show "magic th = THREAD_MAGIC" if "threads k' u = Some th" for u th
      using that q(3) by (auto simp: k'_def th_def split: if_splits)
    show "distinct (ready_list k)" "distinct (all_list k @ [t])" using q(4,8) new by auto
    show "u \<in> set (ready_list k) \<longleftrightarrow> stat k' u = Some THREAD_READY \<and> u \<noteq> idle_thread k" for u
      using q(5) [of u] new by (auto simp: s)
    show "stat k' (idle_thread k) \<noteq> Some THREAD_DYING" using q(7) by (auto simp: s)
    show "u \<in> set (all_list k @ [t]) \<longleftrightarrow> \<not> (threads k u = None \<and> u \<noteq> t) \<and> stat k' u \<noteq> Some THREAD_DYING" for u
      using q(9) [of u] new by (auto simp: s)
    show "u = cur k \<or> u = initial_thread k" if "stat k' u = Some THREAD_DYING" for u
      using that q(10) [of u] by (auto simp: s split: if_splits)
  qed
  then have "sched_ok k'" using r(2) new by (auto simp: sched_ok_def s f)
  moreover have "status th = THREAD_BLOCKED" "magic th = THREAD_MAGIC" by (simp_all add: th_def)
  ultimately show ?thesis using k'_def by blast
qed


section \<open>Properties\<close>

text \<open>
  C9.  \<open>thread_yield\<close> is round robin and keeps the scheduler's invariant: unless the run queue is
  empty, the thread at its front runs next, the yielding thread goes to the back (unless it is
  the idle thread), and the time slice starts anew.
\<close>

theorem thread_yield_round_robin:
  assumes "sched_ok k" "\<not> in_external_intr k" "ready_list k = t # ts"
  shows "\<exists>k'. thread_yield k = Some k' \<and> sched_ok k' \<and> cur k' = t \<and> thread_ticks k' = 0 \<and>
     ready_list k' = (if cur k = idle_thread k then ts else ts @ [cur k]) \<and>
     stat k' (cur k) = Some THREAD_READY"
proof -
  note y = thread_yield_run [OF assms(1,2)]
  have n: "next_thread (yielding k) = t" using assms(3) by (simp add: next_thread_def yielding_def)
  have c: "t \<noteq> cur k" using sched_okD(7) [OF assms(1)] assms(3) by auto
  obtain th where "threads k (cur k) = Some th" using sched_okD(5) [OF assms(1)] by blast
  then have "stat (switched (yielding k)) (cur k) = Some THREAD_READY"
    using c n by (simp add: switched_def stat_def) (simp add: yielding_def)
  moreover have "ready_list (switched (yielding k)) = (if cur k = idle_thread k then ts else ts @ [cur k])"
    using assms(3) by (simp add: switched_def yielding_def)
  ultimately show ?thesis using y n by (simp add: switched_def)
qed

definition demo_thread :: "int \<Rightarrow> thread_status \<Rightarrow> thread" where
  "demo_thread i st = \<lparr>tid = i, status = st, name = ''t'', stack = 4096, priority = 31,
     pagedir = False, magic = THREAD_MAGIC\<rparr>"

definition demo_kernel :: kernel where
  "demo_kernel = \<lparr>threads = [4096 \<mapsto> demo_thread 1 THREAD_RUNNING, 8192 \<mapsto> demo_thread 2 THREAD_BLOCKED,
       12288 \<mapsto> demo_thread 3 THREAD_READY],
     ready_list = [12288], all_list = [4096, 8192, 12288], idle_thread = 8192, initial_thread = 4096,
     cur = 4096, conts = (\<lambda>_. []), intr_on = True, in_external_intr = False, yield_on_return = False,
     thread_ticks = 3, idle_ticks = 0, kernel_ticks = 7, user_ticks = 0, next_tid = 4,
     sema_value = (\<lambda>_. 1), sema_waiters = (\<lambda>_. []), lock_holder = (\<lambda>_. 0), cond_waiters = (\<lambda>_. [])\<rparr>"

lemma demo_kernel_ok: "sched_ok demo_kernel"
  by (auto simp: sched_ok_def queues_ok_def demo_kernel_def stat_def demo_thread_def)

theorem thread_yield_round_robin_witness:
  "\<exists>k'. thread_yield demo_kernel = Some k' \<and> cur k' = 12288 \<and> ready_list k' = [4096]"
  using thread_yield_round_robin [OF demo_kernel_ok, of 12288 "[]"] by (auto simp: demo_kernel_def)

text \<open>
  C10.  A timer tick charges the running thread, and once it has run for a time slice the interrupt
  handler preempts it; in both cases the scheduler's invariant holds afterwards and the
  interrupted thread still has to turn interrupts back on.
\<close>

theorem timer_preemption:
  assumes ok: "sched_ok k" and i: "intr_on k" "\<not> in_external_intr k"
  shows "\<exists>k'. intr_handler k thread_tick = Some k' \<and> sched_ok k' \<and> \<not> intr_on k' \<and>
     (if thread_ticks k + 1 < TIME_SLICE then cur k' = cur k \<and> thread_ticks k' = thread_ticks k + 1
      else thread_ticks k' = 0 \<and> (ready_list k \<noteq> [] \<longrightarrow> cur k' = hd (ready_list k))) \<and>
     SetLevel True \<in> set (conts k' (cur k)) \<and>
     idle_ticks k' + kernel_ticks k' + user_ticks k' = idle_ticks k + kernel_ticks k + user_ticks k + 1"
proof -
  define k1 where "k1 = k\<lparr>intr_on := False, in_external_intr := True, yield_on_return := False\<rparr>"
  have ok1: "sched_ok k1" using ok by (simp add: k1_def)
  obtain th where th: "threads k (cur k) = Some th" using sched_okD(5) [OF ok] by blast
  define k2 where "k2 = (if cur k = idle_thread k then k1\<lparr>idle_ticks := idle_ticks k + 1\<rparr>
     else if pagedir th then k1\<lparr>user_ticks := user_ticks k + 1\<rparr>
     else k1\<lparr>kernel_ticks := kernel_ticks k + 1\<rparr>)\<lparr>thread_ticks := thread_ticks k + 1\<rparr>"
  define yr where "yr = (\<not> thread_ticks k + 1 < TIME_SLICE)"
  define k3 where "k3 = push_conts (k2\<lparr>yield_on_return := yr, in_external_intr := False\<rparr>) [SetLevel True]"
  have tick: "thread_tick k1 = Some (k2\<lparr>yield_on_return := yr\<rparr>)"
    using sched_okD(4) [OF ok1] th
    by (auto simp: thread_tick_def k1_def k2_def yr_def Let_def intr_yield_on_return_def intr_context_def not_le)
  have h: "intr_handler k thread_tick = (if yr then thread_yield k3 else Some k3)"
    using i(2) tick by (simp add: intr_handler_def intr_context_def Let_def k1_def [symmetric] k3_def)
      (simp add: k1_def k2_def)
  have ok3: "sched_ok k3" using ok by (simp add: k3_def k2_def k1_def)
  have e3: "\<not> in_external_intr k3" "\<not> intr_on k3" "cur k3 = cur k" "ready_list k3 = ready_list k"
    "conts k3 (cur k) = SetLevel True # conts k (cur k)" "thread_ticks k3 = thread_ticks k + 1"
    "idle_ticks k3 + kernel_ticks k3 + user_ticks k3 = idle_ticks k + kernel_ticks k + user_ticks k + 1"
    by (simp_all add: k3_def k2_def k1_def)
  show ?thesis
  proof (cases yr)
    case False
    then show ?thesis using h ok3 e3 by (simp add: yr_def)
  next
    case True
    let ?k = "switched (yielding k3)"
    have "cur ?k = hd (ready_list k)" if "ready_list k \<noteq> []"
      using that e3 by (simp add: switched_def next_thread_def yielding_def)
    moreover have "\<not> intr_on ?k" "thread_ticks ?k = 0" "SetLevel True \<in> set (conts ?k (cur k))"
      "idle_ticks ?k + kernel_ticks ?k + user_ticks ?k = idle_ticks k3 + kernel_ticks k3 + user_ticks k3"
      using e3 by (simp_all add: switched_def yielding_def)
    ultimately show ?thesis
      using True h e3(7) thread_yield_run [OF ok3 e3(1)] by (simp add: yr_def)
  qed
qed

theorem timer_preemption_witness:
  "\<exists>k'. intr_handler demo_kernel thread_tick = Some k' \<and> cur k' = 12288 \<and> thread_ticks k' = 0"
  using timer_preemption [OF demo_kernel_ok] by (auto simp: demo_kernel_def)

end
