(* ===== verification/Synch.thy ===== *)
theory Synch
  imports Thread
begin

text \<open>
  The synchronization primitives of \<open>threads/synch.c\<close>: semaphores, locks and condition variables,
  on the kernel state of the thread theory.  A primitive that can sleep runs up to the context
  switch and leaves the rest pending on the stack of the thread that sleeps.  The relation
  \<open>kstep\<close> interleaves the pending actions of the running thread, new calls it makes, and external
  interrupts, which can preempt it wherever interrupts are on.
\<close>

section \<open>The code\<close>

definition sema_init :: "kernel \<Rightarrow> nat \<Rightarrow> u32 \<Rightarrow> kernel option" where
  "sema_init k s value = do {
     ASSERT (s \<noteq> NULL);
     Some (k\<lparr>sema_value := (sema_value k)(s := value), sema_waiters := (sema_waiters k)(s := [])\<rparr>)
   }"

text \<open>One test of the loop of \<open>sema_down\<close>, and what follows the loop.\<close>

definition sema_down_loop :: "kernel \<Rightarrow> nat \<Rightarrow> bool \<Rightarrow> kernel option" where
  "sema_down_loop k s old_level =
     (if sema_value k s = 0 then do {
        c \<leftarrow> thread_current k;
        let k = k\<lparr>sema_waiters := (sema_waiters k)(s := sema_waiters k s @ [c])\<rparr>;
        thread_block (push_conts k [DownLoop s old_level])
      } else do {
        let k = k\<lparr>sema_value := (sema_value k)(s := sema_value k s - 1)\<rparr>;
        intr_set_level k old_level
      })"

definition sema_down :: "kernel \<Rightarrow> nat \<Rightarrow> kernel option" where
  "sema_down k s = do {
     ASSERT (s \<noteq> NULL);
     ASSERT (\<not> intr_context k);
     let old_level = intr_on k;
     sema_down_loop (intr_disable k) s old_level
   }"

definition sema_try_down :: "kernel \<Rightarrow> nat \<Rightarrow> (bool \<times> kernel) option" where
  "sema_try_down k s = do {
     ASSERT (s \<noteq> NULL);
     let old_level = intr_on k;
     let k = intr_disable k;
     let success = sema_value k s > 0;
     let k = (if success then k\<lparr>sema_value := (sema_value k)(s := sema_value k s - 1)\<rparr> else k);
     k \<leftarrow> intr_set_level k old_level;
     Some (success, k)
   }"

definition sema_up :: "kernel \<Rightarrow> nat \<Rightarrow> kernel option" where
  "sema_up k s = do {
     ASSERT (s \<noteq> NULL);
     let old_level = intr_on k;
     let k = intr_disable k;
     k \<leftarrow> (if sema_waiters k s \<noteq> []
           then thread_unblock (k\<lparr>sema_waiters := (sema_waiters k)(s := tl (sema_waiters k s))\<rparr>)
                  (hd (sema_waiters k s))
           else Some k);
     let k = k\<lparr>sema_value := (sema_value k)(s := sema_value k s + 1)\<rparr>;
     intr_set_level k old_level
   }"

text \<open>The semaphore inside a lock structure.\<close>

definition lock_sema :: "nat \<Rightarrow> nat" where
  "lock_sema l = l + 4"

definition lock_init :: "kernel \<Rightarrow> nat \<Rightarrow> kernel option" where
  "lock_init k l = do {
     ASSERT (l \<noteq> NULL);
     sema_init (k\<lparr>lock_holder := (lock_holder k)(l := NULL)\<rparr>) (lock_sema l) 1
   }"

definition lock_held_by_current_thread :: "kernel \<Rightarrow> nat \<Rightarrow> bool option" where
  "lock_held_by_current_thread k l = do {
     ASSERT (l \<noteq> NULL);
     c \<leftarrow> thread_current k;
     Some (lock_holder k l = c)
   }"

definition lock_acquire :: "kernel \<Rightarrow> nat \<Rightarrow> kernel option" where
  "lock_acquire k l = do {
     ASSERT (l \<noteq> NULL);
     ASSERT (\<not> intr_context k);
     h \<leftarrow> lock_held_by_current_thread k l; ASSERT (\<not> h);
     sema_down (push_conts k [SetHolder l]) (lock_sema l)
   }"

definition set_holder :: "kernel \<Rightarrow> nat \<Rightarrow> kernel option" where
  "set_holder k l = do {
     c \<leftarrow> thread_current k;
     Some (k\<lparr>lock_holder := (lock_holder k)(l := c)\<rparr>)
   }"

definition lock_try_acquire :: "kernel \<Rightarrow> nat \<Rightarrow> (bool \<times> kernel) option" where
  "lock_try_acquire k l = do {
     ASSERT (l \<noteq> NULL);
     h \<leftarrow> lock_held_by_current_thread k l; ASSERT (\<not> h);
     r \<leftarrow> sema_try_down k (lock_sema l);
     Some (fst r, if fst r then push_conts (snd r) [SetHolder l] else snd r)
   }"

definition lock_release :: "kernel \<Rightarrow> nat \<Rightarrow> kernel option" where
  "lock_release k l = do {
     ASSERT (l \<noteq> NULL);
     h \<leftarrow> lock_held_by_current_thread k l; ASSERT h;
     Some (push_conts (k\<lparr>lock_holder := (lock_holder k)(l := NULL)\<rparr>) [SemaUp (lock_sema l)])
   }"

definition cond_init :: "kernel \<Rightarrow> nat \<Rightarrow> kernel option" where
  "cond_init k c = do { ASSERT (c \<noteq> NULL); Some (k\<lparr>cond_waiters := (cond_waiters k)(c := [])\<rparr>) }"

text \<open>\<open>w\<close> is the semaphore in the \<open>semaphore_elem\<close> on the waiting thread's stack.\<close>

definition cond_wait :: "kernel \<Rightarrow> nat \<Rightarrow> nat \<Rightarrow> nat \<Rightarrow> kernel option" where
  "cond_wait k c l w = do {
     ASSERT (c \<noteq> NULL); ASSERT (l \<noteq> NULL);
     ASSERT (\<not> intr_context k);
     h \<leftarrow> lock_held_by_current_thread k l; ASSERT h;
     k \<leftarrow> sema_init k w 0;
     let k = k\<lparr>cond_waiters := (cond_waiters k)(c := cond_waiters k c @ [w])\<rparr>;
     Some (push_conts k [Release l, Down w, Acquire l])
   }"

definition cond_signal :: "kernel \<Rightarrow> nat \<Rightarrow> nat \<Rightarrow> kernel option" where
  "cond_signal k c l = do {
     ASSERT (c \<noteq> NULL); ASSERT (l \<noteq> NULL);
     ASSERT (\<not> intr_context k);
     h \<leftarrow> lock_held_by_current_thread k l; ASSERT h;
     if cond_waiters k c \<noteq> []
     then sema_up (k\<lparr>cond_waiters := (cond_waiters k)(c := tl (cond_waiters k c))\<rparr>) (hd (cond_waiters k c))
     else Some k
   }"

text \<open>One round of the loop of \<open>cond_broadcast\<close>.\<close>

definition cond_broadcast :: "kernel \<Rightarrow> nat \<Rightarrow> nat \<Rightarrow> kernel option" where
  "cond_broadcast k c l = do {
     ASSERT (c \<noteq> NULL); ASSERT (l \<noteq> NULL);
     if cond_waiters k c \<noteq> []
     then cond_signal (push_conts k [Broadcast c l]) c l
     else Some k
   }"

text \<open>The loop of the idle thread, up to the \<open>hlt\<close> instruction.\<close>

definition idle_loop :: "kernel \<Rightarrow> kernel option" where
  "idle_loop k = thread_block (push_conts (intr_disable k) [SetLevel True, IdleLoop])"

section \<open>Interleaving\<close>

text \<open>Executing the next pending action of the running thread, already taken off its stack.\<close>

fun run_frame :: "kernel \<Rightarrow> frame \<Rightarrow> kernel option" where
  "run_frame k (DownLoop s old_level) = sema_down_loop k s old_level"
| "run_frame k (Down s) = sema_down k s"
| "run_frame k (SemaUp s) = sema_up k s"
| "run_frame k (Acquire l) = lock_acquire k l"
| "run_frame k (SetHolder l) = set_holder k l"
| "run_frame k (Release l) = lock_release k l"
| "run_frame k (Broadcast c l) = cond_broadcast k c l"
| "run_frame k (SetLevel b) = intr_set_level k b"
| "run_frame k (TakeTid t) = Some (allocate_tid k t)"
| "run_frame k (StoreTid t i) = Some (set_thread k t (\<lambda>th. th\<lparr>tid := i\<rparr>))"
| "run_frame k (FinishCreate t) = finish_create k t"
| "run_frame k KernelThread = intr_enable k"
| "run_frame k IdleLoop = idle_loop k"

definition pop_conts :: "kernel \<Rightarrow> kernel" where
  "pop_conts k = k\<lparr>conts := (conts k)(cur k := tl (conts k (cur k)))\<rparr>"

text \<open>
  The calls thread code can make: every primitive, on semaphores, locks and condition variables of
  its own, from any thread but the idle thread and only when it is in no primitive already.
\<close>

inductive kcall :: "kernel \<Rightarrow> kernel \<Rightarrow> bool" where
  down: "sema_down k s = Some k' \<Longrightarrow> kcall k k'"
| try_down: "sema_try_down k s = Some (b, k') \<Longrightarrow> kcall k k'"
| up: "sema_up k s = Some k' \<Longrightarrow> kcall k k'"
| acquire: "lock_acquire k l = Some k' \<Longrightarrow> kcall k k'"
| try_acquire: "lock_try_acquire k l = Some (b, k') \<Longrightarrow> kcall k k'"
| release: "lock_release k l = Some k' \<Longrightarrow> kcall k k'"
| wait: "\<forall>t. \<forall>old fs. conts k t \<noteq> DownLoop w old # fs \<Longrightarrow> cond_wait k c l w = Some k' \<Longrightarrow> kcall k k'"
| signal: "cond_signal k c l = Some k' \<Longrightarrow> kcall k k'"
| broadcast: "cond_broadcast k c l = Some k' \<Longrightarrow> kcall k k'"
| yield: "thread_yield k = Some k' \<Longrightarrow> kcall k k'"
| exit: "thread_exit k = Some k' \<Longrightarrow> kcall k k'"
| create: "threads k t = None \<Longrightarrow> thread_create k (Some t) nm pri = Some k' \<Longrightarrow> kcall k k'"
| set_priority: "thread_set_priority k p = Some k' \<Longrightarrow> kcall k k'"
| set_level: "intr_set_level k b = Some k' \<Longrightarrow> kcall k k'"

inductive kstep :: "kernel \<Rightarrow> kernel \<Rightarrow> bool" where
  pending: "conts k (cur k) = f # fs \<Longrightarrow> run_frame (pop_conts k) f = Some k' \<Longrightarrow> kstep k k'"
| call: "conts k (cur k) = [] \<Longrightarrow> cur k \<noteq> idle_thread k \<Longrightarrow> kcall k k' \<Longrightarrow> kstep k k'"
| timer: "intr_on k \<Longrightarrow> intr_handler k thread_tick = Some k' \<Longrightarrow> kstep k k'"
| device: "intr_on k \<Longrightarrow> intr_handler k (\<lambda>k. sema_up k s) = Some k' \<Longrightarrow> kstep k k'"


section \<open>The invariant of the wait queues\<close>

definition in_down :: "kernel \<Rightarrow> nat \<Rightarrow> nat \<Rightarrow> bool" where
  "in_down k s t \<longleftrightarrow> (\<exists>old fs. conts k t = DownLoop s old # fs)"

text \<open>Threads that were woken up and still have to test the semaphore again.\<close>

definition woken :: "kernel \<Rightarrow> nat \<Rightarrow> nat set" where
  "woken k s = {t. in_down k s t \<and> t \<notin> set (sema_waiters k s)}"

fun is_down :: "frame \<Rightarrow> bool" where
  "is_down (DownLoop s old) = True"
| "is_down _ = False"

fun idle_frame :: "frame \<Rightarrow> bool" where
  "idle_frame (SetLevel b) = True"
| "idle_frame KernelThread = True"
| "idle_frame IdleLoop = True"
| "idle_frame _ = False"

text \<open>
  Waiting threads are blocked in \<open>sema_down\<close>, each on one queue once; threads that are in
  \<open>sema_down\<close> and not queued are runnable; a thread under construction is blocked and owned by
  the one thread that creates it; the idle thread never waits; dead threads have nothing pending.
\<close>

definition sync_core :: "kernel \<Rightarrow> bool" where
  "sync_core k \<longleftrightarrow>
     (\<forall>s t. t \<in> set (sema_waiters k s) \<longrightarrow>
        stat k t = Some THREAD_BLOCKED \<and> t \<noteq> idle_thread k \<and> in_down k s t) \<and>
     (\<forall>s. distinct (sema_waiters k s)) \<and>
     (\<forall>s t. in_down k s t \<and> t \<notin> set (sema_waiters k s) \<longrightarrow>
        stat k t = Some THREAD_READY \<or> stat k t = Some THREAD_RUNNING) \<and>
     (\<forall>t f. f \<in> set (tl (conts k t)) \<longrightarrow> \<not> is_down f) \<and>
     (\<forall>u t. FinishCreate t \<in> set (conts k u) \<longrightarrow>
        stat k t = Some THREAD_BLOCKED \<and> t \<noteq> idle_thread k \<and> conts k t = [] \<and>
        count_list (conts k u) (FinishCreate t) = 1 \<and>
        (\<forall>v. FinishCreate t \<in> set (conts k v) \<longrightarrow> v = u)) \<and>
     (\<forall>f\<in>set (conts k (idle_thread k)). idle_frame f) \<and>
     (\<forall>t. stat k t = None \<or> stat k t = Some THREAD_DYING \<longrightarrow> conts k t = []) \<and>
     finite {t. conts k t \<noteq> []}"

text \<open>No lost wakeup: while threads wait, every unit of the value has a woken thread that comes for it.\<close>

definition wake_ok :: "kernel \<Rightarrow> nat \<Rightarrow> nat \<Rightarrow> bool" where
  "wake_ok k s d \<longleftrightarrow> (sema_waiters k s \<noteq> [] \<longrightarrow> unat (sema_value k s) \<le> card (woken k s) + d)"

definition kernel_ok :: "kernel \<Rightarrow> bool" where
  "kernel_ok k \<longleftrightarrow> sched_ok k \<and> \<not> in_external_intr k \<and> sync_core k \<and> (\<forall>s. wake_ok k s 0) \<and>
     (\<forall>s. in_down k s (cur k) \<longrightarrow> \<not> intr_on k)"

lemma sync_coreD:
  assumes "sync_core k"
  shows "t \<in> set (sema_waiters k s) \<Longrightarrow> stat k t = Some THREAD_BLOCKED"
    "t \<in> set (sema_waiters k s) \<Longrightarrow> t \<noteq> idle_thread k"
    "t \<in> set (sema_waiters k s) \<Longrightarrow> in_down k s t"
    "distinct (sema_waiters k s)"
    "in_down k s t \<Longrightarrow> t \<notin> set (sema_waiters k s) \<Longrightarrow>
       stat k t = Some THREAD_READY \<or> stat k t = Some THREAD_RUNNING"
    "f \<in> set (tl (conts k t)) \<Longrightarrow> \<not> is_down f"
    "FinishCreate t \<in> set (conts k u) \<Longrightarrow> stat k t = Some THREAD_BLOCKED"
    "FinishCreate t \<in> set (conts k u) \<Longrightarrow> t \<noteq> idle_thread k"
    "FinishCreate t \<in> set (conts k u) \<Longrightarrow> conts k t = []"
    "FinishCreate t \<in> set (conts k u) \<Longrightarrow> count_list (conts k u) (FinishCreate t) = 1"
    "FinishCreate t \<in> set (conts k u) \<Longrightarrow> FinishCreate t \<in> set (conts k v) \<Longrightarrow> v = u"
    "f \<in> set (conts k (idle_thread k)) \<Longrightarrow> idle_frame f"
    "stat k t = None \<Longrightarrow> conts k t = []" "stat k t = Some THREAD_DYING \<Longrightarrow> conts k t = []"
    "finite {t. conts k t \<noteq> []}"
  using assms unfolding sync_core_def by blast+

lemma sync_core_cong:
  "conts k' = conts k \<Longrightarrow> sema_waiters k' = sema_waiters k \<Longrightarrow> threads k' = threads k \<Longrightarrow>
     idle_thread k' = idle_thread k \<Longrightarrow> sync_core k' = sync_core k"
  unfolding sync_core_def in_down_def stat_def by simp

lemma sync_core_irrelevant [simp]:
  "sync_core (k\<lparr>intr_on := b\<rparr>) = sync_core k" "sync_core (k\<lparr>in_external_intr := b\<rparr>) = sync_core k"
  "sync_core (k\<lparr>yield_on_return := b\<rparr>) = sync_core k" "sync_core (k\<lparr>thread_ticks := n\<rparr>) = sync_core k"
  "sync_core (k\<lparr>idle_ticks := i\<rparr>) = sync_core k" "sync_core (k\<lparr>kernel_ticks := i\<rparr>) = sync_core k"
  "sync_core (k\<lparr>user_ticks := i\<rparr>) = sync_core k" "sync_core (k\<lparr>next_tid := i\<rparr>) = sync_core k"
  "sync_core (k\<lparr>sema_value := v\<rparr>) = sync_core k" "sync_core (k\<lparr>lock_holder := h\<rparr>) = sync_core k"
  "sync_core (k\<lparr>cond_waiters := cw\<rparr>) = sync_core k"
  by (rule sync_core_cong; simp)+

lemma finite_woken: "sync_core k \<Longrightarrow> finite (woken k s)"
  by (rule finite_subset [OF _ sync_coreD(15)]) (auto simp: woken_def in_down_def)

text \<open>A context switch does not disturb the wait queues.\<close>

lemma switched_simps [simp]:
  "conts (switched k) = conts k" "sema_value (switched k) = sema_value k"
  "sema_waiters (switched k) = sema_waiters k" "intr_on (switched k) = intr_on k"
  "in_external_intr (switched k) = in_external_intr k" "idle_thread (switched k) = idle_thread k"
  "lock_holder (switched k) = lock_holder k" "cond_waiters (switched k) = cond_waiters k"
  by (simp_all add: switched_def)

lemma wake_ok_cong:
  "conts k' = conts k \<Longrightarrow> sema_value k' = sema_value k \<Longrightarrow> sema_waiters k' = sema_waiters k \<Longrightarrow>
     wake_ok k' s d = wake_ok k s d"
  by (simp add: wake_ok_def woken_def in_down_def)

lemma in_down_cong: "conts k' = conts k \<Longrightarrow> in_down k' s t = in_down k s t"
  by (simp add: in_down_def)

lemma next_thread_runnable:
  "queues_ok k \<Longrightarrow> stat k (next_thread k) = Some THREAD_READY \<or> next_thread k = idle_thread k"
  using queues_okD(5) [of k "hd (ready_list k)"] by (auto simp: next_thread_def)

lemma switched_sync:
  assumes q: "queues_ok k" and c: "sync_core k"
  shows "sync_core (switched k)"
proof -
  note s = stat_switched [OF q] and d = sync_coreD [OF c] and n = next_thread_runnable [OF q]
  have i: "in_down (switched k) s t = in_down k s t" for s t by (rule in_down_cong) simp
  show ?thesis
    unfolding sync_core_def i switched_simps
  proof (intro conjI allI impI ballI; (elim conjE)?)
    fix s t assume w: "t \<in> set (sema_waiters k s)"
    then show "stat (switched k) t = Some THREAD_BLOCKED"
      using d(1,2) [OF w] n by (auto simp: s)
    show "t \<noteq> idle_thread k" "in_down k s t" using d(2,3) [OF w] by blast+
  next
    fix s t assume "in_down k s t" "t \<notin> set (sema_waiters k s)"
    from d(5) [OF this]
    show "stat (switched k) t = Some THREAD_READY \<or> stat (switched k) t = Some THREAD_RUNNING"
      by (auto simp: s)
  next
    fix u t assume f: "FinishCreate t \<in> set (conts k u)"
    show "stat (switched k) t = Some THREAD_BLOCKED" using d(7,8) [OF f] n by (auto simp: s)
    show "t \<noteq> idle_thread k" "conts k t = []" "count_list (conts k u) (FinishCreate t) = 1"
      using d(8,9,10) [OF f] by blast+
    show "v = u" if "FinishCreate t \<in> set (conts k v)" for v using d(11) [OF f that] .
  next
    fix t assume "stat (switched k) t = None \<or> stat (switched k) t = Some THREAD_DYING"
    then have "stat k t = None \<or> stat k t = Some THREAD_DYING" by (auto simp: s split: if_splits)
    then show "conts k t = []" using d(13,14) [of t] by blast
  next
    show "finite {t. conts k t \<noteq> []}" by (rule d(15))
  qed (erule d(6) d(12) | rule d(4))+
qed


section \<open>The primitives keep it\<close>

lemma in_set_tlD: "x \<in> set (tl xs) \<Longrightarrow> x \<in> set xs"
  by (cases xs) auto

lemma count_list_le_in_set: "count_list xs x \<le> count_list ys x \<Longrightarrow> x \<in> set xs \<Longrightarrow> x \<in> set ys"
  by (metis count_list_0_iff le_zero_eq)

text \<open>Changing what the running thread has pending, when it is not in \<open>sema_down\<close> afterwards.\<close>

lemma sync_core_conts:
  assumes c: "sync_core k" and r: "stat k (cur k) = Some THREAD_RUNNING"
    and new: "\<forall>f\<in>set fs. \<not> is_down f"
    and fin: "\<And>t. count_list fs (FinishCreate t) \<le> count_list (conts k (cur k)) (FinishCreate t)"
    and idl: "cur k = idle_thread k \<Longrightarrow> \<forall>f\<in>set fs. idle_frame f"
  defines "k' \<equiv> k\<lparr>conts := (conts k)(cur k := fs)\<rparr>"
  shows "sync_core k'" "woken k' s = woken k s - {cur k}"
proof -
  note d = sync_coreD [OF c]
  have nd: "\<not> in_down k' s (cur k)" for s using new by (auto simp: in_down_def k'_def)
  have nw: "cur k \<notin> set (sema_waiters k s)" for s using d(1) [of "cur k" s] r by auto
  have i: "in_down k' s t \<longleftrightarrow> in_down k s t \<and> t \<noteq> cur k" for s t
    using nd by (cases "t = cur k") (auto simp: in_down_def k'_def)
  have f: "FinishCreate t \<in> set (conts k u)" if "FinishCreate t \<in> set (conts k' u)" for t u
    using that fin [of t] by (cases "u = cur k") (auto simp: k'_def intro: count_list_le_in_set)
  have f1: "count_list (conts k' u) (FinishCreate t) = 1" if "FinishCreate t \<in> set (conts k' u)" for t u
  proof -
    have "count_list (conts k u) (FinishCreate t) = 1" using d(10) [OF f [OF that]] .
    moreover have "count_list (conts k' u) (FinishCreate t) \<noteq> 0" using that by (simp add: count_list_0_iff)
    ultimately show ?thesis using fin [of t] by (auto simp: k'_def split: if_splits)
  qed
  have st: "stat k' = stat k" "sema_waiters k' = sema_waiters k" "idle_thread k' = idle_thread k"
    "sema_value k' = sema_value k" by (simp_all add: k'_def)
  show "woken k' s = woken k s - {cur k}" by (auto simp: woken_def i st)
  show "sync_core k'"
    unfolding sync_core_def i st
  proof (intro conjI allI impI ballI; (elim conjE)?)
    fix u t assume "FinishCreate t \<in> set (conts k' u)"
    note f = f [OF this] and f1 = f1 [OF this]
    show "stat k t = Some THREAD_BLOCKED" "t \<noteq> idle_thread k" using d(7,8) [OF f] by blast+
    show "count_list (conts k' u) (FinishCreate t) = 1" by (rule f1)
    have "t \<noteq> cur k" using d(7) [OF f] r by auto
    then show "conts k' t = []" using d(9) [OF f] by (simp add: k'_def)
  next
    fix u t v assume "FinishCreate t \<in> set (conts k' u)" "FinishCreate t \<in> set (conts k' v)"
    then show "v = u" using f d(11) by blast
  next
    fix t f assume "f \<in> set (tl (conts k' t))"
    then show "\<not> is_down f" using d(6) new by (auto simp: k'_def split: if_splits dest: in_set_tlD)
  next
    fix f assume "f \<in> set (conts k' (idle_thread k))"
    then show "idle_frame f" using d(12) idl by (auto simp: k'_def split: if_splits)
  next
    fix t assume "stat k t = None \<or> stat k t = Some THREAD_DYING"
    then show "conts k' t = []" using d(13,14) [of t] r by (auto simp: k'_def)
  next
    have "{t. conts k' t \<noteq> []} \<subseteq> insert (cur k) {t. conts k t \<noteq> []}" by (auto simp: k'_def)
    then show "finite {t. conts k' t \<noteq> []}" using d(15) finite_subset by auto
  next
    fix s t assume "in_down k s t" "t \<notin> set (sema_waiters k s)"
    then show "stat k t = Some THREAD_READY \<or> stat k t = Some THREAD_RUNNING" by (rule d(5))
  next
    fix s t assume "t \<in> set (sema_waiters k s)"
    then show "t \<noteq> cur k" using nw by blast
  qed (erule d(1) d(2) d(3) | rule d(4))+
qed


text \<open>Blocking in the loop of \<open>sema_down\<close>: the running thread joins the queue.\<close>

lemma sync_core_wait:
  fixes s :: nat and lv :: bool
  assumes c: "sync_core k" and r: "stat k (cur k) = Some THREAD_RUNNING" "cur k \<noteq> idle_thread k"
    and old: "\<forall>f\<in>set (conts k (cur k)). \<not> is_down f"
  defines "k' \<equiv> set_status (push_conts (k\<lparr>sema_waiters := (sema_waiters k)(s := sema_waiters k s @ [cur k])\<rparr>)
     [DownLoop s lv]) (cur k) THREAD_BLOCKED"
  shows "sync_core k'" "woken k' u = woken k u"
proof -
  note d = sync_coreD [OF c]
  have th: "threads k (cur k) \<noteq> None" using r(1) by (auto simp: stat_def)
  have cn: "conts k' = (conts k)(cur k := DownLoop s lv # conts k (cur k))" by (simp add: k'_def)
  have nd: "\<not> in_down k u (cur k)" for u using old by (auto simp: in_down_def)
  have i: "in_down k' u t \<longleftrightarrow> (if t = cur k then u = s else in_down k u t)" for u t
    by (auto simp: in_down_def cn)
  have w: "sema_waiters k' = (sema_waiters k)(s := sema_waiters k s @ [cur k])" by (simp add: k'_def)
  have nw: "cur k \<notin> set (sema_waiters k u)" for u using d(1) [of "cur k" u] r(1) by auto
  have st: "stat k' t = (if t = cur k then Some THREAD_BLOCKED else stat k t)" for t
    using th by (auto simp: k'_def)
  have idl: "idle_thread k' = idle_thread k" by (simp add: k'_def)
  have f: "FinishCreate t \<in> set (conts k' u) \<longleftrightarrow> FinishCreate t \<in> set (conts k u)"
    "count_list (conts k' u) (FinishCreate t) = count_list (conts k u) (FinishCreate t)" for t u
    by (auto simp: cn)
  show "woken k' u = woken k u" using nw nd by (auto simp: woken_def i w)
  show "sync_core k'"
    unfolding sync_core_def idl f
  proof (intro conjI allI impI ballI; (elim conjE)?)
    fix u t assume "t \<in> set (sema_waiters k' u)"
    then have "t = cur k \<and> u = s \<or> t \<in> set (sema_waiters k u) \<and> t \<noteq> cur k"
      using nw by (auto simp: w split: if_splits)
    then show "stat k' t = Some THREAD_BLOCKED" "t \<noteq> idle_thread k" "in_down k' u t"
      using d(1,2,3) r(2) by (auto simp: st i)
  next
    fix u t assume "in_down k' u t" "t \<notin> set (sema_waiters k' u)"
    then have "in_down k u t" "t \<notin> set (sema_waiters k u)" "t \<noteq> cur k" using nd
      by (auto simp: i w split: if_splits)
    then show "stat k' t = Some THREAD_READY \<or> stat k' t = Some THREAD_RUNNING"
      using d(5) by (auto simp: st)
  next
    fix u t assume fc: "FinishCreate t \<in> set (conts k u)"
    then show "stat k' t = Some THREAD_BLOCKED" "t \<noteq> idle_thread k" "count_list (conts k u) (FinishCreate t) = 1"
      using d(7,8,10) [OF fc] by (auto simp: st)
    have "t \<noteq> cur k" using d(7) [OF fc] r(1) by auto
    then show "conts k' t = []" using d(9) [OF fc] by (simp add: cn)
  next
    fix t assume "stat k' t = None \<or> stat k' t = Some THREAD_DYING"
    then show "conts k' t = []" using d(13,14) [of t] by (auto simp: cn st split: if_splits)
  next
    have "{t. conts k' t \<noteq> []} \<subseteq> insert (cur k) {t. conts k t \<noteq> []}" by (auto simp: cn)
    then show "finite {t. conts k' t \<noteq> []}" using d(15) finite_subset by auto
  next
    fix t f assume "f \<in> set (tl (conts k' t))"
    then show "\<not> is_down f" using d(6) old by (auto simp: cn split: if_splits)
  next
    fix f assume "f \<in> set (conts k' (idle_thread k))"
    then show "idle_frame f" using d(12) r(2) by (auto simp: cn)
  next
    fix u show "distinct (sema_waiters k' u)" using d(4) nw by (auto simp: w)
  next
    fix u t v assume "FinishCreate t \<in> set (conts k u)" "FinishCreate t \<in> set (conts k v)"
    then show "v = u" by (rule d(11))
  qed
qed


text \<open>Waking up the first thread of a queue.\<close>

lemma sync_core_wake:
  fixes s :: nat
  assumes c: "sync_core k" and w: "sema_waiters k s = t # ts"
  defines "k' \<equiv> unblocked (k\<lparr>sema_waiters := (sema_waiters k)(s := ts)\<rparr>) t"
  shows "sync_core k'" "woken k' u = (if u = s then insert t (woken k s) else woken k u)"
    "t \<notin> woken k s" "stat k t = Some THREAD_BLOCKED" "t \<noteq> idle_thread k"
proof -
  note d = sync_coreD [OF c]
  have t: "t \<in> set (sema_waiters k s)" using w by simp
  show tb: "stat k t = Some THREAD_BLOCKED" and ti: "t \<noteq> idle_thread k" using d(1,2) [OF t] by auto
  have cn: "conts k' = conts k" "idle_thread k' = idle_thread k" by (simp_all add: k'_def unblocked_def)
  have i: "in_down k' u v = in_down k u v" for u v by (simp add: in_down_def cn)
  have ws: "sema_waiters k' = (sema_waiters k)(s := ts)" by (simp add: k'_def unblocked_def)
  have st: "stat k' v = (if v = t then Some THREAD_READY else stat k v)" for v
    using tb by (auto simp: k'_def unblocked_def stat_def)
  have dw: "t \<notin> set ts" using d(4) [of s] w by simp
  have one: "u = s" if "t \<in> set (sema_waiters k u)" for u
    using d(3) [OF t] d(3) [OF that] by (auto simp: in_down_def)
  show "woken k' u = (if u = s then insert t (woken k s) else woken k u)"
    using w d(3) [OF t] dw by (auto simp: woken_def i ws)
  show "t \<notin> woken k s" using w by (simp add: woken_def)
  show "sync_core k'"
    unfolding sync_core_def cn i
  proof (intro conjI allI impI ballI; (elim conjE)?)
    fix u v assume "v \<in> set (sema_waiters k' u)"
    then have v: "v \<in> set (sema_waiters k u)" "v \<noteq> t" using w dw one by (auto simp: ws split: if_splits)
    show "stat k' v = Some THREAD_BLOCKED" "v \<noteq> idle_thread k" "in_down k u v"
      using d(1,2,3) [OF v(1)] v(2) by (auto simp: st)
  next
    fix u v assume "in_down k u v" "v \<notin> set (sema_waiters k' u)"
    then show "stat k' v = Some THREAD_READY \<or> stat k' v = Some THREAD_RUNNING"
      using d(5) [of u v] w by (auto simp: st ws split: if_splits)
  next
    fix u v assume fc: "FinishCreate v \<in> set (conts k u)"
    have "v \<noteq> t" using d(9) [OF fc] d(3) [OF t] by (auto simp: in_down_def)
    then show "stat k' v = Some THREAD_BLOCKED" using d(7) [OF fc] by (simp add: st)
    show "v \<noteq> idle_thread k" "conts k v = []" "count_list (conts k u) (FinishCreate v) = 1"
      using d(8,9,10) [OF fc] by auto
  next
    fix v assume "stat k' v = None \<or> stat k' v = Some THREAD_DYING"
    then show "conts k v = []" using d(13,14) [of v] by (auto simp: st split: if_splits)
  next
    fix u show "distinct (sema_waiters k' u)" using d(4) [of u] w by (auto simp: ws)
  next
    fix u v v' assume "FinishCreate v \<in> set (conts k u)" "FinishCreate v \<in> set (conts k v')"
    then show "v' = u" by (rule d(11))
  next
    show "finite {t. conts k t \<noteq> []}" by (rule d(15))
  qed (erule d(6) d(12))+
qed

lemma intr_set_level_run:
  "(lv \<Longrightarrow> \<not> in_external_intr k) \<Longrightarrow> intr_set_level k lv = Some (k\<lparr>intr_on := lv\<rparr>)"
  by (simp add: intr_set_level_def intr_enable_def intr_disable_def intr_context_def)

lemma sema_up_ok:
  assumes ok: "sched_ok k" "sync_core k" "\<And>u. wake_ok k u 0" and s: "s \<noteq> NULL"
    and i: "intr_on k \<Longrightarrow> \<not> in_external_intr k"
  shows "\<exists>k'. sema_up k s = Some k' \<and> sched_ok k' \<and> sync_core k' \<and> (\<forall>u. wake_ok k' u 0) \<and>
     cur k' = cur k \<and> conts k' = conts k \<and> intr_on k' = intr_on k \<and>
     in_external_intr k' = in_external_intr k \<and> idle_thread k' = idle_thread k"
proof (cases "sema_waiters k s")
  case Nil
  let ?k = "k\<lparr>sema_value := (sema_value k)(s := sema_value k s + 1), intr_on := intr_on k\<rparr>"
  have "sema_up k s = Some ?k"
    using Nil s i by (simp add: sema_up_def Let_def intr_disable_def intr_set_level_run)
  moreover have "sync_core ?k" using ok(2) by simp
  moreover have "wake_ok ?k u 0" for u
    using ok(3) [of u] Nil by (simp add: wake_ok_def woken_def in_down_def)
  ultimately show ?thesis using ok(1) by simp
next
  case (Cons t ts)
  let ?kz = "k\<lparr>intr_on := False\<rparr>"
  have c0: "sync_core ?kz" using ok(2) by simp
  define k1 where "k1 = ?kz\<lparr>sema_waiters := (sema_waiters k)(s := ts)\<rparr>"
  have k1: "k1 = ?kz\<lparr>sema_waiters := (sema_waiters ?kz)(s := ts)\<rparr>" by (simp add: k1_def)
  have w0: "sema_waiters ?kz s = t # ts" using Cons by simp
  note wk = sync_core_wake [OF c0 w0, folded k1]
  have ok1: "sched_ok k1" using ok(1) by (simp add: k1_def)
  have un: "thread_unblock k1 t = Some (unblocked k1 t)" "sched_ok (unblocked k1 t)"
    using thread_unblock_run [OF ok1, of t] wk(4,5) by (simp_all add: k1_def)
  let ?k = "unblocked k1 t\<lparr>sema_value := (sema_value k)(s := sema_value k s + 1), intr_on := intr_on k\<rparr>"
  have "sema_up k s = Some ?k"
    using Cons s i un(1) [unfolded k1_def]
    by (simp add: sema_up_def Let_def intr_disable_def intr_set_level_run k1_def)
       (simp add: intr_set_level_run unblocked_def set_thread_def)
  moreover have "sched_ok ?k" using un(2) by simp
  moreover have "sync_core ?k" using wk(1) by simp
  moreover have "wake_ok ?k u 0" for u
  proof (cases "u = s")
    case True
    have "card (insert t (woken ?kz s)) = Suc (card (woken ?kz s))"
      using wk(3) finite_woken [OF c0] by simp
    moreover have "woken ?k s = insert t (woken ?kz s)"
      using wk(2) [of s] by (simp add: woken_def in_down_def)
    moreover have "unat (sema_value k s) \<le> card (woken ?kz s)"
      using ok(3) [of s] Cons by (simp add: wake_ok_def woken_def in_down_def)
    moreover have "unat (sema_value k s + 1) \<le> Suc (unat (sema_value k s))"
      by (simp add: unat_word_ariths)
    ultimately show ?thesis using True by (simp add: wake_ok_def)
  next
    case False
    have "woken ?k u = woken k u"
      using wk(2) [of u] False by (simp add: woken_def in_down_def)
    then show ?thesis using False ok(3) [of u] by (simp add: wake_ok_def k1_def unblocked_def)
  qed
  ultimately show ?thesis by (simp add: k1_def unblocked_def)
qed

lemma sema_down_loop_ok:
  assumes ok: "sched_ok k" "sync_core k" "\<not> in_external_intr k" "\<not> intr_on k" "cur k \<noteq> idle_thread k"
    and wk: "\<And>u. u \<noteq> s \<Longrightarrow> wake_ok k u 0" "wake_ok k s 1"
    and old: "\<forall>f\<in>set (conts k (cur k)). \<not> is_down f"
  shows "\<exists>k'. sema_down_loop k s lv = Some k' \<and> kernel_ok k'"
proof (cases "sema_value k s = 0")
  case True
  let ?ka = "push_conts (k\<lparr>sema_waiters := (sema_waiters k)(s := sema_waiters k s @ [cur k])\<rparr>) [DownLoop s lv]"
  let ?kb = "set_status ?ka (cur k) THREAD_BLOCKED"
  have r: "stat k (cur k) = Some THREAD_RUNNING" by (rule sched_okD(2) [OF ok(1)])
  note sw = sync_core_wait [OF ok(2) r ok(5) old, of s lv]
  have ok1: "sched_ok ?ka" using ok(1) by simp
  have b: "thread_block ?ka = Some (switched ?kb)" "sched_ok (switched ?kb)" "queues_ok ?kb"
    using thread_block_run [OF ok1] ok(3,4) by simp_all
  have "sema_down_loop k s lv = Some (switched ?kb)"
    using True b(1) sched_okD(4) [OF ok(1)] by (simp add: sema_down_loop_def Let_def)
  moreover have "sync_core (switched ?kb)" by (rule switched_sync [OF b(3) sw(1)])
  moreover have "wake_ok (switched ?kb) u 0" for u
  proof -
    have "woken (switched ?kb) u = woken k u"
      using sw(2) [of u] by (simp add: woken_def in_down_def)
    then show ?thesis using wk(1) [of u] True by (cases "u = s") (auto simp: wake_ok_def)
  qed
  ultimately show ?thesis using b(2) ok(3,4) by (simp add: kernel_ok_def)
next
  case False
  let ?k = "k\<lparr>sema_value := (sema_value k)(s := sema_value k s - 1), intr_on := lv\<rparr>"
  have "sema_down_loop k s lv = Some ?k"
    using False ok(3) by (simp add: sema_down_loop_def Let_def intr_set_level_run)
  moreover have "unat (sema_value k s - 1) = unat (sema_value k s) - 1"
    using False measure_unat [of "sema_value k s"] unat_minus_one [of "sema_value k s"] by simp
  then have "wake_ok ?k u 0" for u
    using wk(1) [of u] wk(2) by (cases "u = s") (auto simp: wake_ok_def woken_def in_down_def)
  moreover have "sync_core ?k" using ok(2) by simp
  moreover have "\<not> in_down ?k u (cur ?k)" for u using old by (auto simp: in_down_def)
  ultimately show ?thesis using ok(1,3) by (simp add: kernel_ok_def)
qed


text \<open>Taking the next pending action off the running thread's stack.\<close>

lemma pop_conts_simps [simp]:
  "threads (pop_conts k) = threads k" "ready_list (pop_conts k) = ready_list k"
  "idle_thread (pop_conts k) = idle_thread k" "cur (pop_conts k) = cur k"
  "intr_on (pop_conts k) = intr_on k" "in_external_intr (pop_conts k) = in_external_intr k"
  "conts (pop_conts k) = (conts k)(cur k := tl (conts k (cur k)))"
  "sema_value (pop_conts k) = sema_value k" "sema_waiters (pop_conts k) = sema_waiters k"
  "sched_ok (pop_conts k) = sched_ok k" "stat (pop_conts k) = stat k"
  "lock_holder (pop_conts k) = lock_holder k" "cond_waiters (pop_conts k) = cond_waiters k"
  by (simp_all add: pop_conts_def)

lemma pop_conts_ok:
  assumes k: "kernel_ok k" and f: "conts k (cur k) = f # fs"
  shows "sync_core (pop_conts k)" "\<forall>g\<in>set fs. \<not> is_down g"
    "wake_ok (pop_conts k) u (if is_down f \<and> in_down k u (cur k) then 1 else 0)"
proof -
  have c: "sync_core k" and r: "stat k (cur k) = Some THREAD_RUNNING" and w: "wake_ok k u 0"
    using k sched_okD(2) by (auto simp: kernel_ok_def)
  note d = sync_coreD [OF c]
  show new: "\<forall>g\<in>set fs. \<not> is_down g" using d(6) [of _ "cur k"] f by simp
  have idl: "cur k = idle_thread k \<Longrightarrow> \<forall>g\<in>set fs. idle_frame g" using d(12) f by auto
  have cnt: "count_list fs (FinishCreate t) \<le> count_list (conts k (cur k)) (FinishCreate t)" for t
    using f by simp
  note p = sync_core_conts [OF c r new cnt idl]
  have e: "pop_conts k = k\<lparr>conts := (conts k)(cur k := fs)\<rparr>" using f by (simp add: pop_conts_def)
  show "sync_core (pop_conts k)" unfolding e by (rule p(1))
  have wk: "woken (pop_conts k) u = woken k u - {cur k}" unfolding e by (rule p(2))
  show "wake_ok (pop_conts k) u (if is_down f \<and> in_down k u (cur k) then 1 else 0)"
  proof (cases "in_down k u (cur k)")
    case True
    have "cur k \<notin> set (sema_waiters k u)" using d(1) [of "cur k" u] r by auto
    then have "cur k \<in> woken k u" using True by (simp add: woken_def)
    then have "card (woken k u - {cur k}) = card (woken k u) - 1" "0 < card (woken k u)"
      using finite_woken [OF c, of u] by (auto simp: card_gt_0_iff)
    moreover have "is_down f" using True f by (auto simp: in_down_def)
    ultimately show ?thesis using w True by (auto simp: wake_ok_def wk)
  next
    case False
    then have "woken k u - {cur k} = woken k u" by (auto simp: woken_def)
    then show ?thesis using w False by (simp add: wake_ok_def wk)
  qed
qed

text \<open>
  What holds of a state in which the running thread has nothing of \<open>sema_down\<close> pending: the
  common starting point of the other actions.
\<close>

definition active_ok :: "kernel \<Rightarrow> bool" where
  "active_ok k \<longleftrightarrow> sched_ok k \<and> \<not> in_external_intr k \<and> sync_core k \<and> (\<forall>s. wake_ok k s 0) \<and>
     (\<forall>f\<in>set (conts k (cur k)). \<not> is_down f)"

lemma active_kernel_ok: "active_ok k \<Longrightarrow> kernel_ok k"
  by (auto simp: active_ok_def kernel_ok_def in_down_def)

lemma active_okD:
  assumes "active_ok k"
  shows "sched_ok k" "\<not> in_external_intr k" "sync_core k" "wake_ok k s 0"
    "\<forall>f\<in>set (conts k (cur k)). \<not> is_down f" "stat k (cur k) = Some THREAD_RUNNING"
    "thread_current k = Some (cur k)"
  using assms sched_okD(2,4) [of k] by (auto simp: active_ok_def)

lemma active_ok_cong:
  assumes "conts k' = conts k" "sema_waiters k' = sema_waiters k" "threads k' = threads k"
    "idle_thread k' = idle_thread k" "sema_value k' = sema_value k" "cur k' = cur k"
    "ready_list k' = ready_list k" "all_list k' = all_list k" "initial_thread k' = initial_thread k"
    "in_external_intr k' = in_external_intr k"
  shows "active_ok k' = active_ok k"
  using assms sched_ok_cong [of k' k] sync_core_cong [of k' k] wake_ok_cong [of k' k]
  by (simp add: active_ok_def)

lemma active_ok_irrelevant [simp]:
  "active_ok (k\<lparr>intr_on := b\<rparr>) = active_ok k" "active_ok (k\<lparr>yield_on_return := b\<rparr>) = active_ok k"
  "active_ok (k\<lparr>thread_ticks := n\<rparr>) = active_ok k" "active_ok (k\<lparr>idle_ticks := i\<rparr>) = active_ok k"
  "active_ok (k\<lparr>kernel_ticks := i\<rparr>) = active_ok k" "active_ok (k\<lparr>user_ticks := i\<rparr>) = active_ok k"
  "active_ok (k\<lparr>next_tid := i\<rparr>) = active_ok k" "active_ok (k\<lparr>lock_holder := h\<rparr>) = active_ok k"
  "active_ok (k\<lparr>cond_waiters := cw\<rparr>) = active_ok k"
  by (rule active_ok_cong; simp)+

lemma active_ok_push:
  assumes a: "active_ok k" and new: "\<forall>f\<in>set gs. \<not> is_down f"
    and fin: "\<And>t. FinishCreate t \<notin> set gs" and idl: "cur k = idle_thread k \<Longrightarrow> \<forall>f\<in>set gs. idle_frame f"
  shows "active_ok (push_conts k gs)"
proof -
  note d = active_okD [OF a]
  have e: "push_conts k gs = k\<lparr>conts := (conts k)(cur k := gs @ conts k (cur k))\<rparr>" by (simp add: push_conts_def)
  have n: "\<forall>f\<in>set (gs @ conts k (cur k)). \<not> is_down f" using new d(5) by auto
  have i: "cur k = idle_thread k \<Longrightarrow> \<forall>f\<in>set (gs @ conts k (cur k)). idle_frame f"
    using idl sync_coreD(12) [OF d(3)] by auto
  have c: "count_list (gs @ conts k (cur k)) (FinishCreate t) \<le> count_list (conts k (cur k)) (FinishCreate t)" for t
    using fin [of t] by (simp add: count_list_0_iff [THEN iffD2])
  note p = sync_core_conts [OF d(3,6) n c i]
  have "cur k \<notin> woken k s" for s using d(5) by (auto simp: woken_def in_down_def)
  then have "wake_ok (push_conts k gs) s 0" for s
    using d(4) [of s] p(2) [of s] unfolding e by (simp add: wake_ok_def)
  then show ?thesis using d p(1) n unfolding active_ok_def e by simp
qed


text \<open>The running thread gives up the CPU outside \<open>sema_down\<close>.\<close>

lemma sync_core_leave:
  assumes c: "sync_core k" and r: "stat k (cur k) = Some THREAD_RUNNING"
    and old: "\<forall>f\<in>set (conts k (cur k)). \<not> is_down f"
    and dy: "st = THREAD_DYING \<Longrightarrow> conts k (cur k) = []"
    and eq: "conts k' = conts k" "sema_waiters k' = sema_waiters k" "idle_thread k' = idle_thread k"
      "\<And>t. stat k' t = (if t = cur k then Some st else stat k t)"
  shows "sync_core k'"
proof -
  note d = sync_coreD [OF c]
  have i: "in_down k' u t = in_down k u t" for u t by (rule in_down_cong [OF eq(1)])
  have nd: "\<not> in_down k u (cur k)" for u using old by (auto simp: in_down_def)
  show ?thesis
    unfolding sync_core_def i eq(1-3)
  proof (intro conjI allI impI ballI; (elim conjE)?)
    fix u t assume w: "t \<in> set (sema_waiters k u)"
    show "stat k' t = Some THREAD_BLOCKED" using d(1) [OF w] d(3) [OF w] nd [of u] by (auto simp: eq(4))
  next
    fix u t assume "in_down k u t" "t \<notin> set (sema_waiters k u)"
    then show "stat k' t = Some THREAD_READY \<or> stat k' t = Some THREAD_RUNNING"
      using d(5) [of u t] nd [of u] by (auto simp: eq(4))
  next
    fix u t assume fc: "FinishCreate t \<in> set (conts k u)"
    have "t \<noteq> cur k" using d(7) [OF fc] r by auto
    then show "stat k' t = Some THREAD_BLOCKED" using d(7) [OF fc] by (simp add: eq(4))
  next
    fix t assume "stat k' t = None \<or> stat k' t = Some THREAD_DYING"
    then show "conts k t = []" using d(13,14) [of t] dy by (auto simp: eq(4) split: if_splits)
  next
    show "finite {t. conts k t \<noteq> []}" by (rule d(15))
  next
    fix u t v assume "FinishCreate t \<in> set (conts k u)" "FinishCreate t \<in> set (conts k v)"
    then show "v = u" by (rule d(11))
  qed (erule d(2) d(3) d(6) d(8) d(9) d(10) d(12) | rule d(4))+
qed

lemma switched_kernel_ok:
  assumes "queues_ok k" "sched_ok (switched k)" "sync_core k" "\<And>s. wake_ok k s 0"
    "\<not> in_external_intr k" "\<not> intr_on k"
  shows "kernel_ok (switched k)"
  using assms switched_sync [of k] wake_ok_cong [of "switched k" k] by (simp add: kernel_ok_def)

lemma thread_yield_act:
  assumes a: "active_ok k"
  shows "\<exists>k'. thread_yield k = Some k' \<and> kernel_ok k'"
proof -
  note d = active_okD [OF a] and y = thread_yield_run [OF active_okD(1,2) [OF a]]
  have p: "active_ok (push_conts k [SetLevel (intr_on k)])" by (rule active_ok_push [OF a]) auto
  note dp = active_okD [OF p]
  have th: "threads k (cur k) \<noteq> None" using d(6) by (auto simp: stat_def)
  have "sync_core (yielding k)"
    by (rule sync_core_leave [OF dp(3,6,5), of THREAD_READY]) (use th in \<open>simp_all add: yielding_def\<close>)
  moreover have "wake_ok (yielding k) s 0" for s
    using dp(4) [of s] wake_ok_cong [of "yielding k" "push_conts k [SetLevel (intr_on k)]"]
    by (simp add: yielding_def)
  moreover have "\<not> in_external_intr (yielding k)" "\<not> intr_on (yielding k)" using d(2) by (simp_all add: yielding_def)
  ultimately show ?thesis using y switched_kernel_ok [OF y(3,2)] by blast
qed

lemma thread_exit_act:
  assumes a: "active_ok k" and c: "cur k \<noteq> idle_thread k" "conts k (cur k) = []"
  shows "\<exists>k'. thread_exit k = Some k' \<and> kernel_ok k'"
proof -
  note d = active_okD [OF a] and y = thread_exit_run [OF active_okD(1,2) [OF a] c(1)]
  have th: "threads k (cur k) \<noteq> None" using d(6) by (auto simp: stat_def)
  have "sync_core (exiting k)"
    by (rule sync_core_leave [OF d(3,6,5), of THREAD_DYING]) (use th c in \<open>simp_all add: exiting_def\<close>)
  moreover have "wake_ok (exiting k) s 0" for s
    using d(4) [of s] wake_ok_cong [of "exiting k" k] by (simp add: exiting_def)
  moreover have "\<not> in_external_intr (exiting k)" "\<not> intr_on (exiting k)" using d(2) by (simp_all add: exiting_def)
  ultimately show ?thesis using y switched_kernel_ok [OF y(3,2)] by blast
qed

lemma idle_loop_act:
  assumes a: "active_ok k"
  shows "\<exists>k'. idle_loop k = Some k' \<and> kernel_ok k'"
proof -
  let ?k = "push_conts (intr_disable k) [SetLevel True, IdleLoop]"
  have p: "active_ok ?k" using a by (intro active_ok_push) (simp_all add: intr_disable_def)
  note d = active_okD [OF p]
  have i: "\<not> intr_on ?k" by (simp add: intr_disable_def)
  note b = thread_block_run [OF d(1) i d(2)]
  let ?kb = "set_status ?k (cur ?k) THREAD_BLOCKED"
  have th: "threads ?k (cur ?k) \<noteq> None" using d(6) unfolding stat_def by auto
  have "sync_core ?kb"
    by (rule sync_core_leave [OF d(3,6,5), of THREAD_BLOCKED])
       (use th in \<open>simp_all only: set_thread_simps stat_set_status\<close>, auto)
  moreover have "wake_ok ?kb s 0" for s
    using d(4) [of s] wake_ok_cong [of ?kb ?k] by simp
  moreover have "\<not> in_external_intr ?kb" "\<not> intr_on ?kb" using d(2) i by simp_all
  ultimately show ?thesis using b switched_kernel_ok [OF b(3,2)] unfolding idle_loop_def by blast
qed


lemma wake_ok_mono: "wake_ok k s d \<Longrightarrow> d \<le> d' \<Longrightarrow> wake_ok k s d'"
  by (auto simp: wake_ok_def)

lemma sema_down_act:
  assumes a: "active_ok k" and c: "cur k \<noteq> idle_thread k" and s: "sema_down k s = Some k'"
  shows "kernel_ok k'"
proof -
  have "active_ok (k\<lparr>intr_on := False\<rparr>)" using a by simp
  note d = active_okD [OF this]
  have "\<exists>k'. sema_down_loop (k\<lparr>intr_on := False\<rparr>) s (intr_on k) = Some k' \<and> kernel_ok k'"
    using d c wake_ok_mono [OF d(4)] by (intro sema_down_loop_ok) auto
  then show ?thesis using s by (auto simp: sema_down_def Let_def intr_disable_def)
qed

lemma sema_try_down_act:
  assumes a: "active_ok k" and s: "sema_try_down k s = Some (b, k')"
  shows "active_ok k'" "cur k' = cur k" "idle_thread k' = idle_thread k"
proof -
  note d = active_okD [OF a]
  let ?k = "k\<lparr>sema_value := (sema_value k)(s := sema_value k s - 1)\<rparr>"
  have "unat (sema_value k s - 1) = unat (sema_value k s) - 1" if "sema_value k s \<noteq> 0"
    using that unat_minus_one [of "sema_value k s"] by simp
  then have "wake_ok ?k u 0" if "sema_value k s \<noteq> 0" for u
    using d(4) [of u] that by (cases "u = s") (auto simp: wake_ok_def woken_def in_down_def)
  then have "active_ok ?k" if "sema_value k s \<noteq> 0" using d that by (simp add: active_ok_def)
  moreover have "k' = (if sema_value k s > 0 then ?k else k)\<lparr>intr_on := intr_on k\<rparr>"
    using s d(2) by (simp add: sema_try_down_def Let_def intr_disable_def intr_set_level_run split: if_splits)
  ultimately show "active_ok k'" "cur k' = cur k" "idle_thread k' = idle_thread k"
    using a by (auto simp: word_gt_0)
qed

lemma sema_up_act:
  assumes a: "active_ok k" and s: "sema_up k s = Some k'"
  shows "active_ok k'"
proof -
  note d = active_okD [OF a]
  have "s \<noteq> NULL" using s by (simp add: sema_up_def)
  from sema_up_ok [OF d(1,3,4) this d(2)] s d show ?thesis by (auto simp: active_ok_def)
qed

lemma lock_acquire_act:
  assumes a: "active_ok k" and c: "cur k \<noteq> idle_thread k" and l: "lock_acquire k l = Some k'"
  shows "kernel_ok k'"
proof -
  have "active_ok (push_conts k [SetHolder l])" using a c by (intro active_ok_push) auto
  moreover have "sema_down (push_conts k [SetHolder l]) (lock_sema l) = Some k'"
    using l active_okD(7) [OF a]
    by (simp add: lock_acquire_def lock_held_by_current_thread_def split: if_splits)
  ultimately show ?thesis using sema_down_act c by simp
qed

lemma set_holder_act: "active_ok k \<Longrightarrow> set_holder k l = Some k' \<Longrightarrow> active_ok k'"
  using active_okD(7) [of k] by (auto simp: set_holder_def)

lemma lock_try_acquire_act:
  assumes a: "active_ok k" and c: "cur k \<noteq> idle_thread k" and l: "lock_try_acquire k l = Some (b, k')"
  shows "active_ok k'"
proof -
  obtain b' ka where r: "sema_try_down k (lock_sema l) = Some (b', ka)" "k' = (if b' then push_conts ka [SetHolder l] else ka)"
    using l by (auto simp: lock_try_acquire_def bind_eq_Some_conv)
  note t = sema_try_down_act [OF a r(1)]
  have "active_ok (push_conts ka [SetHolder l])" using t c by (intro active_ok_push) auto
  then show ?thesis using t(1) r(2) by simp
qed

lemma lock_release_act:
  assumes a: "active_ok k" and c: "cur k \<noteq> idle_thread k" and l: "lock_release k l = Some k'"
  shows "active_ok k'"
proof -
  have "k' = push_conts (k\<lparr>lock_holder := (lock_holder k)(l := NULL)\<rparr>) [SemaUp (lock_sema l)]"
    using l by (auto simp: lock_release_def bind_eq_Some_conv)
  then show ?thesis using a c by (auto intro!: active_ok_push)
qed

lemma sema_init_act:
  assumes a: "active_ok k" and n: "\<forall>t. \<not> in_down k w t" and s: "sema_init k w v = Some k'"
  shows "active_ok k'"
proof -
  note d = active_okD [OF a]
  have w: "sema_waiters k w = []"
    using n sync_coreD(3) [OF d(3), of _ w] by (cases "sema_waiters k w") auto
  then have e: "(sema_waiters k)(w := []) = sema_waiters k" by auto
  have k': "k' = k\<lparr>sema_value := (sema_value k)(w := v)\<rparr>"
    using s by (auto simp: sema_init_def e)
  have "sync_core k' = sync_core k" by (rule sync_core_cong) (simp_all add: k')
  moreover have "wake_ok k' u 0" for u
    using d(4) [of u] w by (cases "u = w") (auto simp: wake_ok_def woken_def in_down_def k')
  moreover have "sched_ok k' = sched_ok k" by (simp add: k')
  ultimately show ?thesis using d by (simp add: active_ok_def k')
qed

lemma cond_wait_act:
  assumes a: "active_ok k" and c: "cur k \<noteq> idle_thread k" and n: "\<forall>t. \<not> in_down k w t"
    and s: "cond_wait k cv l w = Some k'"
  shows "active_ok k'"
proof -
  obtain ka where ka: "sema_init k w 0 = Some ka"
    "k' = push_conts (ka\<lparr>cond_waiters := (cond_waiters ka)(cv := cond_waiters ka cv @ [w])\<rparr>)
       [Release l, Down w, Acquire l]"
    using s by (auto simp: cond_wait_def bind_eq_Some_conv Let_def)
  have "cur ka = cur k" "idle_thread ka = idle_thread k" using ka(1) by (auto simp: sema_init_def)
  then show ?thesis using sema_init_act [OF a n ka(1)] c unfolding ka(2)
    by (intro active_ok_push) auto
qed

lemma cond_signal_act:
  assumes a: "active_ok k" and s: "cond_signal k cv l = Some k'"
  shows "active_ok k'"
proof (cases "cond_waiters k cv = []")
  case True
  then show ?thesis using s a by (auto simp: cond_signal_def bind_eq_Some_conv)
next
  case False
  then have "sema_up (k\<lparr>cond_waiters := (cond_waiters k)(cv := tl (cond_waiters k cv))\<rparr>)
      (hd (cond_waiters k cv)) = Some k'"
    using s by (auto simp: cond_signal_def bind_eq_Some_conv)
  then show ?thesis by (rule sema_up_act [rotated]) (simp add: a)
qed

lemma cond_broadcast_act:
  assumes a: "active_ok k" and c: "cur k \<noteq> idle_thread k" and s: "cond_broadcast k cv l = Some k'"
  shows "active_ok k'"
proof (cases "cond_waiters k cv = []")
  case True
  then show ?thesis using s a by (auto simp: cond_broadcast_def)
next
  case False
  have "active_ok (push_conts k [Broadcast cv l])" using a c by (intro active_ok_push) auto
  then show ?thesis using cond_signal_act s False by (auto simp: cond_broadcast_def)
qed


text \<open>Creating threads.\<close>

lemma sched_ok_set_thread:
  assumes "\<And>th. status (f th) = status th" "\<And>th. magic (f th) = magic th"
  shows "sched_ok (set_thread k t f) = sched_ok k" "stat (set_thread k t f) = stat k"
proof -
  show st: "stat (set_thread k t f) = stat k"
    by (auto simp: stat_def fun_eq_iff option.map_comp o_def assms)
  have mg: "(\<forall>u th. threads (set_thread k t f) u = Some th \<longrightarrow> magic th = THREAD_MAGIC) \<longleftrightarrow>
      (\<forall>u th. threads k u = Some th \<longrightarrow> magic th = THREAD_MAGIC)"
    by (auto simp: assms)
  have dom: "threads (set_thread k t f) u = None \<longleftrightarrow> threads k u = None" for u by simp
  show "sched_ok (set_thread k t f) = sched_ok k"
    by (simp only: sched_ok_def queues_ok_def st mg dom set_thread_simps(2-6))
qed

lemma active_ok_set_thread:
  assumes "\<And>th. status (f th) = status th" "\<And>th. magic (f th) = magic th"
  shows "active_ok (set_thread k t f) = active_ok k"
proof -
  note s = sched_ok_set_thread [OF assms, of k t]
  have "sync_core (set_thread k t f) = sync_core k"
    unfolding sync_core_def in_down_def s(2) by simp
  then show ?thesis using wake_ok_cong [of "set_thread k t f" k] by (simp add: active_ok_def s)
qed

lemma sync_core_new:
  assumes c: "sync_core k" and r: "stat k (cur k) = Some THREAD_RUNNING"
    and old: "\<forall>f\<in>set (conts k (cur k)). \<not> is_down f"
    and t: "threads k t = None" "t \<noteq> idle_thread k" and i: "cur k \<noteq> idle_thread k"
    and eq: "conts k' = (conts k)(cur k := [Acquire tid_lock, TakeTid t, FinishCreate t] @ conts k (cur k))"
      "sema_waiters k' = sema_waiters k" "idle_thread k' = idle_thread k"
      "\<And>u. stat k' u = (if u = t then Some THREAD_BLOCKED else stat k u)"
  shows "sync_core k'" "woken k' s = woken k s"
proof -
  note d = sync_coreD [OF c]
  have st: "stat k t = None" using t(1) by (simp add: stat_def)
  have tc: "t \<noteq> cur k" using st r by auto
  have ct: "conts k t = []" by (rule d(13) [OF st])
  have nf: "FinishCreate t \<notin> set (conts k u)" for u using d(7) [of t u] st by auto
  have nd: "\<not> in_down k u (cur k)" for u using old by (auto simp: in_down_def)
  have i': "in_down k' u v = in_down k u v" for u v
    using nd by (cases "v = cur k") (auto simp: in_down_def eq(1))
  have fc: "FinishCreate v \<in> set (conts k' u) \<longleftrightarrow> (v = t \<and> u = cur k) \<or> FinishCreate v \<in> set (conts k u)" for u v
    by (auto simp: eq(1))
  show "woken k' s = woken k s" by (simp add: woken_def i' eq(2))
  show "sync_core k'"
    unfolding sync_core_def i' eq(2,3)
  proof (intro conjI allI impI ballI; (elim conjE)?)
    fix u v assume w: "v \<in> set (sema_waiters k u)"
    show "stat k' v = Some THREAD_BLOCKED" "v \<noteq> idle_thread k" "in_down k u v"
      using d(1,2,3) [OF w] by (auto simp: eq(4))
  next
    fix u v assume "in_down k u v" "v \<notin> set (sema_waiters k u)"
    then show "stat k' v = Some THREAD_READY \<or> stat k' v = Some THREAD_RUNNING"
      using d(5) [of u v] st by (auto simp: eq(4))
  next
    fix u v assume "FinishCreate v \<in> set (conts k' u)"
    then have v: "(v = t \<and> u = cur k) \<or> (v \<noteq> t \<and> FinishCreate v \<in> set (conts k u))" using nf by (auto simp: fc)
    show "stat k' v = Some THREAD_BLOCKED" "v \<noteq> idle_thread k" using v d(7,8) t(2) by (auto simp: eq(4))
    show "conts k' v = []" using v ct tc d(7,9) r by (auto simp: eq(1))
    show "count_list (conts k' u) (FinishCreate v) = 1"
      using v d(10) nf [of "cur k"] by (auto simp: eq(1) count_list_0_iff)
  next
    fix u v x assume "FinishCreate v \<in> set (conts k' u)" "FinishCreate v \<in> set (conts k' x)"
    then show "x = u" using nf d(11) by (auto simp: fc)
  next
    fix v f assume "f \<in> set (tl (conts k' v))"
    then show "\<not> is_down f" using d(6) old by (auto simp: eq(1) split: if_splits)
  next
    fix f assume "f \<in> set (conts k' (idle_thread k))"
    then show "idle_frame f" using d(12) i by (auto simp: eq(1))
  next
    fix v assume "stat k' v = None \<or> stat k' v = Some THREAD_DYING"
    then show "conts k' v = []" using d(13,14) [of v] r by (auto simp: eq(1,4) split: if_splits)
  next
    have "{v. conts k' v \<noteq> []} \<subseteq> insert (cur k) {v. conts k v \<noteq> []}" by (auto simp: eq(1))
    then show "finite {v. conts k' v \<noteq> []}" using d(15) finite_subset by auto
  qed (rule d(4))
qed

lemma thread_create_act:
  assumes a: "active_ok k" and c: "cur k \<noteq> idle_thread k" and t: "threads k t = None"
    and s: "thread_create k (Some t) nm pri = Some k'"
  shows "active_ok k'"
proof -
  note d = active_okD [OF a]
  obtain ka where ka: "init_thread k t nm pri = Some ka"
    "k' = push_conts ka [Acquire tid_lock, TakeTid t, FinishCreate t]"
    using s by (auto simp: thread_create_def bind_eq_Some_conv)
  have pre: "t \<noteq> NULL" "PRI_MIN \<le> pri" "pri \<le> PRI_MAX" using ka(1) by (auto simp: init_thread_def)
  from init_thread_run [OF d(1) t pre d(2), of nm] ka(1) obtain th where
    i: "sched_ok ka" "status th = THREAD_BLOCKED"
      "ka = k\<lparr>threads := (threads k)(t \<mapsto> th), all_list := all_list k @ [t]\<rparr>" by auto
  have "idle_thread k \<noteq> t" using queues_okD(6) [OF sched_okD(1) [OF d(1)]] t by auto
  then have ti: "t \<noteq> idle_thread k" by simp
  have st: "stat k' u = (if u = t then Some THREAD_BLOCKED else stat k u)" for u
    using i(2) by (simp add: ka(2)) (simp add: i(3) stat_def)
  have e: "conts k' = (conts k)(cur k := [Acquire tid_lock, TakeTid t, FinishCreate t] @ conts k (cur k))"
    "sema_waiters k' = sema_waiters k" "idle_thread k' = idle_thread k" "sema_value k' = sema_value k"
    "in_external_intr k' = in_external_intr k" "cur k' = cur k"
    by (simp_all add: ka(2) i(3))
  note n = sync_core_new [OF d(3,6,5) t ti c e(1-3) st]
  show ?thesis
    using n d i(1) e unfolding active_ok_def wake_ok_def by (simp add: ka(2))
qed


lemma sync_core_start:
  assumes c: "sync_core k" and t: "stat k t = Some THREAD_BLOCKED" "t \<noteq> idle_thread k"
    "conts k t = []" "\<And>u. FinishCreate t \<notin> set (conts k u)"
    and eq: "conts k' = (conts k)(t := [KernelThread])" "sema_waiters k' = sema_waiters k"
      "idle_thread k' = idle_thread k" "\<And>u. stat k' u = (if u = t then Some THREAD_READY else stat k u)"
  shows "sync_core k'" "woken k' s = woken k s"
proof -
  note d = sync_coreD [OF c]
  have nd: "\<not> in_down k u t" for u using t(3) by (simp add: in_down_def)
  have i': "in_down k' u v = in_down k u v" for u v
    using nd by (cases "v = t") (auto simp: in_down_def eq(1))
  have nw: "t \<notin> set (sema_waiters k u)" for u using d(3) nd by blast
  have fc: "FinishCreate v \<in> set (conts k' u) \<Longrightarrow> FinishCreate v \<in> set (conts k u) \<and> u \<noteq> t \<and> v \<noteq> t" for u v
    using t(4) by (auto simp: eq(1) split: if_splits)
  show "woken k' s = woken k s" by (simp add: woken_def i' eq(2))
  show "sync_core k'"
    unfolding sync_core_def i' eq(2,3)
  proof (intro conjI allI impI ballI; (elim conjE)?)
    fix u v assume w: "v \<in> set (sema_waiters k u)"
    then have "v \<noteq> t" using nw by auto
    then show "stat k' v = Some THREAD_BLOCKED" "v \<noteq> idle_thread k" "in_down k u v"
      using d(1,2,3) [OF w] by (auto simp: eq(4))
  next
    fix u v assume "in_down k u v" "v \<notin> set (sema_waiters k u)"
    then show "stat k' v = Some THREAD_READY \<or> stat k' v = Some THREAD_RUNNING"
      using d(5) [of u v] by (auto simp: eq(4))
  next
    fix u v assume "FinishCreate v \<in> set (conts k' u)"
    note v = fc [OF this]
    show "stat k' v = Some THREAD_BLOCKED" "v \<noteq> idle_thread k" "conts k' v = []"
      "count_list (conts k' u) (FinishCreate v) = 1"
      using v d(7,8,9,10) by (auto simp: eq(1,4))
  next
    fix u v x assume "FinishCreate v \<in> set (conts k' u)" "FinishCreate v \<in> set (conts k' x)"
    then show "x = u" using fc d(11) by blast
  next
    fix v f assume "f \<in> set (tl (conts k' v))"
    then show "\<not> is_down f" using d(6) by (auto simp: eq(1) split: if_splits)
  next
    fix f assume "f \<in> set (conts k' (idle_thread k))"
    then show "idle_frame f" using d(12) t(2) by (auto simp: eq(1))
  next
    fix v assume "stat k' v = None \<or> stat k' v = Some THREAD_DYING"
    then show "conts k' v = []" using d(13,14) [of v] by (auto simp: eq(1,4) split: if_splits)
  next
    have "{v. conts k' v \<noteq> []} \<subseteq> insert t {v. conts k v \<noteq> []}" by (auto simp: eq(1))
    then show "finite {v. conts k' v \<noteq> []}" using d(15) finite_subset by auto
  qed (rule d(4))
qed

lemma finish_create_act:
  assumes a: "active_ok k" and t: "stat k t = Some THREAD_BLOCKED" "t \<noteq> idle_thread k"
    "conts k t = []" "\<And>u. FinishCreate t \<notin> set (conts k u)" and s: "finish_create k t = Some k'"
  shows "active_ok k'"
proof -
  define f :: "nat \<Rightarrow> thread \<Rightarrow> thread" where "f = (\<lambda>n th. th\<lparr>stack := stack th - (n :: nat)\<rparr>)"
  define ka where "ka = set_thread (set_thread (set_thread k t (f 12)) t (f 4)) t (f 28)"
  have f: "status (f n th) = status th" "magic (f n th) = magic th" for n th by (simp_all add: f_def)
  have aa: "active_ok ka" using a by (simp add: ka_def active_ok_set_thread f)
  note d = active_okD [OF aa]
  have st: "stat ka = stat k" by (simp add: ka_def sched_ok_set_thread f)
  have ca: "conts ka = conts k" "idle_thread ka = idle_thread k" "cur ka = cur k" by (simp_all add: ka_def)
  have tc: "t \<noteq> cur ka" using d(6) t(1) st by auto
  let ?kb = "ka\<lparr>conts := (conts ka)(t := [KernelThread])\<rparr>"
  have "thread_unblock ?kb t = Some k'"
    using s unfolding finish_create_def alloc_frame_def ka_def f_def by (auto simp: bind_eq_Some_conv)
  moreover have "thread_unblock ?kb t = Some (unblocked ?kb t) \<and> sched_ok (unblocked ?kb t)"
    using thread_unblock_run [of ?kb t] d(1,2) t(1,2) st ca by simp
  ultimately have k': "k' = unblocked ?kb t" "sched_ok k'" by auto
  have tt: "threads ka t \<noteq> None" using t(1) st [symmetric] by (auto simp: stat_def)
  have e: "conts k' = (conts ka)(t := [KernelThread])" "sema_waiters k' = sema_waiters ka"
    "idle_thread k' = idle_thread ka" "cur k' = cur ka" "in_external_intr k' = in_external_intr ka"
    "sema_value k' = sema_value ka"
    by (simp_all add: k'(1) unblocked_def)
  have s4: "stat k' u = (if u = t then Some THREAD_READY else stat ka u)" for u
    using tt by (auto simp: k'(1) unblocked_def)
  note n = sync_core_start [OF d(3) _ _ _ _ e(1-3) s4]
  have "sync_core k'" "woken k' u = woken ka u" for u
    using n(1) n(2) [of u] t st ca by simp_all
  then show ?thesis using d k'(2) e tc unfolding active_ok_def wake_ok_def by simp
qed

lemma kernel_active:
  assumes k: "kernel_ok k" and c: "intr_on k \<or> conts k (cur k) = []"
  shows "active_ok k"
proof -
  have d: "sync_core k" "\<And>s. in_down k s (cur k) \<Longrightarrow> \<not> intr_on k" using k by (auto simp: kernel_ok_def)
  have "\<not> is_down f" if "f \<in> set (conts k (cur k))" for f
  proof (cases "conts k (cur k)")
    case (Cons g gs)
    have "\<not> is_down g"
    proof
      assume "is_down g"
      then obtain s lv where "g = DownLoop s lv" by (cases g) auto
      then show False using d(2) [of s] Cons c by (auto simp: in_down_def)
    qed
    then show ?thesis using that Cons sync_coreD(6) [OF d(1), of f "cur k"] by auto
  qed (use that in simp)
  then show ?thesis using k by (simp add: kernel_ok_def active_ok_def)
qed

lemma intr_handler_act:
  assumes a: "active_ok k" and s: "intr_handler k h = Some k'"
    and h: "\<And>ka kb. sched_ok ka \<Longrightarrow> sync_core ka \<Longrightarrow> (\<And>u. wake_ok ka u 0) \<Longrightarrow> \<not> intr_on ka \<Longrightarrow>
      in_external_intr ka \<Longrightarrow> h ka = Some kb \<Longrightarrow>
      sched_ok kb \<and> sync_core kb \<and> (\<forall>u. wake_ok kb u 0) \<and> cur kb = cur ka \<and> conts kb = conts ka \<and>
      idle_thread kb = idle_thread ka"
  shows "kernel_ok k'"
proof -
  note d = active_okD [OF a]
  let ?ka = "k\<lparr>intr_on := False, in_external_intr := True, yield_on_return := False\<rparr>"
  have wa: "wake_ok ?ka u 0" for u using d(4) [of u] by (simp add: wake_ok_def woken_def in_down_def)
  obtain kb where kb: "h ?ka = Some kb"
    "(if yield_on_return kb then thread_yield (push_conts (kb\<lparr>in_external_intr := False\<rparr>) [SetLevel True])
      else Some (push_conts (kb\<lparr>in_external_intr := False\<rparr>) [SetLevel True])) = Some k'"
    using s d(2) by (auto simp: intr_handler_def Let_def bind_eq_Some_conv intr_context_def split: if_splits)
  have hb: "sched_ok kb" "sync_core kb" "\<And>u. wake_ok kb u 0" "cur kb = cur k" "conts kb = conts k"
    using h [OF _ _ wa _ _ kb(1)] d by auto
  have "wake_ok (kb\<lparr>in_external_intr := False\<rparr>) u 0" for u
    using hb(3) [of u] by (simp add: wake_ok_def woken_def in_down_def)
  then have "active_ok (kb\<lparr>in_external_intr := False\<rparr>)"
    using hb d(5) by (simp add: active_ok_def)
  then have p: "active_ok (push_conts (kb\<lparr>in_external_intr := False\<rparr>) [SetLevel True])"
    by (rule active_ok_push) auto
  show ?thesis
  proof (cases "yield_on_return kb")
    case True
    then show ?thesis using thread_yield_act [OF p] kb(2) by auto
  next
    case False
    then show ?thesis using active_kernel_ok [OF p] kb(2) by auto
  qed
qed


section \<open>Every step keeps the invariant\<close>

lemma intr_set_level_act: "active_ok k \<Longrightarrow> intr_set_level k b = Some k' \<Longrightarrow> active_ok k'"
  by (auto simp: intr_set_level_def intr_enable_def intr_disable_def split: if_splits)

lemma pending_ok:
  assumes k: "kernel_ok k" and f: "conts k (cur k) = f # fs" and s: "run_frame (pop_conts k) f = Some k'"
  shows "kernel_ok k'"
proof -
  let ?k = "pop_conts k"
  note p = pop_conts_ok [OF k f]
  have c: "sync_core k" "sched_ok k" "\<not> in_external_intr k" using k by (auto simp: kernel_ok_def)
  note d = sync_coreD [OF c(1)]
  have act: "active_ok ?k" if "\<not> is_down f"
    using that p c f by (auto simp: active_ok_def)
  have idl: "cur ?k \<noteq> idle_thread ?k" if "\<not> idle_frame f" using that d(12) [of f] f by auto
  show ?thesis
  proof (cases f)
    case (DownLoop x lv)
    have n: "in_down k x (cur k)" and u: "in_down k u (cur k) \<Longrightarrow> u = x" for u
      using DownLoop f by (auto simp: in_down_def)
    then have "\<not> intr_on k" using k by (auto simp: kernel_ok_def)
    moreover have "wake_ok ?k x 1" using p(3) [of x] n DownLoop by simp
    moreover have "wake_ok ?k v 0" if "v \<noteq> x" for v using p(3) [of v] u [of v] that by (auto split: if_splits)
    ultimately have "\<exists>k'. sema_down_loop ?k x lv = Some k' \<and> kernel_ok k'"
      using p(1,2) c f idl DownLoop by (intro sema_down_loop_ok) auto
    then show ?thesis using s DownLoop by auto
  next
    case (Down x) then show ?thesis using s act idl sema_down_act by simp
  next
    case (SemaUp x) then show ?thesis using s act sema_up_act active_kernel_ok by simp
  next
    case (Acquire l) then show ?thesis using s act idl lock_acquire_act by simp
  next
    case (SetHolder l) then show ?thesis using s act set_holder_act active_kernel_ok by simp
  next
    case (Release l) then show ?thesis using s act idl lock_release_act active_kernel_ok by simp
  next
    case (Broadcast cv l) then show ?thesis using s act idl cond_broadcast_act active_kernel_ok by simp
  next
    case (SetLevel b)
    then show ?thesis using s act intr_set_level_act active_kernel_ok by simp
  next
    case (TakeTid t)
    then have "active_ok (push_conts (?k\<lparr>next_tid := next_tid ?k + 1\<rparr>) [Release tid_lock, StoreTid t (next_tid ?k)])"
      using act idl by (intro active_ok_push) auto
    then show ?thesis using s TakeTid active_kernel_ok by (auto simp: allocate_tid_def)
  next
    case (StoreTid t i)
    then show ?thesis using s act active_ok_set_thread active_kernel_ok by auto
  next
    case (FinishCreate t)
    then have fc: "FinishCreate t \<in> set (conts k (cur k))" using f by simp
    have tc: "t \<noteq> cur k" using d(7) [OF fc] sched_okD(2) [OF c(2)] by auto
    have "FinishCreate t \<notin> set fs" using d(10) [OF fc] f FinishCreate by (simp add: count_list_0_iff)
    then have "FinishCreate t \<notin> set (conts ?k u)" for u using d(11) [OF fc, of u] f by auto
    moreover have "stat ?k t = Some THREAD_BLOCKED" "t \<noteq> idle_thread ?k" "conts ?k t = []"
      using d(7,8,9) [OF fc] tc by simp_all
    ultimately show ?thesis
      using finish_create_act [of ?k t k'] act s FinishCreate active_kernel_ok by simp
  next
    case KernelThread
    then have "active_ok ?k" using act by simp
    then show ?thesis using s KernelThread active_okD(2) active_kernel_ok
      by (auto simp: intr_enable_def)
  next
    case IdleLoop then show ?thesis using s act idle_loop_act [of ?k] by auto
  qed
qed

lemma kcall_ok:
  assumes "kcall k k'" and a: "active_ok k" and c: "cur k \<noteq> idle_thread k" "conts k (cur k) = []"
  shows "kernel_ok k'"
  using assms(1)
proof cases
  case (down s) then show ?thesis by (rule sema_down_act [OF a c(1)])
next
  case (try_down s b) then show ?thesis using sema_try_down_act(1) [OF a] active_kernel_ok by blast
next
  case (up s) then show ?thesis using sema_up_act [OF a] active_kernel_ok by blast
next
  case (acquire l) then show ?thesis by (rule lock_acquire_act [OF a c(1)])
next
  case (try_acquire l b) then show ?thesis using lock_try_acquire_act [OF a c(1)] active_kernel_ok by blast
next
  case (release l) then show ?thesis using lock_release_act [OF a c(1)] active_kernel_ok by blast
next
  case (wait w cv l)
  then have "\<forall>t. \<not> in_down k w t" by (auto simp: in_down_def)
  then show ?thesis using cond_wait_act [OF a c(1)] wait active_kernel_ok by blast
next
  case (signal cv l) then show ?thesis using cond_signal_act [OF a] active_kernel_ok by blast
next
  case (broadcast cv l) then show ?thesis using cond_broadcast_act [OF a c(1)] active_kernel_ok by blast
next
  case yield then show ?thesis using thread_yield_act [OF a] by auto
next
  case exit then show ?thesis using thread_exit_act [OF a c] by auto
next
  case (create t nm pri) then show ?thesis using thread_create_act [OF a c(1)] active_kernel_ok by blast
next
  case (set_priority p)
  then have "k' = set_thread k (cur k) (\<lambda>th. th\<lparr>priority := p\<rparr>)"
    using active_okD(7) [OF a] by (simp add: thread_set_priority_def)
  then show ?thesis using a active_ok_set_thread active_kernel_ok by simp
next
  case (set_level b) then show ?thesis using intr_set_level_act [OF a] active_kernel_ok by blast
qed

lemma thread_tick_ok:
  assumes "sched_ok k" "sync_core k" "\<And>u. wake_ok k u 0" "thread_tick k = Some k'"
  shows "sched_ok k' \<and> sync_core k' \<and> (\<forall>u. wake_ok k' u 0) \<and> cur k' = cur k \<and> conts k' = conts k \<and>
    idle_thread k' = idle_thread k"
proof -
  obtain a b c d e where k': "k' = k\<lparr>idle_ticks := a, user_ticks := b, kernel_ticks := c, thread_ticks := d,
      yield_on_return := e\<rparr>"
  proof -
    from assms(4) obtain th where "threads k (cur k) = Some th"
      using sched_okD(5) [OF assms(1)] by blast
    then have "\<exists>a b c d e. k' = k\<lparr>idle_ticks := a, user_ticks := b, kernel_ticks := c, thread_ticks := d,
        yield_on_return := e\<rparr>"
      using assms(4) sched_okD(4) [OF assms(1)]
      by (cases k; cases k') (auto simp: thread_tick_def Let_def intr_yield_on_return_def split: if_splits)
    then show ?thesis using that by blast
  qed
  have "wake_ok k' u 0" for u using assms(3) [of u] by (simp add: k' wake_ok_def woken_def in_down_def)
  then show ?thesis using assms(1,2) by (simp add: k')
qed

lemma kstep_ok:
  assumes "kstep k k'" "kernel_ok k"
  shows "kernel_ok k'"
  using assms(1)
proof cases
  case (pending f fs)
  then show ?thesis using pending_ok [OF assms(2)] by blast
next
  case call
  then show ?thesis using kcall_ok kernel_active [OF assms(2)] by blast
next
  case timer
  then have "active_ok k" using kernel_active [OF assms(2)] by blast
  then show ?thesis by (rule intr_handler_act [OF _ timer(2)]) (rule thread_tick_ok)
next
  case (device s)
  then have a: "active_ok k" using kernel_active [OF assms(2)] by blast
  show ?thesis
  proof (rule intr_handler_act [OF a device(2)])
    fix ka kb assume h: "sched_ok ka" "sync_core ka" "\<And>u. wake_ok ka u 0" "\<not> intr_on ka"
      "in_external_intr ka" "sema_up ka s = Some kb"
    have "s \<noteq> NULL" using h(6) by (simp add: sema_up_def)
    from sema_up_ok [OF h(1-3) this] h(4,6)
    show "sched_ok kb \<and> sync_core kb \<and> (\<forall>u. wake_ok kb u 0) \<and> cur kb = cur ka \<and> conts kb = conts ka \<and>
        idle_thread kb = idle_thread ka" by auto
  qed
qed


lemma ksteps_ok: "kstep\<^sup>*\<^sup>* k k' \<Longrightarrow> kernel_ok k \<Longrightarrow> kernel_ok k'"
  by (induction rule: rtranclp_induct) (auto intro: kstep_ok)

section \<open>Properties\<close>

lemma demo_kernel_kernel_ok: "kernel_ok demo_kernel"
proof -
  have "\<not> in_down demo_kernel s t" for s t by (simp add: in_down_def demo_kernel_def)
  then show ?thesis
    using demo_kernel_ok
    by (simp add: kernel_ok_def sync_core_def wake_ok_def) (simp add: demo_kernel_def)
qed

text \<open>
  C11.  Whatever sequence of semaphore, lock, condition variable and thread operations the threads
  execute, preempted by timer and device interrupts at any point where interrupts are on, exactly
  one thread is running, the run queue holds exactly the ready threads and each of them once, and
  the threads on the wait queues are blocked in \<open>sema_down\<close> on that semaphore.
\<close>

theorem kernel_invariant:
  assumes "kernel_ok k" "kstep\<^sup>*\<^sup>* k k'"
  shows "(\<forall>t. stat k' t = Some THREAD_RUNNING \<longleftrightarrow> t = cur k') \<and> distinct (ready_list k') \<and>
     (\<forall>t. t \<in> set (ready_list k') \<longleftrightarrow> stat k' t = Some THREAD_READY \<and> t \<noteq> idle_thread k') \<and>
     (\<forall>s t. t \<in> set (sema_waiters k' s) \<longrightarrow> stat k' t = Some THREAD_BLOCKED \<and> in_down k' s t)"
proof -
  have k: "kernel_ok k'" by (rule ksteps_ok [OF assms(2,1)])
  then have s: "sched_ok k'" "sync_core k'" by (auto simp: kernel_ok_def)
  note q = queues_okD [OF sched_okD(1) [OF s(1)]]
  show ?thesis using sched_okD(3) [OF s(1)] q(4,5) sync_coreD(1,3) [OF s(2)] by blast
qed

theorem kernel_invariant_witness:
  "\<exists>k'. kstep demo_kernel k' \<and> cur k' = 12288 \<and> distinct (ready_list k')"
proof -
  obtain k' where k': "thread_yield demo_kernel = Some k'" "cur k' = 12288"
    using thread_yield_act [OF kernel_active [OF demo_kernel_kernel_ok]]
      thread_yield_run(1) [OF demo_kernel_ok]
    by (auto simp: demo_kernel_def switched_def next_thread_def yielding_def)
  then have "kstep demo_kernel k'"
    by (intro kstep.call kcall.yield) (simp_all add: demo_kernel_def)
  moreover from this have "distinct (ready_list k')"
    using kernel_invariant [OF demo_kernel_kernel_ok, of k'] by blast
  ultimately show ?thesis using k' by blast
qed

text \<open>
  C12.  No wakeup is lost: when a semaphore is positive while threads wait for it, some thread that
  was woken up is ready or running and is about to test the semaphore again.
\<close>

theorem no_lost_wakeup:
  assumes "kernel_ok k" "kstep\<^sup>*\<^sup>* k k'" "sema_value k' s > 0" "sema_waiters k' s \<noteq> []"
  shows "\<exists>t. in_down k' s t \<and> (stat k' t = Some THREAD_READY \<or> stat k' t = Some THREAD_RUNNING)"
proof -
  have k: "kernel_ok k'" by (rule ksteps_ok [OF assms(2,1)])
  then have s: "sync_core k'" "wake_ok k' s 0" by (auto simp: kernel_ok_def)
  have "0 < unat (sema_value k' s)" using assms(3) by (simp add: word_less_nat_alt)
  then have "0 < card (woken k' s)" using s(2) assms(4) by (simp add: wake_ok_def)
  then obtain t where "t \<in> woken k' s" by (auto simp: card_gt_0_iff)
  then show ?thesis using sync_coreD(5) [OF s(1)] by (auto simp: woken_def)
qed

text \<open>Two threads went to sleep on semaphore 100, and the first was woken up by one \<open>sema_up\<close>.\<close>

definition demo_waiting :: kernel where
  "demo_waiting = demo_kernel\<lparr>threads := (threads demo_kernel)(16384 \<mapsto> demo_thread 4 THREAD_BLOCKED),
     all_list := [4096, 8192, 12288, 16384],
     conts := (\<lambda>_. [])(12288 := [DownLoop 100 True], 16384 := [DownLoop 100 True]),
     sema_waiters := (\<lambda>_. [])(100 := [16384])\<rparr>"

lemma demo_waiting_in_down: "in_down demo_waiting s t \<longleftrightarrow> s = 100 \<and> (t = 12288 \<or> t = 16384)"
  by (auto simp: in_down_def demo_waiting_def)

lemma demo_waiting_ok: "kernel_ok demo_waiting"
proof -
  have "sched_ok demo_waiting"
    by (auto simp: sched_ok_def queues_ok_def demo_waiting_def demo_kernel_def stat_def demo_thread_def)
  moreover have "sync_core demo_waiting"
    unfolding sync_core_def demo_waiting_in_down
    by (auto simp: demo_waiting_def demo_kernel_def stat_def demo_thread_def
        intro: finite_subset [of _ "{12288, 16384}"])
  moreover have "woken demo_waiting 100 = {12288}"
    by (auto simp: woken_def demo_waiting_in_down) (auto simp: demo_waiting_def)
  then have "wake_ok demo_waiting s 0" for s
    by (cases "s = 100") (auto simp: wake_ok_def demo_waiting_def demo_kernel_def)
  ultimately show ?thesis
    by (simp add: kernel_ok_def demo_waiting_in_down) (simp add: demo_waiting_def demo_kernel_def)
qed

theorem no_lost_wakeup_witness:
  "sema_waiters demo_waiting 100 \<noteq> [] \<and>
   (\<exists>t. in_down demo_waiting 100 t \<and>
      (stat demo_waiting t = Some THREAD_READY \<or> stat demo_waiting t = Some THREAD_RUNNING))"
  using no_lost_wakeup [OF demo_waiting_ok rtranclp.rtrancl_refl, of 100]
  by (simp add: demo_waiting_def demo_kernel_def)

text \<open>
  C13.  In every reachable state the semaphore operations the running thread may call do not panic:
  waking up a waiter and going to sleep always find the threads in the state they require.
\<close>

theorem semaphores_never_panic:
  assumes "kernel_ok k" "kstep\<^sup>*\<^sup>* k k'" "conts k' (cur k') = []" "cur k' \<noteq> idle_thread k'" "s \<noteq> NULL"
  shows "sema_up k' s \<noteq> None \<and> sema_down k' s \<noteq> None \<and> sema_try_down k' s \<noteq> None"
proof -
  have a: "active_ok k'" using kernel_active [OF ksteps_ok [OF assms(2,1)]] assms(3) by blast
  note d = active_okD [OF a]
  have "sema_up k' s \<noteq> None" using sema_up_ok [OF d(1,3,4) assms(5) d(2)] by auto
  moreover have "sema_try_down k' s \<noteq> None"
    using assms(5) d(2) by (simp add: sema_try_down_def Let_def intr_disable_def intr_set_level_run)
  moreover have "sema_down k' s \<noteq> None"
  proof -
    have "active_ok (k'\<lparr>intr_on := False\<rparr>)" using a by simp
    note e = active_okD [OF this]
    have "\<exists>ka. sema_down_loop (k'\<lparr>intr_on := False\<rparr>) s (intr_on k') = Some ka \<and> kernel_ok ka"
      using e assms(4) wake_ok_mono [OF e(4)] by (intro sema_down_loop_ok) auto
    then show ?thesis using assms(5) d(2) by (auto simp: sema_down_def Let_def intr_disable_def intr_context_def)
  qed
  ultimately show ?thesis by blast
qed

theorem semaphores_never_panic_witness:
  "sema_up demo_kernel 100 \<noteq> None \<and> sema_down demo_kernel 100 \<noteq> None"
  using semaphores_never_panic [OF demo_kernel_kernel_ok rtranclp.rtrancl_refl, of 100]
  by (simp add: demo_kernel_def)

end
