(* ===== verification/CString.thy ===== *)
theory CString
  imports Prelude
begin

text \<open>
  The string and memory routines of \<open>lib/string.c\<close>, on a byte-addressed memory.  An access outside
  the mapped bytes is \<open>None\<close>, as is a failed \<open>ASSERT\<close>.  A loop over a string ends only where the
  memory holds a null byte, so those loops are partial functions, and their lemmas show that they
  return on null-terminated strings.
\<close>

section \<open>Memory\<close>

type_synonym mem = "nat \<Rightarrow> u8 option"

definition stb :: "mem \<Rightarrow> nat \<Rightarrow> u8 \<Rightarrow> mem option" where
  "stb m a v = (if m a = None then None else Some (m(a \<mapsto> v)))"

section \<open>The code\<close>

fun memcpy_loop :: "mem \<Rightarrow> nat \<Rightarrow> nat \<Rightarrow> nat \<Rightarrow> mem option" where
  "memcpy_loop m dst src 0 = Some m"
| "memcpy_loop m dst src (Suc sz) = do {
     c \<leftarrow> m src;
     m \<leftarrow> stb m dst c;
     memcpy_loop m (dst + 1) (src + 1) sz
   }"

definition memcpy :: "mem \<Rightarrow> nat \<Rightarrow> nat \<Rightarrow> nat \<Rightarrow> (nat \<times> mem) option" where
  "memcpy m dst src sz = do {
     ASSERT (dst \<noteq> NULL \<or> sz = 0);
     ASSERT (src \<noteq> NULL \<or> sz = 0);
     m \<leftarrow> memcpy_loop m dst src sz;
     Some (dst, m)
   }"

text \<open>The two loops of \<open>memmove\<close>, with the destination pointer each leaves behind.\<close>

fun memmove_up :: "mem \<Rightarrow> nat \<Rightarrow> nat \<Rightarrow> nat \<Rightarrow> (nat \<times> mem) option" where
  "memmove_up m dst src 0 = Some (dst, m)"
| "memmove_up m dst src (Suc sz) = do {
     c \<leftarrow> m src;
     m \<leftarrow> stb m dst c;
     memmove_up m (dst + 1) (src + 1) sz
   }"

fun memmove_down :: "mem \<Rightarrow> nat \<Rightarrow> nat \<Rightarrow> nat \<Rightarrow> (nat \<times> mem) option" where
  "memmove_down m dst src 0 = Some (dst, m)"
| "memmove_down m dst src (Suc sz) = do {
     c \<leftarrow> m (src - 1);
     m \<leftarrow> stb m (dst - 1) c;
     memmove_down m (dst - 1) (src - 1) sz
   }"

definition memmove :: "mem \<Rightarrow> nat \<Rightarrow> nat \<Rightarrow> nat \<Rightarrow> (nat \<times> mem) option" where
  "memmove m dst src sz = do {
     ASSERT (dst \<noteq> NULL \<or> sz = 0);
     ASSERT (src \<noteq> NULL \<or> sz = 0);
     if dst < src then memmove_up m dst src sz
     else memmove_down m (dst + sz) (src + sz) sz
   }"

fun memcmp_loop :: "mem \<Rightarrow> nat \<Rightarrow> nat \<Rightarrow> nat \<Rightarrow> int option" where
  "memcmp_loop m a b 0 = Some 0"
| "memcmp_loop m a b (Suc sz) = do {
     x \<leftarrow> m a;
     y \<leftarrow> m b;
     if x \<noteq> y then Some (if x > y then 1 else -1)
     else memcmp_loop m (a + 1) (b + 1) sz
   }"

definition memcmp :: "mem \<Rightarrow> nat \<Rightarrow> nat \<Rightarrow> nat \<Rightarrow> int option" where
  "memcmp m a b sz = do {
     ASSERT (a \<noteq> NULL \<or> sz = 0);
     ASSERT (b \<noteq> NULL \<or> sz = 0);
     memcmp_loop m a b sz
   }"

partial_function (option) strcmp_loop :: "mem \<Rightarrow> nat \<Rightarrow> nat \<Rightarrow> int option" where
  "strcmp_loop m a b = do {
     x \<leftarrow> m a;
     y \<leftarrow> m b;
     if x \<noteq> 0 \<and> x = y then strcmp_loop m (a + 1) (b + 1)
     else Some (if x < y then -1 else if x > y then 1 else 0)
   }"

definition strcmp :: "mem \<Rightarrow> nat \<Rightarrow> nat \<Rightarrow> int option" where
  "strcmp m a b = do { ASSERT (a \<noteq> NULL); ASSERT (b \<noteq> NULL); strcmp_loop m a b }"

fun memchr_loop :: "mem \<Rightarrow> nat \<Rightarrow> u8 \<Rightarrow> nat \<Rightarrow> nat option" where
  "memchr_loop m block ch 0 = Some NULL"
| "memchr_loop m block ch (Suc sz) = do {
     c \<leftarrow> m block;
     if c = ch then Some block else memchr_loop m (block + 1) ch sz
   }"

definition memchr :: "mem \<Rightarrow> nat \<Rightarrow> u32 \<Rightarrow> nat \<Rightarrow> nat option" where
  "memchr m block ch sz = do {
     ASSERT (block \<noteq> NULL \<or> sz = 0);
     memchr_loop m block (ucast ch) sz
   }"

partial_function (option) strchr_loop :: "mem \<Rightarrow> nat \<Rightarrow> u8 \<Rightarrow> nat option" where
  "strchr_loop m str c = do {
     x \<leftarrow> m str;
     if x = c then Some str
     else if x = 0 then Some NULL
     else strchr_loop m (str + 1) c
   }"

definition strchr :: "mem \<Rightarrow> nat \<Rightarrow> u8 \<Rightarrow> nat option" where
  "strchr m str c = do { ASSERT (str \<noteq> NULL); strchr_loop m str c }"

partial_function (option) strcspn_loop :: "mem \<Rightarrow> nat \<Rightarrow> nat \<Rightarrow> nat \<Rightarrow> nat option" where
  "strcspn_loop m str stop len = do {
     x \<leftarrow> m (str + len);
     if x \<noteq> 0 then do {
       p \<leftarrow> strchr m stop x;
       if p \<noteq> NULL then Some len else strcspn_loop m str stop (len + 1)
     } else Some len
   }"

definition strcspn :: "mem \<Rightarrow> nat \<Rightarrow> nat \<Rightarrow> nat option" where
  "strcspn m str stop = strcspn_loop m str stop 0"

partial_function (option) strpbrk :: "mem \<Rightarrow> nat \<Rightarrow> nat \<Rightarrow> nat option" where
  "strpbrk m str stop = do {
     x \<leftarrow> m str;
     if x \<noteq> 0 then do {
       p \<leftarrow> strchr m stop x;
       if p \<noteq> NULL then Some str else strpbrk m (str + 1) stop
     } else Some NULL
   }"

partial_function (option) strrchr_loop :: "mem \<Rightarrow> nat \<Rightarrow> u8 \<Rightarrow> nat \<Rightarrow> nat option" where
  "strrchr_loop m str c p = do {
     x \<leftarrow> m str;
     if x \<noteq> 0 then strrchr_loop m (str + 1) c (if x = c then str else p)
     else Some p
   }"

definition strrchr :: "mem \<Rightarrow> nat \<Rightarrow> u8 \<Rightarrow> nat option" where
  "strrchr m str c = strrchr_loop m str c NULL"

partial_function (option) strspn_loop :: "mem \<Rightarrow> nat \<Rightarrow> nat \<Rightarrow> nat \<Rightarrow> nat option" where
  "strspn_loop m str skip len = do {
     x \<leftarrow> m (str + len);
     if x \<noteq> 0 then do {
       p \<leftarrow> strchr m skip x;
       if p = NULL then Some len else strspn_loop m str skip (len + 1)
     } else Some len
   }"

definition strspn :: "mem \<Rightarrow> nat \<Rightarrow> nat \<Rightarrow> nat option" where
  "strspn m str skip = strspn_loop m str skip 0"

partial_function (option) strlen_loop :: "mem \<Rightarrow> nat \<Rightarrow> nat option" where
  "strlen_loop m p = do {
     x \<leftarrow> m p;
     if x \<noteq> 0 then strlen_loop m (p + 1) else Some p
   }"

definition strlen :: "mem \<Rightarrow> nat \<Rightarrow> nat option" where
  "strlen m str = do { ASSERT (str \<noteq> NULL); p \<leftarrow> strlen_loop m str; Some (p - str) }"

text \<open>The loop of \<open>strstr\<close> tries the offsets from \<open>i\<close> on; \<open>n\<close> of them remain.\<close>

fun strstr_loop :: "mem \<Rightarrow> nat \<Rightarrow> nat \<Rightarrow> nat \<Rightarrow> nat \<Rightarrow> nat \<Rightarrow> nat option" where
  "strstr_loop m haystack needle needle_len i 0 = Some NULL"
| "strstr_loop m haystack needle needle_len i (Suc n) = do {
     r \<leftarrow> memcmp m (haystack + i) needle needle_len;
     if r = 0 then Some (haystack + i)
     else strstr_loop m haystack needle needle_len (i + 1) n
   }"

definition strstr :: "mem \<Rightarrow> nat \<Rightarrow> nat \<Rightarrow> nat option" where
  "strstr m haystack needle = do {
     haystack_len \<leftarrow> strlen m haystack;
     needle_len \<leftarrow> strlen m needle;
     if haystack_len \<ge> needle_len
     then strstr_loop m haystack needle needle_len 0 (haystack_len - needle_len + 1)
     else Some NULL
   }"

text \<open>
  \<open>strtok_r\<close>: the first loop ends at the null byte (\<open>Inl\<close>) or at the first byte of a token
  (\<open>Inr\<close>); the second one at the byte after the token.
\<close>

partial_function (option) strtok_skip :: "mem \<Rightarrow> nat \<Rightarrow> nat \<Rightarrow> (nat + nat) option" where
  "strtok_skip m delimiters s = do {
     x \<leftarrow> m s;
     p \<leftarrow> strchr m delimiters x;
     if p \<noteq> NULL then
       if x = 0 then Some (Inl s) else strtok_skip m delimiters (s + 1)
     else Some (Inr s)
   }"

partial_function (option) strtok_token :: "mem \<Rightarrow> nat \<Rightarrow> nat \<Rightarrow> nat option" where
  "strtok_token m delimiters s = do {
     x \<leftarrow> m s;
     p \<leftarrow> strchr m delimiters x;
     if p = NULL then strtok_token m delimiters (s + 1) else Some s
   }"

text \<open>The result is the token, the new value of \<open>*save_ptr\<close>, and the memory.\<close>

definition strtok_r :: "mem \<Rightarrow> nat \<Rightarrow> nat \<Rightarrow> nat \<Rightarrow> (nat \<times> nat \<times> mem) option" where
  "strtok_r m s delimiters save_ptr = do {
     ASSERT (delimiters \<noteq> NULL);
     let s = (if s = NULL then save_ptr else s);
     ASSERT (s \<noteq> NULL);
     r \<leftarrow> strtok_skip m delimiters s;
     case r of
       Inl s \<Rightarrow> Some (NULL, s, m)
     | Inr token \<Rightarrow> do {
         s \<leftarrow> strtok_token m delimiters token;
         x \<leftarrow> m s;
         if x \<noteq> 0 then do { m \<leftarrow> stb m s 0; Some (token, s + 1, m) }
         else Some (token, s, m)
       }
   }"

fun memset_loop :: "mem \<Rightarrow> nat \<Rightarrow> u8 \<Rightarrow> nat \<Rightarrow> mem option" where
  "memset_loop m dst v 0 = Some m"
| "memset_loop m dst v (Suc sz) = do { m \<leftarrow> stb m dst v; memset_loop m (dst + 1) v sz }"

definition memset :: "mem \<Rightarrow> nat \<Rightarrow> u32 \<Rightarrow> nat \<Rightarrow> (nat \<times> mem) option" where
  "memset m dst value sz = do {
     ASSERT (dst \<noteq> NULL \<or> sz = 0);
     m \<leftarrow> memset_loop m dst (ucast value) sz;
     Some (dst, m)
   }"

text \<open>The loop of \<open>strnlen\<close> reads the byte before it compares the length with the maximum.\<close>

partial_function (option) strnlen_loop :: "mem \<Rightarrow> nat \<Rightarrow> nat \<Rightarrow> nat \<Rightarrow> nat option" where
  "strnlen_loop m str maxlen len = do {
     x \<leftarrow> m (str + len);
     if x \<noteq> 0 \<and> len < maxlen then strnlen_loop m str maxlen (len + 1) else Some len
   }"

definition strnlen :: "mem \<Rightarrow> nat \<Rightarrow> nat \<Rightarrow> nat option" where
  "strnlen m str maxlen = strnlen_loop m str maxlen 0"

definition strlcpy :: "mem \<Rightarrow> nat \<Rightarrow> nat \<Rightarrow> nat \<Rightarrow> (nat \<times> mem) option" where
  "strlcpy m dst src sz = do {
     ASSERT (dst \<noteq> NULL); ASSERT (src \<noteq> NULL);
     src_len \<leftarrow> strlen m src;
     if sz > 0 then do {
       let dst_len = sz - 1;
       let dst_len = (if src_len < dst_len then src_len else dst_len);
       (_, m) \<leftarrow> memcpy m dst src dst_len;
       m \<leftarrow> stb m (dst + dst_len) 0;
       Some (src_len, m)
     } else Some (src_len, m)
   }"

definition strlcat :: "mem \<Rightarrow> nat \<Rightarrow> nat \<Rightarrow> nat \<Rightarrow> (nat \<times> mem) option" where
  "strlcat m dst src sz = do {
     ASSERT (dst \<noteq> NULL); ASSERT (src \<noteq> NULL);
     src_len \<leftarrow> strlen m src;
     dst_len \<leftarrow> strlen m dst;
     if sz > 0 \<and> dst_len < sz then do {
       let copy_cnt = sz - dst_len - 1;
       let copy_cnt = (if src_len < copy_cnt then src_len else copy_cnt);
       (_, m) \<leftarrow> memcpy m (dst + dst_len) src copy_cnt;
       m \<leftarrow> stb m (dst + dst_len + copy_cnt) 0;
       Some (src_len + dst_len, m)
     } else Some (src_len + dst_len, m)
   }"

section \<open>What memory holds\<close>

definition holds :: "mem \<Rightarrow> nat \<Rightarrow> u8 list \<Rightarrow> bool" where
  "holds m a bs \<longleftrightarrow> (\<forall>i<length bs. m (a + i) = Some (bs ! i))"

definition mapped :: "mem \<Rightarrow> nat \<Rightarrow> nat \<Rightarrow> bool" where
  "mapped m a n \<longleftrightarrow> (\<forall>i<n. m (a + i) \<noteq> None)"

text \<open>A null-terminated string.\<close>

definition cstr :: "mem \<Rightarrow> nat \<Rightarrow> u8 list \<Rightarrow> bool" where
  "cstr m a s \<longleftrightarrow> holds m a (s @ [0]) \<and> 0 \<notin> set s"

fun mwrite :: "mem \<Rightarrow> nat \<Rightarrow> u8 list \<Rightarrow> mem" where
  "mwrite m a [] = m"
| "mwrite m a (b # bs) = mwrite (m(a \<mapsto> b)) (a + 1) bs"

lemma holds_Nil [simp]: "holds m a []"
  by (simp add: holds_def)

lemma holds_Cons [simp]: "holds m a (b # bs) \<longleftrightarrow> m a = Some b \<and> holds m (Suc a) bs"
  by (auto simp: holds_def less_Suc_eq_0_disj)

lemma holds_append [simp]: "holds m a (xs @ ys) \<longleftrightarrow> holds m a xs \<and> holds m (a + length xs) ys"
  by (induction xs arbitrary: a) auto

lemma holds_upd [simp]: "x < a \<or> a + length bs \<le> x \<Longrightarrow> holds (m(x \<mapsto> v)) a bs \<longleftrightarrow> holds m a bs"
  unfolding holds_def by (rule iff_allI) auto

lemma mapped_0 [simp]: "mapped m a 0"
  by (simp add: mapped_def)

lemma mapped_Suc [simp]: "mapped m a (Suc n) \<longleftrightarrow> m a \<noteq> None \<and> mapped m (Suc a) n"
  by (auto simp: mapped_def less_Suc_eq_0_disj)

lemma mapped_Suc_last: "mapped m a (Suc n) \<longleftrightarrow> mapped m a n \<and> m (a + n) \<noteq> None"
  by (auto simp: mapped_def less_Suc_eq)

lemma mapped_upd [simp]: "mapped m a n \<Longrightarrow> mapped (m(x \<mapsto> v)) a n"
  by (auto simp: mapped_def)

lemma mapped_le: "mapped m a n \<Longrightarrow> k \<le> n \<Longrightarrow> mapped m a k"
  by (auto simp: mapped_def)

lemma mapped_sub: "mapped m a n \<Longrightarrow> i + k \<le> n \<Longrightarrow> mapped m (a + i) k"
  by (auto simp: mapped_def add.assoc)

lemma holds_mapped: "holds m a bs \<Longrightarrow> mapped m a (length bs)"
  by (auto simp: holds_def mapped_def)

lemma stb_in [simp]: "m a \<noteq> None \<Longrightarrow> stb m a v = Some (m(a \<mapsto> v))"
  by (simp add: stb_def)

lemma mwrite_apply: "mwrite m a bs x = (if a \<le> x \<and> x < a + length bs then Some (bs ! (x - a)) else m x)"
  by (induction bs arbitrary: m a) (auto simp: nth_Cons' Suc_le_eq)

lemma mwrite_snoc: "mwrite m a (bs @ [b]) = mwrite (m(a + length bs \<mapsto> b)) a bs"
  by (auto simp: fun_eq_iff mwrite_apply nth_append)

lemma mwrite_upd: "x = a + length bs \<Longrightarrow> (mwrite m a bs)(x \<mapsto> v) = mwrite m a (bs @ [v])"
  by (auto simp: fun_eq_iff mwrite_apply nth_append)

lemma holds_mwrite [simp]: "holds (mwrite m a bs) a bs"
  by (simp add: holds_def mwrite_apply)

lemma mapped_mwrite [simp]: "mapped m a n \<Longrightarrow> mapped (mwrite m b bs) a n"
  by (auto simp: mapped_def mwrite_apply)

lemma holds_mwrite_other [simp]:
  "b + length bs \<le> a \<or> a + length xs \<le> b \<Longrightarrow> holds (mwrite m b bs) a xs \<longleftrightarrow> holds m a xs"
  unfolding holds_def by (rule iff_allI) (auto simp: mwrite_apply)

lemma cstr_Nil [simp]: "cstr m a [] \<longleftrightarrow> m a = Some 0"
  by (simp add: cstr_def)

lemma cstr_Cons [simp]: "cstr m a (c # s) \<longleftrightarrow> m a = Some c \<and> c \<noteq> 0 \<and> cstr m (Suc a) s"
  by (auto simp: cstr_def)

lemma cstr_append: "cstr m a (s @ t) \<longleftrightarrow> holds m a s \<and> 0 \<notin> set s \<and> cstr m (a + length s) t"
  by (induction s arbitrary: a) auto

lemma cstr_holds: "cstr m a s \<Longrightarrow> holds m a s"
  by (simp add: cstr_def)

lemma cstr_end: "cstr m a s \<Longrightarrow> m (a + length s) = Some 0"
  by (simp add: cstr_def)

section \<open>Copying\<close>

lemma memcpy_loop_run:
  "holds m src bs \<Longrightarrow> mapped m dst (length bs) \<Longrightarrow>
     dst + length bs \<le> src \<or> src + length bs \<le> dst \<Longrightarrow>
     memcpy_loop m dst src (length bs) = Some (mwrite m dst bs)"
  by (induction bs arbitrary: m dst src) auto

lemma memcpy_run:
  "holds m src bs \<Longrightarrow> mapped m dst (length bs) \<Longrightarrow> dst \<noteq> NULL \<Longrightarrow> src \<noteq> NULL \<Longrightarrow>
     dst + length bs \<le> src \<or> src + length bs \<le> dst \<Longrightarrow>
     memcpy m dst src (length bs) = Some (dst, mwrite m dst bs)"
  by (simp add: memcpy_def memcpy_loop_run)

lemma memmove_up_run:
  "holds m src bs \<Longrightarrow> mapped m dst (length bs) \<Longrightarrow> dst < src \<Longrightarrow>
     memmove_up m dst src (length bs) = Some (dst + length bs, mwrite m dst bs)"
  by (induction bs arbitrary: m dst src) auto

lemma memmove_down_run:
  "holds m src bs \<Longrightarrow> mapped m dst (length bs) \<Longrightarrow> src \<le> dst \<Longrightarrow>
     memmove_down m (dst + length bs) (src + length bs) (length bs) = Some (dst, mwrite m dst bs)"
proof (induction bs arbitrary: m rule: rev_induct)
  case (snoc b bs)
  have m: "mapped (m(dst + length bs \<mapsto> b)) dst (length bs)" "m (dst + length bs) \<noteq> None"
    using snoc.prems(2) mapped_Suc_last [of m dst "length bs"] by auto
  have "holds (m(dst + length bs \<mapsto> b)) src bs" using snoc.prems by (subst holds_upd) auto
  from snoc.IH [OF this m(1) snoc.prems(3)] show ?case
    using snoc.prems(1) m(2) by (simp add: mwrite_snoc del: fun_upd_apply)
qed simp

lemma memset_loop_run:
  "mapped m dst n \<Longrightarrow> memset_loop m dst v n = Some (mwrite m dst (replicate n v))"
  by (induction n arbitrary: m dst) auto

lemma memset_run:
  "mapped m dst n \<Longrightarrow> dst \<noteq> NULL \<Longrightarrow> memset m dst v n = Some (dst, mwrite m dst (replicate n (ucast v)))"
  by (simp add: memset_def memset_loop_run)

section \<open>Scanning\<close>

lemma strlen_loop_run: "cstr m a s \<Longrightarrow> strlen_loop m a = Some (a + length s)"
proof (induction s arbitrary: a)
  case Nil
  then show ?case by (subst strlen_loop.simps) simp
next
  case (Cons c s)
  then show ?case by (subst strlen_loop.simps) simp
qed

lemma strlen_run: "cstr m a s \<Longrightarrow> a \<noteq> NULL \<Longrightarrow> strlen m a = Some (length s)"
  by (simp add: strlen_def strlen_loop_run)

lemma strchr_loop_run:
  "cstr m d ds \<Longrightarrow> strchr_loop m d c =
     Some (if c \<in> set ds \<or> c = 0 then d + length (takeWhile (\<lambda>x. x \<noteq> c) ds) else NULL)"
proof (induction ds arbitrary: d)
  case Nil
  then show ?case by (subst strchr_loop.simps) simp
next
  case (Cons x ds)
  then show ?case by (subst strchr_loop.simps) auto
qed

lemma strchr_run:
  "cstr m d ds \<Longrightarrow> d \<noteq> NULL \<Longrightarrow> strchr m d c =
     Some (if c \<in> set ds \<or> c = 0 then d + length (takeWhile (\<lambda>x. x \<noteq> c) ds) else NULL)"
  by (simp add: strchr_def strchr_loop_run)

lemma strtok_skip_run:
  assumes "cstr m d ds" "d \<noteq> NULL"
  shows "cstr m a s \<Longrightarrow> strtok_skip m d a =
     Some (if dropWhile (\<lambda>x. x \<in> set ds) s = [] then Inl (a + length s)
           else Inr (a + length (takeWhile (\<lambda>x. x \<in> set ds) s)))"
proof (induction s arbitrary: a)
  case Nil
  then show ?case by (subst strtok_skip.simps) (use assms(2) in \<open>auto simp: strchr_run [OF assms]\<close>)
next
  case (Cons c s)
  then show ?case by (subst strtok_skip.simps) (use assms(2) in \<open>auto simp: strchr_run [OF assms]\<close>)
qed

lemma strtok_token_run:
  assumes "cstr m d ds" "d \<noteq> NULL"
  shows "cstr m a s \<Longrightarrow> strtok_token m d a = Some (a + length (takeWhile (\<lambda>x. x \<notin> set ds) s))"
proof (induction s arbitrary: a)
  case Nil
  then show ?case by (subst strtok_token.simps) (use assms(2) in \<open>auto simp: strchr_run [OF assms]\<close>)
next
  case (Cons c s)
  then show ?case by (subst strtok_token.simps) (use assms(2) in \<open>auto simp: strchr_run [OF assms]\<close>)
qed

section \<open>Tokens\<close>

text \<open>The fields of a string, split at every delimiter; the tokens are the fields that are not empty.\<close>

fun fields :: "'a set \<Rightarrow> 'a list \<Rightarrow> 'a list list" where
  "fields D [] = [[]]"
| "fields D (c # s) = (if c \<in> D then [] # fields D s else (c # hd (fields D s)) # tl (fields D s))"

definition tokens :: "'a set \<Rightarrow> 'a list \<Rightarrow> 'a list list" where
  "tokens D s = filter (\<lambda>t. t \<noteq> []) (fields D s)"

lemma tokens_Nil [simp]: "tokens D [] = []"
  by (simp add: tokens_def)

lemma tokens_delim [simp]: "c \<in> D \<Longrightarrow> tokens D (c # s) = tokens D s"
  by (simp add: tokens_def)

lemma tokens_skip: "set pre \<subseteq> D \<Longrightarrow> tokens D (pre @ s) = tokens D s"
  by (induction pre) auto

lemma fields_token:
  "set tok \<inter> D = {} \<Longrightarrow> rest = [] \<or> hd rest \<in> D \<Longrightarrow>
     fields D (tok @ rest) = tok # (if rest = [] then [] else fields D (tl rest))"
  by (induction tok) (auto simp: neq_Nil_conv)

lemma tokens_token:
  "tok \<noteq> [] \<Longrightarrow> set tok \<inter> D = {} \<Longrightarrow> rest = [] \<or> hd rest \<in> D \<Longrightarrow>
     tokens D (tok @ rest) = tok # tokens D (tl rest)"
  using fields_token [of tok D rest] by (cases rest) (auto simp: tokens_def)

text \<open>A string is delimiters only, or delimiters, a token and the rest.\<close>

lemma split_token:
  obtains "set s \<subseteq> D"
  | pre tok rest where "s = pre @ tok @ rest" "set pre \<subseteq> D" "tok \<noteq> []" "set tok \<inter> D = {}"
      "rest = [] \<or> hd rest \<in> D"
proof (cases "dropWhile (\<lambda>x. x \<in> D) s = []")
  case True
  then show ?thesis using that(1) by auto
next
  case False
  let ?t = "dropWhile (\<lambda>x. x \<in> D) s"
  have 1: "s = takeWhile (\<lambda>x. x \<in> D) s @ takeWhile (\<lambda>x. x \<notin> D) ?t @ dropWhile (\<lambda>x. x \<notin> D) ?t"
    by simp
  have 2: "set (takeWhile (\<lambda>x. x \<in> D) s) \<subseteq> D" by (auto dest: set_takeWhileD)
  have 3: "takeWhile (\<lambda>x. x \<notin> D) ?t \<noteq> []"
    using hd_dropWhile [OF False] False by (cases ?t) auto
  have 4: "set (takeWhile (\<lambda>x. x \<notin> D) ?t) \<inter> D = {}" by (auto dest: set_takeWhileD)
  have 5: "dropWhile (\<lambda>x. x \<notin> D) ?t = [] \<or> hd (dropWhile (\<lambda>x. x \<notin> D) ?t) \<in> D"
    using hd_dropWhile [of "\<lambda>x. x \<notin> D" ?t] by blast
  show ?thesis by (rule that(2) [OF 1 2 3 4 5])
qed

lemma strtok_r_end:
  assumes "cstr m d ds" "d \<noteq> NULL" "cstr m a s" "a \<noteq> NULL" "set s \<subseteq> set ds"
    and "p = NULL \<and> sv = a \<or> p = a"
  shows "strtok_r m p d sv = Some (NULL, a + length s, m)"
  using assms by (auto simp: strtok_r_def Let_def strtok_skip_run [OF assms(1-3)])

lemma strtok_r_token:
  assumes d: "cstr m d ds" "d \<noteq> NULL" and s: "cstr m a (pre @ tok @ rest)" "a \<noteq> NULL"
    and t: "set pre \<subseteq> set ds" "tok \<noteq> []" "set tok \<inter> set ds = {}" "rest = [] \<or> hd rest \<in> set ds"
    and p: "p = NULL \<and> sv = a \<or> p = a"
  defines "e \<equiv> a + length pre + length tok"
  shows "strtok_r m p d sv = Some (a + length pre, if rest = [] then e else Suc e,
           if rest = [] then m else m(e \<mapsto> 0))"
proof -
  have tw: "takeWhile (\<lambda>x. x \<in> set ds) (pre @ tok @ rest) = pre"
    using t by (cases tok) (auto simp: takeWhile_append2 subset_iff)
  have dw: "dropWhile (\<lambda>x. x \<in> set ds) (pre @ tok @ rest) \<noteq> []"
    using t by (cases tok) (auto simp: dropWhile_append2 subset_iff)
  have tt: "takeWhile (\<lambda>x. x \<notin> set ds) (tok @ rest) = tok"
    using t by (cases rest) (auto simp: takeWhile_append2 disjoint_iff)
  have c: "cstr m (a + length pre) (tok @ rest)" using s(1) by (simp add: cstr_append)
  have e: "cstr m e rest" using c by (simp add: cstr_append e_def)
  have "strtok_skip m d a = Some (Inr (a + length pre))"
    using strtok_skip_run [OF d s(1)] dw tw by simp
  moreover have "strtok_token m d (a + length pre) = Some e"
    using strtok_token_run [OF d c] tt by (simp add: e_def)
  moreover have "m e = Some (if rest = [] then 0 else hd rest)" "rest \<noteq> [] \<Longrightarrow> hd rest \<noteq> 0"
    using e by (cases rest; simp)+
  ultimately show ?thesis using d(2) s(2) p by (auto simp: strtok_r_def Let_def)
qed

text \<open>The loop the comment of \<open>strtok_r\<close> gives as its usage, collecting the tokens.\<close>

partial_function (option) strtok_all :: "mem \<Rightarrow> nat \<Rightarrow> nat \<Rightarrow> nat \<Rightarrow> (nat list \<times> mem) option" where
  "strtok_all m s d sv = do {
     (t, sv, m) \<leftarrow> strtok_r m s d sv;
     if t = NULL then Some ([], m)
     else do { (ts, m) \<leftarrow> strtok_all m NULL d sv; Some (t # ts, m) }
   }"

lemma cstr_agree:
  "cstr m a s \<Longrightarrow> (\<And>x. a \<le> x \<Longrightarrow> x \<le> a + length s \<Longrightarrow> m' x = m x) \<Longrightarrow> cstr m' a s"
  by (induction s arbitrary: a) auto

lemma strtok_all_run:
  assumes "cstr m a s" "a \<noteq> NULL" "cstr m d ds" "d \<noteq> NULL" "d + length ds < a \<or> a + length s < d"
    and "p = NULL \<and> sv = a \<or> p = a"
  shows "\<exists>ts m'. strtok_all m p d sv = Some (ts, m') \<and> list_all2 (cstr m') ts (tokens (set ds) s) \<and>
     (\<forall>x. x < a \<or> a + length s \<le> x \<longrightarrow> m' x = m x)"
  using assms
proof (induction "length s" arbitrary: s a m p sv rule: less_induct)
  case less
  show ?case
  proof (cases rule: split_token [of s "set ds"])
    case 1
    then have "tokens (set ds) s = []" using tokens_skip [of s "set ds" "[]"] by simp
    then show ?thesis
      using strtok_r_end [OF less.prems(3,4,1,2) 1 less.prems(6)] by (subst strtok_all.simps) simp
  next
    case (2 pre tok rest)
    define e where "e = a + length pre + length tok"
    define m1 where "m1 = (if rest = [] then m else m(e \<mapsto> 0))"
    define sv1 where "sv1 = (if rest = [] then e else Suc e)"
    have r: "strtok_r m p d sv = Some (a + length pre, sv1, m1)"
      using strtok_r_token [OF less.prems(3,4) _ less.prems(2) 2(2-5) less.prems(6)] less.prems(1) 2(1)
      by (simp add: e_def m1_def sv1_def)
    have t: "cstr m1 (a + length pre) tok"
      using less.prems(1) by (cases rest) (auto simp: 2(1) cstr_append cstr_def m1_def e_def)
    have w: "cstr m1 sv1 (tl rest)"
      using less.prems(1) by (cases rest)
        (auto simp: 2(1) cstr_append m1_def sv1_def e_def intro: cstr_agree dest: cstr_end)
    have d: "cstr m1 d ds"
      using less.prems(3,5) by (auto simp: 2(1) m1_def e_def intro!: cstr_agree [OF less.prems(3)])
    have l: "length (tl rest) < length s" using 2 by (cases tok) auto
    have sl: "sv1 + length (tl rest) = a + length s" "a \<le> sv1"
      by (cases rest; simp add: 2(1) sv1_def e_def)+
    have "sv1 \<noteq> NULL" "d + length ds < sv1 \<or> sv1 + length (tl rest) < d"
      using sl less.prems(2,5) by auto
    from less.hyps [OF l w this(1) d less.prems(4) this(2), of NULL sv1]
    obtain ts m' where h: "strtok_all m1 NULL d sv1 = Some (ts, m')"
        "list_all2 (cstr m') ts (tokens (set ds) (tl rest))"
        "\<forall>x. x < sv1 \<or> a + length s \<le> x \<longrightarrow> m' x = m1 x"
      using sl(1) by auto
    have "cstr m' (a + length pre) tok"
      by (rule cstr_agree [OF t]) (use h(3) in \<open>cases rest; auto simp: 2(1) sv1_def e_def le_less\<close>)
    moreover have "tokens (set ds) s = tok # tokens (set ds) (tl rest)"
      using 2 by (simp add: tokens_skip tokens_token)
    moreover have "\<forall>x. x < a \<or> a + length s \<le> x \<longrightarrow> m' x = m x"
      using h(3) sl(2) by (cases rest) (auto simp: 2(1) m1_def e_def)
    ultimately show ?thesis
      using r h(1,2) less.prems(2) by (subst strtok_all.simps) simp
  qed
qed

lemma strlcpy_run:
  assumes s: "cstr m src s" "src \<noteq> NULL" and d: "mapped m dst n" "dst \<noteq> NULL"
    and dis: "dst + n \<le> src \<or> src + length s < dst" and n: "0 < n"
  shows "strlcpy m dst src n = Some (length s, mwrite m dst (take (n - 1) s @ [0]))"
proof -
  let ?t = "take (n - 1) s"
  have h: "holds m src ?t" using cstr_holds [OF s(1)] by (simp add: holds_def)
  have mp: "mapped m dst (length ?t)" by (rule mapped_le [OF d(1)]) (use n in auto)
  have dj: "dst + length ?t \<le> src \<or> src + length ?t \<le> dst" using dis by auto
  obtain k where nk: "n = Suc k" using n by (cases n) auto
  have k: "length ?t < n" using n by auto
  have "mwrite m dst ?t (dst + length ?t) \<noteq> None"
    using k mapped_mwrite [OF d(1), of dst ?t] unfolding mapped_def by blast
  then show ?thesis
    using memcpy_run [OF h mp d(2) s(2) dj] d(2) s unfolding nk
    by (cases "length s" k rule: linorder_cases)
      (simp_all add: strlcpy_def strlen_run Let_def mwrite_upd [symmetric] min_def del: fun_upd_apply)
qed

section \<open>Properties\<close>

text \<open>
  C14.  \<open>memmove\<close> copies the bytes of the source to the destination even when the two overlap, and
  changes nothing else.  It returns the destination when the source does not lie above it, and
  otherwise the end of the destination.
\<close>

theorem memmove_correct:
  assumes "holds m src bs" "mapped m dst (length bs)" "dst \<noteq> NULL" "src \<noteq> NULL"
  shows "\<exists>m'. memmove m dst src (length bs) =
           Some (if dst < src then dst + length bs else dst, m') \<and> holds m' dst bs \<and>
       (\<forall>x. x < dst \<or> dst + length bs \<le> x \<longrightarrow> m' x = m x)"
  using assms memmove_up_run [of m src bs dst] memmove_down_run [of m src bs dst]
  by (auto simp: memmove_def mwrite_apply)

definition demo_mem :: mem where
  "demo_mem = mwrite Map.empty 100 [32, 97, 98, 32, 32, 99, 0, 32, 0]"

theorem memmove_correct_witness:
  "\<exists>m'. memmove demo_mem 100 102 3 = Some (103, m') \<and> holds m' 100 [98, 32, 32]"
  using memmove_correct [of demo_mem 102 "[98, 32, 32]" 100] by (auto simp: demo_mem_def numeral_eq_Suc)

text \<open>
  C15.  Calling \<open>strtok_r\<close> until it returns a null pointer ends, and yields pointers to
  null-terminated strings that are exactly the nonempty fields of the string between delimiters,
  in order; no byte outside the string is changed.
\<close>

theorem strtok_r_tokens:
  assumes "cstr m a s" "a \<noteq> NULL" "cstr m d ds" "d \<noteq> NULL" "d + length ds < a \<or> a + length s < d"
  shows "\<exists>ts m'. strtok_all m a d sv = Some (ts, m') \<and> list_all2 (cstr m') ts (tokens (set ds) s) \<and>
     (\<forall>x. x < a \<or> a + length s \<le> x \<longrightarrow> m' x = m x)"
  using strtok_all_run [OF assms, of a] by blast

theorem strtok_r_tokens_witness:
  "\<exists>ts m'. strtok_all demo_mem 100 107 0 = Some (ts, m') \<and> list_all2 (cstr m') ts [[97, 98], [99]]"
proof -
  have "tokens {32 :: u8} [32, 97, 98, 32, 32, 99] = [[97, 98], [99]]" by (simp add: tokens_def)
  moreover have "cstr demo_mem 100 [32, 97, 98, 32, 32, 99]" "cstr demo_mem 107 [32]"
    by (auto simp: demo_mem_def)
  ultimately show ?thesis using strtok_r_tokens [of demo_mem 100 _ 107 "[32]" 0] by fastforce
qed

text \<open>
  C16.  \<open>strlcpy\<close> into a buffer of a positive size leaves there a null-terminated string, the source
  cut off at the size minus one, returns the length of the source, and writes nothing outside the
  buffer.
\<close>

theorem strlcpy_bounded:
  assumes "cstr m src s" "src \<noteq> NULL" "mapped m dst n" "dst \<noteq> NULL" "dst + n \<le> src \<or> src + length s < dst" "0 < n"
  shows "\<exists>m'. strlcpy m dst src n = Some (length s, m') \<and> cstr m' dst (take (n - 1) s) \<and>
     (\<forall>x. x < dst \<or> dst + n \<le> x \<longrightarrow> m' x = m x)"
proof -
  have "0 \<notin> set (take (n - 1) s)" using assms(1) by (auto simp: cstr_def dest: in_set_takeD)
  moreover have "length (take (n - 1) s @ [0]) \<le> n" using assms(6) by auto
  ultimately show ?thesis
    using strlcpy_run [OF assms] by (auto simp: cstr_def mwrite_apply simp del: holds_append)
qed

theorem strlcpy_bounded_witness:
  "\<exists>m'. strlcpy demo_mem 107 101 2 = Some (5, m') \<and> cstr m' 107 [97]"
proof -
  have "mapped demo_mem 107 2" by (simp add: demo_mem_def numeral_2_eq_2)
  moreover have "cstr demo_mem 101 [97, 98, 32, 32, 99]" by (simp add: demo_mem_def)
  ultimately show ?thesis using strlcpy_bounded [of demo_mem 101 _ 107 2] by fastforce
qed

end
