(* ===== verification/Arith64.thy ===== *)
theory Arith64
  imports Prelude "HOL-Library.Signed_Division"
begin

text \<open>
  The 64-bit division routines of \<open>lib/arithmetic.c\<close>, which GCC calls for \<open>/\<close> and \<open>%\<close> on
  \<open>long long\<close>.  \<open>None\<close> is the divide error of the x86 \<open>divl\<close> instruction.  The correctness theorem
  covers the normalised one-step estimate of the second branch of \<open>udiv64\<close>.
\<close>

section \<open>The code\<close>

text \<open>The \<open>divl\<close> instruction traps when the divisor is 0 or the quotient does not fit in 32 bits.\<close>

definition divl :: "u64 \<Rightarrow> u32 \<Rightarrow> u32 option" where
  "divl n d = (if d = 0 \<or> unat n div unat d \<ge> 2 ^ 32 then None else Some (of_nat (unat n div unat d)))"

definition nlz :: "u32 \<Rightarrow> nat" where
  "nlz x =
     (let (n, x) = (if x \<le> 0x0000FFFF then (16, push_bit 16 x) else (0, x));
          (n, x) = (if x \<le> 0x00FFFFFF then (n + 8, push_bit 8 x) else (n, x));
          (n, x) = (if x \<le> 0x0FFFFFFF then (n + 4, push_bit 4 x) else (n, x));
          (n, x) = (if x \<le> 0x3FFFFFFF then (n + 2, push_bit 2 x) else (n, x))
      in if x \<le> 0x7FFFFFFF then n + 1 else n)"

definition udiv64 :: "u64 \<Rightarrow> u64 \<Rightarrow> u64 option" where
  "udiv64 n d =
     (if drop_bit 32 d = 0 then do {
        let b = push_bit 32 (1 :: u64);
        let n1 = (ucast (drop_bit 32 n) :: u32);
        let n0 = (ucast n :: u32);
        let d0 = (ucast d :: u32);
        ASSERT (d0 \<noteq> 0);
        q \<leftarrow> divl (b * ucast (n1 mod d0) + ucast n0) d0;
        Some (ucast q + b * ucast (n1 div d0))
      }
      else if n < d then Some 0
      else do {
        let d1 = (ucast (drop_bit 32 d) :: u32);
        let s = nlz d1;
        q \<leftarrow> divl (drop_bit 1 n) (ucast (drop_bit 32 (push_bit s d)));
        let q = ucast (drop_bit (31 - s) q);
        Some (if n - (q - 1) * d < d then q - 1 else q)
      })"

definition umod64 :: "u64 \<Rightarrow> u64 \<Rightarrow> u32 option" where
  "umod64 n d = do { q \<leftarrow> udiv64 n d; Some (ucast (n - d * q)) }"

text \<open>Signed values are words read with \<open>sint\<close>.\<close>

definition sdiv64 :: "u64 \<Rightarrow> u64 \<Rightarrow> u64 option" where
  "sdiv64 n d = do {
     let n_abs = (if sint n \<ge> 0 then n else - n);
     let d_abs = (if sint d \<ge> 0 then d else - d);
     q_abs \<leftarrow> udiv64 n_abs d_abs;
     Some (if (sint n < 0) = (sint d < 0) then q_abs else - q_abs)
   }"

definition smod64 :: "u64 \<Rightarrow> u64 \<Rightarrow> u32 option" where
  "smod64 n d = do { q \<leftarrow> sdiv64 n d; Some (ucast (n - d * q)) }"

definition divdi3 :: "u64 \<Rightarrow> u64 \<Rightarrow> u64 option" where
  "divdi3 n d = sdiv64 n d"

definition moddi3 :: "u64 \<Rightarrow> u64 \<Rightarrow> u64 option" where
  "moddi3 n d = map_option scast (smod64 n d)"

definition udivdi3 :: "u64 \<Rightarrow> u64 \<Rightarrow> u64 option" where
  "udivdi3 n d = udiv64 n d"

definition umoddi3 :: "u64 \<Rightarrow> u64 \<Rightarrow> u64 option" where
  "umoddi3 n d = map_option ucast (umod64 n d)"

definition udivmoddi4 :: "u64 \<Rightarrow> u64 \<Rightarrow> (u64 \<times> u64) option" where
  "udivmoddi4 a b = do { r \<leftarrow> umod64 a b; q \<leftarrow> udiv64 a b; Some (q, ucast r) }"

section \<open>Leading zeros\<close>

lemma nlz_bounds:
  assumes "x \<noteq> 0"
  shows "nlz x < 32 \<and> 2 ^ 31 \<le> unat x * 2 ^ nlz x \<and> unat x * 2 ^ nlz x < 2 ^ 32"
proof -
  have step: "unat (push_bit k y) = unat y * 2 ^ k" if "unat y < 2 ^ (32 - k)" "k \<le> 32" for y :: u32 and k
  proof -
    have "unat y * 2 ^ k < 2 ^ (32 - k) * 2 ^ k" using that by simp
    also have "\<dots> = 2 ^ 32" using that by (simp flip: power_add)
    finally show ?thesis by (simp only: unsigned_push_bit_eq) (simp add: take_bit_eq_mod push_bit_eq_mult)
  qed
  have pos: "0 < unat x" using assms by (simp add: unat_gt_0)
  have lt: "unat x < 2 ^ 32" using unsigned_less [of x] by simp
  define y1 where "y1 = (if x \<le> 0x0000FFFF then (16 :: nat, push_bit 16 x) else (0, x))"
  have 1: "unat (snd y1) = unat x * 2 ^ fst y1 \<and> 2 ^ 16 \<le> unat (snd y1) \<and> fst y1 \<le> 16"
    using pos step [of x 16] by (auto simp: y1_def word_le_nat_alt)
  define y2 where "y2 = (if snd y1 \<le> 0x00FFFFFF then (fst y1 + 8, push_bit 8 (snd y1)) else y1)"
  have 2: "unat (snd y2) = unat x * 2 ^ fst y2 \<and> 2 ^ 24 \<le> unat (snd y2) \<and> fst y2 \<le> 24"
    using 1 step [of "snd y1" 8] by (auto simp: y2_def word_le_nat_alt power_add)
  define y3 where "y3 = (if snd y2 \<le> 0x0FFFFFFF then (fst y2 + 4, push_bit 4 (snd y2)) else y2)"
  have 3: "unat (snd y3) = unat x * 2 ^ fst y3 \<and> 2 ^ 28 \<le> unat (snd y3) \<and> fst y3 \<le> 28"
    using 2 step [of "snd y2" 4] by (auto simp: y3_def word_le_nat_alt power_add)
  define y4 where "y4 = (if snd y3 \<le> 0x3FFFFFFF then (fst y3 + 2, push_bit 2 (snd y3)) else y3)"
  have 4: "unat (snd y4) = unat x * 2 ^ fst y4 \<and> 2 ^ 30 \<le> unat (snd y4) \<and> fst y4 \<le> 30"
    using 3 step [of "snd y3" 2] by (auto simp: y4_def word_le_nat_alt power_add)
  have "nlz x = (if snd y4 \<le> 0x7FFFFFFF then fst y4 + 1 else fst y4)"
    by (simp add: nlz_def Let_def y4_def y3_def y2_def y1_def split: prod.splits if_splits)
  moreover have "unat (snd y4) < 2 ^ 32" using unsigned_less [of "snd y4"] by simp
  ultimately show ?thesis using 4 by (auto simp: word_le_nat_alt)
qed

section \<open>Unsigned division\<close>

lemma unat_ucast_32_64 [simp]: "unat (ucast (w :: u32) :: u64) = unat w"
  using unat_lt_32 [of w] by (simp add: unsigned_ucast_eq take_bit_nat_eq_self_iff)

lemma unat_ucast_64_32 [simp]: "unat (ucast (w :: u64) :: u32) = unat w mod 2 ^ 32"
  by (simp add: unsigned_ucast_eq take_bit_eq_mod)

lemma unat_drop_64 [simp]: "unat (drop_bit k (w :: u64)) = unat w div 2 ^ k"
  by (simp only: unat_drop_bit_eq) (simp add: drop_bit_eq_div)

lemma div_by_parts:
  "0 < D \<Longrightarrow> (B * (n1 mod D) + n0) div D + B * (n1 div D) = (B * n1 + n0) div (D :: nat)"
proof -
  assume D: "0 < D"
  have e: "B * n1 + n0 = B * (n1 mod D) + n0 + B * (n1 div D) * D"
    by (metis (no_types, opaque_lifting) add.commute add.left_commute add_mult_distrib2 mod_mult_div_eq mult.assoc mult.commute)
  show ?thesis unfolding e using D by (subst div_mult_self1) auto
qed

lemma udiv64_small:
  assumes d: "d \<noteq> 0" "unat d < 2 ^ 32"
  shows "udiv64 n d = Some (n div d)"
proof -
  let ?N = "unat n" and ?D = "unat d"
  let ?x = "2 ^ 32 * (?N div 2 ^ 32 mod ?D) + ?N mod 2 ^ 32"
  define n1 :: u32 where "n1 = ucast (drop_bit 32 n)"
  define d0 :: u32 where "d0 = ucast d"
  define x :: u64 where "x = push_bit 32 1 * ucast (n1 mod d0) + ucast (ucast n :: u32)"
  have D: "0 < ?D" using d(1) by (simp add: unat_gt_0)
  have d0: "unat d0 = ?D" using d(2) by (simp add: d0_def)
  have n1: "unat n1 = ?N div 2 ^ 32" using unat_lt_64 [of n] by (simp add: n1_def)
  have N: "2 ^ 32 * (?N div 2 ^ 32) + ?N mod 2 ^ 32 = ?N" by simp
  have "?N div 2 ^ 32 mod ?D < ?D" using D by simp
  then have le: "?N div 2 ^ 32 mod ?D + 1 \<le> ?D" by simp
  have xl: "?x < 2 ^ 32 * (?N div 2 ^ 32 mod ?D + 1)" by simp
  then have xd: "?x < 2 ^ 32 * ?D" using mult_le_mono2 [OF le, of "2 ^ 32"] by linarith
  then have ux: "unat x = ?x"
    using d(2) by (simp add: x_def unat_word_ariths unat_mod_distrib n1 d0 push_bit_eq_mult)
  define Q where "Q = ?x div ?D"
  have Q: "Q < 2 ^ 32" using xd D by (simp add: Q_def div_less_iff_less_mult mult.commute)
  have dl: "divl x d0 = Some (of_nat Q)"
    using D d0 ux Q by (auto simp: divl_def unat_eq_0 Q_def)
  have q: "unat (of_nat Q :: u32) = Q" using Q by (simp add: unat_of_nat)
  have r: "Q + 2 ^ 32 * (?N div 2 ^ 32 div ?D) = ?N div ?D"
    using div_by_parts [OF D, of "2 ^ 32" "?N div 2 ^ 32" "?N mod 2 ^ 32"] N by (simp add: Q_def)
  have "?N div ?D < 2 ^ 64" using unat_lt_64 [of n] div_le_dividend [of ?N ?D] by linarith
  then have "unat (ucast (of_nat Q :: u32) + push_bit 32 (1 :: u64) * ucast (n1 div d0)) = unat (n div d)"
    using r by (simp add: unat_word_ariths unat_div_distrib n1 d0 q push_bit_eq_mult)
  then have w: "ucast (of_nat Q :: u32) + push_bit 32 (1 :: u64) * ucast (n1 div d0) = n div d"
    by (simp only: word_unat_eq_iff)
  have "drop_bit 32 d = 0" using d(2) by (simp add: unat_eq_0 [symmetric])
  moreover have "d0 \<noteq> 0" using d0 D by auto
  ultimately show ?thesis
    using dl w by (simp add: udiv64_def Let_def n1_def [symmetric] d0_def [symmetric] x_def)
qed

text \<open>The estimate of the second branch is the quotient or one more.\<close>

lemma estimate:
  fixes N D :: nat
  assumes N: "N < 2 ^ 64" and s: "s < 32" and D: "2 ^ 63 \<le> D * 2 ^ s" "D * 2 ^ s < 2 ^ 64"
  defines "V \<equiv> D * 2 ^ s div 2 ^ 32"
  shows "N div 2 div V < 2 ^ 32 \<and> N div D \<le> N div 2 div V div 2 ^ (31 - s) \<and>
     N div 2 div V div 2 ^ (31 - s) \<le> N div D + 1"
proof -
  have V: "2 ^ 31 \<le> V" using div_le_mono [OF D(1), of "2 ^ 32"] by (simp add: V_def)
  have "N div 2 < 2 ^ 63" using N by (simp add: div_less_iff_less_mult)
  moreover have "2 ^ 32 * 2 ^ 31 \<le> 2 ^ 32 * V" using V by (rule mult_le_mono2)
  ultimately have "N div 2 < 2 ^ 32 * V" by simp
  then have 1: "N div 2 div V < 2 ^ 32" using V by (simp add: div_less_iff_less_mult)
  define E where "E = V * 2 ^ (32 - s)"
  have p: "(2::nat) ^ (32 - s) * 2 ^ s = 2 ^ 32" using s by (simp flip: power_add)
  have p2: "(2::nat) ^ (32 - s) = 2 * 2 ^ (31 - s)" using s by (simp add: Suc_diff_le flip: power_Suc)
  have q: "N div 2 div V div 2 ^ (31 - s) = N div E"
    unfolding E_def p2 by (simp add: div_mult2_eq [symmetric] ac_simps)
  have E2: "E * 2 ^ s = D * 2 ^ s div 2 ^ 32 * 2 ^ 32" using p by (simp add: E_def V_def mult.assoc)
  have E: "E * 2 ^ s \<le> D * 2 ^ s" "D * 2 ^ s < E * 2 ^ s + 2 ^ 32"
    unfolding E2 using dividend_less_div_times [of "2 ^ 32" "D * 2 ^ s"] by simp_all
  have ED: "E \<le> D" using E(1) by simp
  have "D * 2 ^ s < (E + 2 ^ (32 - s)) * 2 ^ s" using E(2) p by (simp add: add_mult_distrib)
  then have DE: "D + 1 \<le> E + 2 ^ (32 - s)" by simp
  have Epos: "2 ^ 31 * 2 ^ (32 - s) \<le> E" using V by (simp add: E_def)
  have "0 < E" using Epos by (rule less_le_trans [rotated]) simp
  then have 2: "N div D \<le> N div E" using ED by (simp add: div_le_mono2)
  let ?Q = "N div D"
  have Dpos: "0 < D" using \<open>0 < E\<close> ED by simp
  have "?Q * 2 ^ 63 \<le> ?Q * (D * 2 ^ s)" using D(1) by simp
  also have "\<dots> \<le> N * 2 ^ s" using div_times_less_eq_dividend [of N D] by (simp flip: mult.assoc)
  also have "\<dots> < 2 ^ 64 * 2 ^ s" using N by simp
  finally have "?Q < 2 * 2 ^ s" by simp
  then have Q: "?Q + 1 \<le> 2 * 2 ^ s" by simp
  have "(?Q + 1) * (D - E) \<le> 2 * 2 ^ s * (2 ^ (32 - s) - 1)"
    using Q DE by (intro mult_mono) auto
  also have "\<dots> = 2 ^ 33 - 2 * 2 ^ s" using p by (simp add: right_diff_distrib' mult.commute)
  also have "\<dots> \<le> E"
  proof (cases "s = 31")
    case True
    then show ?thesis using Epos by simp
  next
    case False
    then have "(2::nat) ^ 2 \<le> 2 ^ (32 - s)" using s by (intro power_increasing) auto
    then show ?thesis using Epos by simp
  qed
  finally have "(?Q + 1) * D \<le> (?Q + 2) * E"
    using ED by (simp add: diff_mult_distrib2 algebra_simps)
  moreover have "N < (?Q + 1) * D" using Dpos by (simp add: dividend_less_div_times)
  ultimately have "N < (?Q + 2) * E" by linarith
  then have "N div E < ?Q + 2" using \<open>0 < E\<close> by (simp add: div_less_iff_less_mult)
  then show ?thesis using 1 2 q by simp
qed

lemma udiv64_large:
  assumes d: "\<not> unat d < 2 ^ 32" and nd: "\<not> n < d"
  shows "udiv64 n d = Some (n div d)"
proof -
  let ?N = "unat n" and ?D = "unat d"
  define d1 :: u32 where "d1 = ucast (drop_bit 32 d)"
  define s where "s = nlz d1"
  have D64: "?D < 2 ^ 64" and N64: "?N < 2 ^ 64" by (rule unat_lt_64)+
  have d1: "unat d1 = ?D div 2 ^ 32" using D64 by (simp add: d1_def)
  then have "d1 \<noteq> 0" using d by (auto simp: div_eq_0_iff)
  from nlz_bounds [OF this] have s: "s < 32" "2 ^ 31 \<le> ?D div 2 ^ 32 * 2 ^ s" "?D div 2 ^ 32 * 2 ^ s < 2 ^ 32"
    by (auto simp: s_def d1)
  have "(2::nat) ^ 63 = 2 ^ 32 * 2 ^ 31" by simp
  also have "\<dots> \<le> 2 ^ 32 * (?D div 2 ^ 32 * 2 ^ s)" using s(2) by (rule mult_le_mono2)
  also have "\<dots> = 2 ^ 32 * (?D div 2 ^ 32) * 2 ^ s" by (simp only: ac_simps)
  also have "\<dots> \<le> ?D * 2 ^ s" by (rule mult_le_mono1) (rule times_div_less_eq_dividend)
  finally have lo: "2 ^ 63 \<le> ?D * 2 ^ s" .
  have p: "(2::nat) ^ (32 - s) * 2 ^ s = 2 ^ 32" using s(1) by (simp flip: power_add)
  have "?D div 2 ^ 32 * 2 ^ s < 2 ^ (32 - s) * 2 ^ s" using s(3) p by simp
  then have "?D div 2 ^ 32 < 2 ^ (32 - s)" by simp
  then have "?D < 2 ^ (32 - s) * 2 ^ 32" by (simp add: div_less_iff_less_mult)
  then have "?D * 2 ^ s < 2 ^ (32 - s) * 2 ^ 32 * 2 ^ s" by simp
  also have "\<dots> = 2 ^ (32 - s) * 2 ^ s * 2 ^ 32" by (simp only: ac_simps)
  also have "\<dots> = 2 ^ 64" by (simp only: p) simp
  finally have hi: "?D * 2 ^ s < 2 ^ 64" .
  define V where "V = ?D * 2 ^ s div 2 ^ 32"
  define v :: u32 where "v = ucast (drop_bit 32 (push_bit s d))"
  have "unat (push_bit s d) = ?D * 2 ^ s"
    using hi by (simp only: unsigned_push_bit_eq) (simp add: take_bit_eq_mod push_bit_eq_mult)
  then have v: "unat v = V"
    using hi by (simp add: v_def V_def div_less_iff_less_mult)
  note est = estimate [OF N64 s(1) lo hi, folded V_def]
  have V: "2 ^ 31 \<le> V" using div_le_mono [OF lo, of "2 ^ 32"] by (simp add: V_def)
  have dl: "divl (drop_bit 1 n) v = Some (of_nat (?N div 2 div V))"
    using est V v by (auto simp: divl_def unat_eq_0)
  define q :: u64 where "q = ucast (drop_bit (31 - s) (of_nat (?N div 2 div V) :: u32))"
  have q: "unat q = ?N div 2 div V div 2 ^ (31 - s)"
    unfolding q_def unat_ucast_32_64 unat_drop_bit_eq
    using est by (simp add: drop_bit_eq_div unat_of_nat)
  let ?Q = "?N div ?D"
  have Dp: "0 < ?D" using d by simp
  have Q1: "1 \<le> ?Q" using nd Dp by (simp add: word_less_nat_alt Suc_le_eq div_greater_zero_iff)
  have qq: "unat q = ?Q \<or> unat q = ?Q + 1" using est q by linarith
  have q1: "unat (q - 1) = unat q - 1" using qq Q1 by (intro unat_minus_one) auto
  have m: "unat ((q - 1) * d) = (unat q - 1) * ?D" "(unat q - 1) * ?D \<le> ?N"
  proof -
    have "(unat q - 1) * ?D \<le> ?Q * ?D" using qq by (intro mult_le_mono1) auto
    then show "(unat q - 1) * ?D \<le> ?N" using div_times_less_eq_dividend [of ?N ?D] by linarith
    then show "unat ((q - 1) * d) = (unat q - 1) * ?D" using N64 q1 by (simp add: unat_word_ariths)
  qed
  have "n - (q - 1) * d < d \<longleftrightarrow> ?N - (unat q - 1) * ?D < ?D"
    using m by (simp add: word_less_nat_alt unat_sub word_le_nat_alt)
  also have "\<dots> \<longleftrightarrow> unat q = ?Q + 1"
  proof -
    have "?N - ?Q * ?D < ?D" using Dp by (simp add: minus_div_mult_eq_mod)
    moreover have "\<not> ?N - (?Q - 1) * ?D < ?D"
    proof -
      have "(?Q - 1) * ?D + ?D = ?Q * ?D" using Q1 by (cases ?Q) auto
      then show ?thesis using div_times_less_eq_dividend [of ?N ?D] by linarith
    qed
    ultimately show ?thesis using qq by auto
  qed
  finally have "unat (if n - (q - 1) * d < d then q - 1 else q) = unat (n div d)"
    using qq q1 by (auto simp: unat_div_distrib)
  then have "(if n - (q - 1) * d < d then q - 1 else q) = n div d" by (simp only: word_unat_eq_iff)
  moreover have "drop_bit 32 d \<noteq> 0" using d by (simp add: unat_eq_0 [symmetric] div_eq_0_iff)
  ultimately show ?thesis
    using nd dl by (simp add: udiv64_def Let_def d1_def [symmetric] s_def [symmetric] v_def [symmetric]
        q_def [symmetric] split: if_splits)
qed

lemma udiv64_zero [simp]: "udiv64 n 0 = None"
  by (simp add: udiv64_def Let_def)

lemma udiv64_run: "udiv64 n d = (if d = 0 then None else Some (n div d))"
proof (cases "unat d < 2 ^ 32")
  case True
  then show ?thesis using udiv64_small by (cases "d = 0") auto
next
  case False
  then have "d \<noteq> 0" "drop_bit 32 d \<noteq> 0" by (auto simp: unat_eq_0 [symmetric] div_eq_0_iff)
  then show ?thesis
    using udiv64_large [OF False, of n] by (cases "n < d") (auto simp: udiv64_def word_unat_eq_iff unat_div_distrib word_less_nat_alt)
qed

section \<open>Signed division\<close>

definition abs64 :: "u64 \<Rightarrow> u64" where
  "abs64 n = (if sint n \<ge> 0 then n else - n)"

lemma sint_range_64: "- (2 ^ 63) \<le> sint (n :: u64) \<and> sint n < 2 ^ 63"
  using sint_greater_eq [of n] sint_less [of n] by simp

lemma uint_abs64: "uint (abs64 n) = \<bar>sint n\<bar>"
proof -
  have "abs64 n = word_of_int \<bar>sint n\<bar>" by (simp add: abs64_def)
  moreover have "\<bar>sint n\<bar> < 2 ^ 64" using sint_range_64 [of n] by (simp add: abs_if)
  ultimately show ?thesis by (simp add: uint_word_of_int)
qed

lemma sdiv64_run: "sdiv64 n d = (if d = 0 then None else Some (word_of_int (sint n sdiv sint d)))"
proof (cases "d = 0")
  case True
  then show ?thesis by (simp add: sdiv64_def Let_def)
next
  case False
  have z: "abs64 d \<noteq> 0" using False by (auto simp: abs64_def)
  have "abs64 n div abs64 d = word_of_int (\<bar>sint n\<bar> div \<bar>sint d\<bar>)"
    by (metis uint_abs64 uint_div word_of_int_uint)
  moreover have "sint n sdiv sint d =
      (if (sint n < 0) = (sint d < 0) then \<bar>sint n\<bar> div \<bar>sint d\<bar> else - (\<bar>sint n\<bar> div \<bar>sint d\<bar>))"
    using False by (auto simp: signed_divide_int_def sgn_if)
  ultimately show ?thesis
    using False z by (simp add: sdiv64_def Let_def udiv64_run abs64_def [symmetric])
qed

section \<open>Properties\<close>


text \<open>
  C18.  The remainder routines return the remainder modulo \<open>2\<^sup>3\<^sup>2\<close>, because \<open>umod64\<close> returns an
  \<open>uint32_t\<close>: \<open>__umoddi3\<close> and \<open>__udivmoddi4\<close> are right exactly when the remainder fits in 32 bits.
\<close>

theorem umoddi3_truncates:
  assumes "d \<noteq> 0"
  shows "\<exists>r. umoddi3 n d = Some r \<and> udivmoddi4 n d = Some (n div d, r) \<and> unat r = unat n mod unat d mod 2 ^ 32 \<and>
     (r = n mod d \<longleftrightarrow> unat n mod unat d < 2 ^ 32)"
proof -
  have m: "n - d * (n div d) = n mod d" by (simp add: minus_mult_div_eq_mod)
  let ?r = "ucast (ucast (n mod d) :: u32) :: u64"
  have u: "unat ?r = unat n mod unat d mod 2 ^ 32" by (simp add: unat_mod_distrib)
  have "?r = n mod d \<longleftrightarrow> unat n mod unat d mod 2 ^ 32 = unat n mod unat d"
    by (simp only: word_unat_eq_iff u unat_mod_distrib)
  also have "\<dots> \<longleftrightarrow> unat n mod unat d < 2 ^ 32"
    by (metis mod_less mod_less_divisor zero_less_numeral zero_less_power)
  finally show ?thesis
    using assms u by (simp add: umoddi3_def udivmoddi4_def umod64_def udiv64_run m)
qed

theorem umoddi3_truncates_witness:
  "umoddi3 0x100000005 0x200000000 = Some 5"
proof -
  obtain r where r: "umoddi3 0x100000005 0x200000000 = Some r" "unat r = 5"
    using umoddi3_truncates [of "0x200000000" "0x100000005"] by auto
  then have "r = 5" by (simp add: word_unat_eq_iff)
  then show ?thesis using r(1) by simp
qed

end
