(* ===== verification/Stdlib.thy ===== *)
theory Stdlib
  imports CString
begin

text \<open>
  \<open>lib/stdlib.c\<close>: \<open>atoi\<close>, the heap sort \<open>sort\<close> behind \<open>qsort\<close>, and the binary search behind
  \<open>bsearch\<close>; with them the character classes of \<open>lib/ctype.h\<close> they use.  The arrays are arrays of
  bytes that hold elements of \<open>sz\<close> bytes each, as in the C code, and the comparison callback
  is a function on the bytes of two elements.  The theorems speak about the sequence of elements.
\<close>

section \<open>Character classes (lib/ctype.h)\<close>

definition islower :: "int \<Rightarrow> bool" where "islower c \<longleftrightarrow> c \<ge> 97 \<and> c \<le> 122"
definition isupper :: "int \<Rightarrow> bool" where "isupper c \<longleftrightarrow> c \<ge> 65 \<and> c \<le> 90"
definition isalpha :: "int \<Rightarrow> bool" where "isalpha c \<longleftrightarrow> islower c \<or> isupper c"
definition isdigit :: "int \<Rightarrow> bool" where "isdigit c \<longleftrightarrow> c \<ge> 48 \<and> c \<le> 57"
definition isalnum :: "int \<Rightarrow> bool" where "isalnum c \<longleftrightarrow> isalpha c \<or> isdigit c"
definition isxdigit :: "int \<Rightarrow> bool" where
  "isxdigit c \<longleftrightarrow> isdigit c \<or> (c \<ge> 97 \<and> c \<le> 102) \<or> (c \<ge> 65 \<and> c \<le> 70)"
definition isspace :: "int \<Rightarrow> bool" where
  "isspace c \<longleftrightarrow> c = 32 \<or> c = 12 \<or> c = 10 \<or> c = 13 \<or> c = 9 \<or> c = 11"
definition isblank :: "int \<Rightarrow> bool" where "isblank c \<longleftrightarrow> c = 32 \<or> c = 9"
definition isgraph :: "int \<Rightarrow> bool" where "isgraph c \<longleftrightarrow> c > 32 \<and> c < 127"
definition isprint :: "int \<Rightarrow> bool" where "isprint c \<longleftrightarrow> c \<ge> 32 \<and> c < 127"
definition iscntrl :: "int \<Rightarrow> bool" where "iscntrl c \<longleftrightarrow> (c \<ge> 0 \<and> c < 32) \<or> c = 127"
definition isascii :: "int \<Rightarrow> bool" where "isascii c \<longleftrightarrow> c \<ge> 0 \<and> c < 128"
definition ispunct :: "int \<Rightarrow> bool" where "ispunct c \<longleftrightarrow> isprint c \<and> \<not> isalnum c \<and> \<not> isspace c"
definition tolower :: "int \<Rightarrow> int" where "tolower c = (if isupper c then c - 65 + 97 else c)"
definition toupper :: "int \<Rightarrow> int" where "toupper c = (if islower c then c - 97 + 65 else c)"

section \<open>atoi\<close>

text \<open>Signed arithmetic on \<open>int\<close>: an overflow is undefined.\<close>

definition INT_MIN :: int where "INT_MIN = - (2 ^ 31)"
definition INT_MAX :: int where "INT_MAX = 2 ^ 31 - 1"

definition int_val :: "int \<Rightarrow> int option" where
  "int_val v = (if INT_MIN \<le> v \<and> v \<le> INT_MAX then Some v else None)"

partial_function (option) atoi_skip :: "mem \<Rightarrow> nat \<Rightarrow> nat option" where
  "atoi_skip m s = do { c \<leftarrow> m s; if isspace (uint c) then atoi_skip m (s + 1) else Some s }"

partial_function (option) atoi_digits :: "mem \<Rightarrow> nat \<Rightarrow> int \<Rightarrow> int option" where
  "atoi_digits m s v = do {
     c \<leftarrow> m s;
     if isdigit (sint c) then do {
       t \<leftarrow> int_val (v * 10);
       v \<leftarrow> int_val (t - (sint c - 48));
       atoi_digits m (s + 1) v
     } else Some v
   }"

definition atoi :: "mem \<Rightarrow> nat \<Rightarrow> int option" where
  "atoi m s = do {
     ASSERT (s \<noteq> NULL);
     s \<leftarrow> atoi_skip m s;
     c \<leftarrow> m s;
     let (negative, s) = (if c = 43 then (False, s + 1) else if c = 45 then (True, s + 1) else (False, s));
     v \<leftarrow> atoi_digits m s 0;
     if \<not> negative then int_val (- v) else Some v
   }"

section \<open>Sorting\<close>

type_synonym compare_func = "u8 list \<Rightarrow> u8 list \<Rightarrow> int"

text \<open>The bytes of the element with a 1-based index; \<open>None\<close> when they do not all lie in the array.\<close>

definition elem_at :: "u8 list \<Rightarrow> nat \<Rightarrow> nat \<Rightarrow> u8 list option" where
  "elem_at arr i sz =
     (if 0 < i \<and> (i - 1) * sz + sz \<le> length arr then Some (take sz (drop ((i - 1) * sz) arr)) else None)"

definition do_swap :: "u8 list \<Rightarrow> nat \<Rightarrow> nat \<Rightarrow> nat \<Rightarrow> u8 list option" where
  "do_swap arr a_idx b_idx sz = do {
     let a = (a_idx - 1) * sz;
     let b = (b_idx - 1) * sz;
     for_range 0 sz (\<lambda>i arr. do {
       t \<leftarrow> rd arr (a + i);
       u \<leftarrow> rd arr (b + i);
       arr \<leftarrow> wr arr (a + i) u;
       wr arr (b + i) t
     }) arr
   }"

definition do_compare :: "u8 list \<Rightarrow> nat \<Rightarrow> nat \<Rightarrow> nat \<Rightarrow> compare_func \<Rightarrow> int option" where
  "do_compare arr a_idx b_idx sz cmp = do {
     a \<leftarrow> elem_at arr a_idx sz;
     b \<leftarrow> elem_at arr b_idx sz;
     Some (cmp a b)
   }"

text \<open>The index of the largest element among \<open>i\<close> and its children.\<close>

definition heapify_max :: "u8 list \<Rightarrow> nat \<Rightarrow> nat \<Rightarrow> nat \<Rightarrow> compare_func \<Rightarrow> nat option" where
  "heapify_max arr i cnt sz cmp = do {
     let left = 2 * i;
     let right = 2 * i + 1;
     let mx = i;
     mx \<leftarrow> (if left \<le> cnt then do {
              c \<leftarrow> do_compare arr left mx sz cmp;
              Some (if c > 0 then left else mx) } else Some mx);
     (if right \<le> cnt then do {
        c \<leftarrow> do_compare arr right mx sz cmp;
        Some (if c > 0 then right else mx) } else Some mx)
   }"

lemma heapify_max_range: "heapify_max arr i cnt sz cmp = Some mx \<Longrightarrow> mx = i \<or> i \<le> mx \<and> mx \<le> cnt"
  by (auto simp: heapify_max_def Let_def bind_eq_Some_conv split: if_splits)

function heapify :: "u8 list \<Rightarrow> nat \<Rightarrow> nat \<Rightarrow> nat \<Rightarrow> compare_func \<Rightarrow> u8 list option" where
  "heapify arr i cnt sz cmp =
     (case heapify_max arr i cnt sz cmp of
        None \<Rightarrow> None
      | Some mx \<Rightarrow>
          if mx = i then Some arr
          else (case do_swap arr i mx sz of
                  None \<Rightarrow> None
                | Some arr \<Rightarrow> heapify arr mx cnt sz cmp))"
  by pat_completeness auto
termination by (relation "measure (\<lambda>(arr, i, cnt, sz, cmp). cnt - i)") (auto dest: heapify_max_range)

declare heapify.simps [simp del]

fun build_heap :: "u8 list \<Rightarrow> nat \<Rightarrow> nat \<Rightarrow> nat \<Rightarrow> compare_func \<Rightarrow> u8 list option" where
  "build_heap arr 0 cnt sz cmp = Some arr"
| "build_heap arr (Suc i) cnt sz cmp = do {
     arr \<leftarrow> heapify arr (Suc i) cnt sz cmp;
     build_heap arr i cnt sz cmp
   }"

fun sort_heap :: "u8 list \<Rightarrow> nat \<Rightarrow> nat \<Rightarrow> compare_func \<Rightarrow> u8 list option" where
  "sort_heap arr 0 sz cmp = Some arr"
| "sort_heap arr (Suc i) sz cmp =
     (if Suc i > 1 then do {
        arr \<leftarrow> do_swap arr 1 (Suc i) sz;
        arr \<leftarrow> heapify arr 1 i sz cmp;
        sort_heap arr i sz cmp
      } else Some arr)"

definition sort :: "u8 list \<Rightarrow> nat \<Rightarrow> nat \<Rightarrow> compare_func \<Rightarrow> u8 list option" where
  "sort arr cnt sz cmp = do {
     ASSERT (sz > 0);
     arr \<leftarrow> build_heap arr (cnt div 2) cnt sz cmp;
     sort_heap arr cnt sz cmp
   }"

definition qsort :: "u8 list \<Rightarrow> nat \<Rightarrow> nat \<Rightarrow> compare_func \<Rightarrow> u8 list option" where
  "qsort arr cnt sz cmp = sort arr cnt sz cmp"

section \<open>Searching\<close>

text \<open>The result is the offset of the match in the array; \<open>first\<close> and \<open>lst\<close> are offsets.\<close>

lemma middle_less: "first < lst \<Longrightarrow> (lst - first) div sz div 2 * sz < lst - (first :: nat)"
proof -
  assume l: "first < lst"
  have "(lst - first) div sz div 2 * sz * 2 = (lst - first) div sz div 2 * 2 * sz" by simp
  also have "\<dots> \<le> (lst - first) div sz * sz" by (rule mult_le_mono1) simp
  also have "\<dots> \<le> lst - first" by simp
  finally show ?thesis using l by linarith
qed

function binary_search_loop ::
  "u8 list \<Rightarrow> u8 list \<Rightarrow> nat \<Rightarrow> compare_func \<Rightarrow> nat \<Rightarrow> nat \<Rightarrow> nat option option" where
  "binary_search_loop key arr sz cmp first lst =
     (if first < lst then
        if sz = 0 then None
        else
          let range = (lst - first) div sz;
              middle = first + range div 2 * sz
          in if middle + sz \<le> length arr then
               let c = cmp key (take sz (drop middle arr))
               in if c < 0 then binary_search_loop key arr sz cmp first middle
                  else if c > 0 then binary_search_loop key arr sz cmp (middle + sz) lst
                  else Some (Some middle)
             else None
      else Some None)"
  by pat_completeness auto
termination
  by (relation "measure (\<lambda>(key, arr, sz, cmp, first, lst). lst - first)") (auto simp: middle_less)

declare binary_search_loop.simps [simp del]

definition binary_search :: "u8 list \<Rightarrow> u8 list \<Rightarrow> nat \<Rightarrow> nat \<Rightarrow> compare_func \<Rightarrow> nat option option" where
  "binary_search key arr cnt sz cmp = binary_search_loop key arr sz cmp 0 (sz * cnt)"

definition bsearch :: "u8 list \<Rightarrow> u8 list \<Rightarrow> nat \<Rightarrow> nat \<Rightarrow> compare_func \<Rightarrow> nat option option" where
  "bsearch key arr cnt sz cmp = binary_search key arr cnt sz cmp"

section \<open>Elements of an array\<close>

definition elem_list :: "u8 list \<Rightarrow> nat \<Rightarrow> nat \<Rightarrow> u8 list list" where
  "elem_list arr n sz = map (\<lambda>i. take sz (drop (i * sz) arr)) [0..<n]"

lemma length_elem_list [simp]: "length (elem_list arr n sz) = n"
  by (simp add: elem_list_def)

lemma elem_in_array: "i < n \<Longrightarrow> i * sz + sz \<le> n * (sz :: nat)"
  by (metis Suc_leI add.commute mult_Suc mult_le_mono1)

lemma elem_at_run:
  "length arr = n * sz \<Longrightarrow> 0 < i \<Longrightarrow> i \<le> n \<Longrightarrow> elem_at arr i sz = Some (elem_list arr n sz ! (i - 1))"
  using elem_in_array [of "i - 1" n sz] by (cases i) (simp_all add: elem_at_def elem_list_def)

lemma elem_list_nth:
  assumes "length arr = n * sz" "i < n" "k < sz"
  shows "elem_list arr n sz ! i ! k = arr ! (i * sz + k)"
  using assms elem_in_array [OF assms(2), of sz] by (simp add: elem_list_def)

lemma length_elem: "length arr = n * sz \<Longrightarrow> i < n \<Longrightarrow> length (elem_list arr n sz ! i) = sz"
  using elem_in_array [of i n sz] by (simp add: elem_list_def)

text \<open>Arrays of the same size are determined by their elements.\<close>

lemma elem_list_eqI:
  assumes "length arr = n * sz" "length xs = n" "\<And>i. i < n \<Longrightarrow> length (xs ! i) = sz"
    and "\<And>i k. i < n \<Longrightarrow> k < sz \<Longrightarrow> arr ! (i * sz + k) = xs ! i ! k"
  shows "elem_list arr n sz = xs"
  using assms by (intro nth_equalityI) (auto simp: length_elem elem_list_nth)

lemma block_inj:
  assumes "i < (sz :: nat)" "k < sz"
  shows "x * sz + i = j * sz + k \<longleftrightarrow> x = j \<and> i = k"
proof -
  have "(x * sz + i) div sz = x" "(x * sz + i) mod sz = i" "(j * sz + k) div sz = j" "(j * sz + k) mod sz = k"
    using assms by simp_all
  then show ?thesis by metis
qed

lemma do_swap_run:
  assumes l: "length arr = n * sz" and a: "a < n" and b: "b < n" and ab: "a \<noteq> b"
  defines "xs \<equiv> elem_list arr n sz"
  shows "\<exists>arr'. do_swap arr (Suc a) (Suc b) sz = Some arr' \<and> length arr' = n * sz \<and>
     elem_list arr' n sz = xs[a := xs ! b, b := xs ! a]"
proof -
  let ?P = "\<lambda>i r. length r = n * sz \<and>
    (\<forall>j k. j < n \<longrightarrow> k < sz \<longrightarrow> r ! (j * sz + k) =
       (if j = a \<and> k < i then arr ! (b * sz + k) else if j = b \<and> k < i then arr ! (a * sz + k)
        else arr ! (j * sz + k)))"
  let ?f = "\<lambda>i arr. do { t \<leftarrow> rd arr (a * sz + i); u \<leftarrow> rd arr (b * sz + i);
       arr \<leftarrow> wr arr (a * sz + i) u; wr arr (b * sz + i) t }"
  have "\<exists>r. for_range 0 sz ?f arr = Some r \<and> ?P sz r"
  proof (rule for_range_rule [where I = ?P])
    fix i r assume i: "i < sz" and p: "?P i r"
    have lr: "length r = n * sz" using p by blast
    have pr: "r ! (j * sz + k) = (if j = a \<and> k < i then arr ! (b * sz + k)
        else if j = b \<and> k < i then arr ! (a * sz + k) else arr ! (j * sz + k))" if "j < n" "k < sz" for j k
      using p that by blast
    have A: "a * sz + i < n * sz" and B: "b * sz + i < n * sz"
      using elem_in_array [OF a, of sz] elem_in_array [OF b, of sz] i by linarith+
    let ?r = "r[a * sz + i := r ! (b * sz + i), b * sz + i := r ! (a * sz + i)]"
    have "?r ! (j * sz + k) =
       (if j = a \<and> k < Suc i then arr ! (b * sz + k) else if j = b \<and> k < Suc i then arr ! (a * sz + k)
        else arr ! (j * sz + k))" if jk: "j < n" "k < sz" for j k
      using ab lr A B block_inj [OF i jk(2), of a j] block_inj [OF i jk(2), of b j]
        pr [OF jk] pr [OF a i] pr [OF b i] pr [OF a jk(2)] pr [OF b jk(2)]
      by (cases "j = a"; cases "j = b"; cases "k = i") (simp_all add: nth_list_update less_Suc_eq)
    then have "?P (Suc i) ?r" using lr by simp
    moreover have "?f i r = Some ?r" using lr A B by (simp add: rd_def wr_def)
    ultimately show "\<exists>s'. ?f i r = Some s' \<and> ?P (Suc i) s'" by blast
  qed (use l in auto)
  then obtain r where r: "for_range 0 sz ?f arr = Some r" "?P sz r" by blast
  have "elem_list r n sz = xs[a := xs ! b, b := xs ! a]"
    using r(2) a b ab l
    by (intro elem_list_eqI) (auto simp: xs_def nth_list_update length_elem elem_list_nth)
  then show ?thesis using r by (auto simp: do_swap_def Let_def)
qed

section \<open>Heaps\<close>

text \<open>The contract of a comparison callback: a \<open>strcmp\<close>-type result of a total order up to equivalence.\<close>

definition cle :: "compare_func \<Rightarrow> u8 list \<Rightarrow> u8 list \<Rightarrow> bool" where
  "cle cmp x y \<longleftrightarrow> \<not> 0 < cmp x y"

definition compare_ok :: "compare_func \<Rightarrow> u8 list set \<Rightarrow> bool" where
  "compare_ok cmp E \<longleftrightarrow>
     (\<forall>x\<in>E. \<forall>y\<in>E. 0 < cmp x y \<longleftrightarrow> cmp y x < 0) \<and>
     (\<forall>x\<in>E. \<forall>y\<in>E. \<forall>z\<in>E. cle cmp x y \<longrightarrow> cle cmp y z \<longrightarrow> cle cmp x z)"

lemma compare_okD:
  assumes "compare_ok cmp E"
  shows "x \<in> E \<Longrightarrow> y \<in> E \<Longrightarrow> 0 < cmp x y \<longleftrightarrow> cmp y x < 0"
    "x \<in> E \<Longrightarrow> y \<in> E \<Longrightarrow> z \<in> E \<Longrightarrow> cle cmp x y \<Longrightarrow> cle cmp y z \<Longrightarrow> cle cmp x z"
    "x \<in> E \<Longrightarrow> y \<in> E \<Longrightarrow> \<not> cle cmp x y \<Longrightarrow> cle cmp y x"
proof -
  show s: "x \<in> E \<Longrightarrow> y \<in> E \<Longrightarrow> 0 < cmp x y \<longleftrightarrow> cmp y x < 0" for x y
    using assms unfolding compare_ok_def by blast
  show "x \<in> E \<Longrightarrow> y \<in> E \<Longrightarrow> z \<in> E \<Longrightarrow> cle cmp x y \<Longrightarrow> cle cmp y z \<Longrightarrow> cle cmp x z"
    using assms unfolding compare_ok_def by blast
  show "x \<in> E \<Longrightarrow> y \<in> E \<Longrightarrow> \<not> cle cmp x y \<Longrightarrow> cle cmp y x" using s [of x y] by (simp add: cle_def)
qed

text \<open>
  With 1-based indexes the parent of \<open>k\<close> is \<open>k div 2\<close>.  \<open>heap_from\<close>: no element is larger than its
  parent, for the parents from \<open>j\<close> on.  \<open>heap_but\<close>: the same except below \<open>p\<close>, whose children still
  are not larger than the parent of \<open>p\<close>.
\<close>

definition heap_from :: "compare_func \<Rightarrow> u8 list list \<Rightarrow> nat \<Rightarrow> nat \<Rightarrow> bool" where
  "heap_from cmp xs j cnt \<longleftrightarrow>
     (\<forall>k. 2 \<le> k \<and> k \<le> cnt \<and> j \<le> k div 2 \<longrightarrow> cle cmp (xs ! (k - 1)) (xs ! (k div 2 - 1)))"

definition heap_but :: "compare_func \<Rightarrow> u8 list list \<Rightarrow> nat \<Rightarrow> nat \<Rightarrow> nat \<Rightarrow> bool" where
  "heap_but cmp xs j cnt p \<longleftrightarrow>
     (\<forall>k. 2 \<le> k \<and> k \<le> cnt \<and> j \<le> k div 2 \<and> k div 2 \<noteq> p \<longrightarrow> cle cmp (xs ! (k - 1)) (xs ! (k div 2 - 1))) \<and>
     (\<forall>k. 2 \<le> k \<and> k \<le> cnt \<and> k div 2 = p \<and> j \<le> p div 2 \<longrightarrow> cle cmp (xs ! (k - 1)) (xs ! (p div 2 - 1)))"

lemma heapify_max_run:
  assumes l: "length arr = n * sz" and c: "cnt \<le> n" and i: "0 < i" "i \<le> n"
    and ok: "compare_ok cmp (set (elem_list arr n sz))"
  defines "xs \<equiv> elem_list arr n sz"
  shows "\<exists>mx. heapify_max arr i cnt sz cmp = Some mx \<and>
     (mx = i \<or> mx div 2 = i \<and> mx \<le> cnt \<and> \<not> cle cmp (xs ! (mx - 1)) (xs ! (i - 1))) \<and>
     (\<forall>k. 2 \<le> k \<and> k \<le> cnt \<and> k div 2 = i \<longrightarrow> cle cmp (xs ! (k - 1)) (xs ! (mx - 1)))"
proof -
  have cmp: "do_compare arr a b sz cmp = Some (cmp (xs ! (a - 1)) (xs ! (b - 1)))"
    if "0 < a" "a \<le> n" "0 < b" "b \<le> n" for a b
    using that by (simp add: do_compare_def elem_at_run [OF l] xs_def)
  have E: "xs ! (k - 1) \<in> set (elem_list arr n sz)" if "0 < k" "k \<le> n" for k
    using that by (simp add: xs_def)
  have kids: "k = 2 * i \<or> k = 2 * i + 1" if "k div 2 = i" for k using that by auto
  note tr = compare_okD(2) [OF ok] and tot = compare_okD(3) [OF ok]
  define m1 where "m1 = (if 2 * i \<le> cnt \<and> \<not> cle cmp (xs ! (2 * i - 1)) (xs ! (i - 1)) then 2 * i else i)"
  have 1: "(if 2 * i \<le> cnt then do { c \<leftarrow> do_compare arr (2 * i) i sz cmp; Some (if c > 0 then 2 * i else i) }
      else Some i) = Some m1"
    using i c by (simp add: m1_def cmp cle_def)
  have m1: "0 < m1" "m1 \<le> n" using i c by (auto simp: m1_def)
  define mx where "mx = (if 2 * i + 1 \<le> cnt \<and> \<not> cle cmp (xs ! (2 * i)) (xs ! (m1 - 1)) then 2 * i + 1 else m1)"
  have 2: "heapify_max arr i cnt sz cmp = Some mx"
    using m1 c 1 by (simp add: heapify_max_def Let_def mx_def cmp cle_def)
  have refl: "cle cmp x x" if "x \<in> set (elem_list arr n sz)" for x using tot [OF that that] by blast
  have Ei: "xs ! (i - 1) \<in> set (elem_list arr n sz)" and Em: "xs ! (m1 - 1) \<in> set (elem_list arr n sz)"
    using E i m1 by auto
  have 3: "cle cmp (xs ! (2 * i - 1)) (xs ! (m1 - 1))" if "2 * i \<le> cnt"
    using that refl E [of "2 * i"] i c by (auto simp: m1_def)
  have 4: "cle cmp (xs ! (i - 1)) (xs ! (m1 - 1))"
    using refl [OF Ei] tot [OF E Ei, of "2 * i"] i c by (auto simp: m1_def)
  have 5: "cle cmp (xs ! (k - 1)) (xs ! (mx - 1))" if "2 \<le> k" "k \<le> cnt" "k div 2 = i" for k
  proof (cases "mx = m1")
    case True
    have "m1 \<noteq> 2 * i + 1" using i by (simp add: m1_def)
    then have "cle cmp (xs ! (2 * i)) (xs ! (m1 - 1))" if "2 * i + 1 \<le> cnt"
      using that True by (metis mx_def)
    moreover have "cle cmp (xs ! (2 * i - 1)) (xs ! (m1 - 1))" if "2 * i \<le> cnt" using that by (rule 3)
    ultimately show ?thesis using kids [OF that(3)] that(2) True by fastforce
  next
    case False
    then have m: "mx = 2 * i + 1" "\<not> cle cmp (xs ! (2 * i)) (xs ! (m1 - 1))" "2 * i + 1 \<le> cnt"
      by (auto simp: mx_def split: if_splits)
    have Er: "xs ! (2 * i) \<in> set (elem_list arr n sz)" using E [of "2 * i + 1"] m(3) c by simp
    have "cle cmp (xs ! (m1 - 1)) (xs ! (2 * i))" using tot [OF Er Em m(2)] .
    then show ?thesis
      using kids [OF that(3)] m tr [OF E Em Er, of "2 * i"] 3 refl [OF Er] i c by auto
  qed
  have 6: "mx = i \<or> mx div 2 = i \<and> mx \<le> cnt \<and> \<not> cle cmp (xs ! (mx - 1)) (xs ! (i - 1))"
  proof (cases "mx = m1")
    case True
    then show ?thesis by (auto simp: m1_def)
  next
    case False
    then have m: "mx = 2 * i + 1" "\<not> cle cmp (xs ! (2 * i)) (xs ! (m1 - 1))" "2 * i + 1 \<le> cnt"
      by (auto simp: mx_def split: if_splits)
    have Er: "xs ! (2 * i) \<in> set (elem_list arr n sz)" using E [of "2 * i + 1"] m(3) c by simp
    then show ?thesis using m tr [OF Er Ei Em _ 4] by auto
  qed
  show ?thesis using 2 5 6 by blast
qed

lemma heap_but_swap:
  assumes h: "heap_but cmp xs j cnt p" and c: "cnt \<le> length xs" and p: "0 < p" "j \<le> p"
    and m: "m div 2 = p" "m \<le> cnt" "\<not> cle cmp (xs ! (m - 1)) (xs ! (p - 1))"
    and mx: "\<forall>k. 2 \<le> k \<and> k \<le> cnt \<and> k div 2 = p \<longrightarrow> cle cmp (xs ! (k - 1)) (xs ! (m - 1))"
    and ok: "compare_ok cmp (set xs)"
  defines "ys \<equiv> xs[p - 1 := xs ! (m - 1), m - 1 := xs ! (p - 1)]"
  shows "heap_but cmp ys j cnt m"
proof -
  have pm: "p < m" "2 \<le> m" using p m by auto
  have y: "ys ! (k - 1) = (if k = m then xs ! (p - 1) else if k = p then xs ! (m - 1) else xs ! (k - 1))"
    if "0 < k" "k \<le> cnt" for k
    using that pm p m c by (cases k; cases p; cases m) (auto simp: ys_def nth_list_update)
  have h1: "cle cmp (xs ! (k - 1)) (xs ! (k div 2 - 1))" if "2 \<le> k" "k \<le> cnt" "j \<le> k div 2" "k div 2 \<noteq> p" for k
    using h that unfolding heap_but_def by blast
  have h2: "cle cmp (xs ! (k - 1)) (xs ! (p div 2 - 1))" if "2 \<le> k" "k \<le> cnt" "k div 2 = p" "j \<le> p div 2" for k
    using h that unfolding heap_but_def by blast
  have lt: "cle cmp (xs ! (p - 1)) (xs ! (m - 1))"
    using compare_okD(3) [OF ok _ _ m(3)] c m(2) p pm by auto
  have "cle cmp (ys ! (k - 1)) (ys ! (k div 2 - 1))" if k: "2 \<le> k" "k \<le> cnt" "j \<le> k div 2" "k div 2 \<noteq> m" for k
  proof -
    have kd: "0 < k div 2" "k div 2 \<le> cnt" "k div 2 < k" using k by auto
    consider "k div 2 = p" "k = m" | "k div 2 = p" "k \<noteq> m" | "k div 2 \<noteq> p" "k = p" | "k div 2 \<noteq> p" "k \<noteq> p"
      by blast
    then show ?thesis
    proof cases
      case 1
      then show ?thesis using y [of k] y [of "k div 2"] k kd pm lt by simp
    next
      case 2
      then show ?thesis using y [of k] y [of "k div 2"] k kd pm mx by simp
    next
      case 3
      then show ?thesis using y [of k] y [of "k div 2"] k kd pm m h2 [of m] by simp
    next
      case 4
      then show ?thesis using y [of k] y [of "k div 2"] k kd pm m h1 [of k] by auto
    qed
  qed
  moreover have "cle cmp (ys ! (k - 1)) (ys ! (m div 2 - 1))" if k: "2 \<le> k" "k \<le> cnt" "k div 2 = m" for k
  proof -
    have "k \<noteq> m" "k \<noteq> p" "j \<le> k div 2" using k pm p by auto
    then show ?thesis using y [of k] y [of p] k pm p m h1 [of k] by simp
  qed
  ultimately show ?thesis unfolding heap_but_def by blast
qed

lemma heap_but_done:
  assumes "heap_but cmp xs j cnt p"
    and "\<forall>k. 2 \<le> k \<and> k \<le> cnt \<and> k div 2 = p \<longrightarrow> cle cmp (xs ! (k - 1)) (xs ! (p - 1))"
  shows "heap_from cmp xs j cnt"
  using assms unfolding heap_but_def heap_from_def by metis

lemma heap_from_but:
  assumes "heap_from cmp xs (Suc p) cnt"
  shows "heap_but cmp xs p cnt p"
proof -
  have "\<not> p \<le> p div 2" if "2 \<le> k" "k div 2 = p" for k using that by auto
  moreover have "Suc p \<le> k div 2" if "p \<le> k div 2" "k div 2 \<noteq> p" for k using that by linarith
  ultimately show ?thesis using assms unfolding heap_but_def heap_from_def by blast
qed

lemma heapify_run:
  "length arr = n * sz \<Longrightarrow> cnt \<le> n \<Longrightarrow> 0 < i \<Longrightarrow> i \<le> n \<Longrightarrow> j \<le> i \<Longrightarrow>
     compare_ok cmp (set (elem_list arr n sz)) \<Longrightarrow> heap_but cmp (elem_list arr n sz) j cnt i \<Longrightarrow>
     \<exists>arr'. heapify arr i cnt sz cmp = Some arr' \<and> length arr' = n * sz \<and>
       mset (elem_list arr' n sz) = mset (elem_list arr n sz) \<and>
       (i \<le> cnt \<longrightarrow> drop cnt (elem_list arr' n sz) = drop cnt (elem_list arr n sz)) \<and>
       heap_from cmp (elem_list arr' n sz) j cnt"
proof (induction arr i cnt sz cmp rule: heapify.induct)
  case (1 arr i cnt sz cmp)
  let ?xs = "elem_list arr n sz"
  obtain mx where mx: "heapify_max arr i cnt sz cmp = Some mx"
      "mx = i \<or> mx div 2 = i \<and> mx \<le> cnt \<and> \<not> cle cmp (?xs ! (mx - 1)) (?xs ! (i - 1))"
      "\<forall>k. 2 \<le> k \<and> k \<le> cnt \<and> k div 2 = i \<longrightarrow> cle cmp (?xs ! (k - 1)) (?xs ! (mx - 1))"
    using heapify_max_run [OF 1(2-5,7)] by blast
  show ?case
  proof (cases "mx = i")
    case True
    then show ?thesis
      using mx heap_but_done [OF 1(8)] 1(2) by (subst heapify.simps) simp
  next
    case False
    then have m: "mx div 2 = i" "mx \<le> cnt" "\<not> cle cmp (?xs ! (mx - 1)) (?xs ! (i - 1))" using mx(2) by auto
    have im: "0 < mx" "i < mx" using m(1) 1(4) by auto
    have "i - 1 < n" "mx - 1 < n" "i - 1 \<noteq> mx - 1" using 1(3-5) m(2) im by linarith+
    from do_swap_run [OF 1(2) this]
    obtain arr1 where a: "do_swap arr i mx sz = Some arr1" "length arr1 = n * sz"
        "elem_list arr1 n sz = ?xs[i - 1 := ?xs ! (mx - 1), mx - 1 := ?xs ! (i - 1)]"
      using 1(4) im(1) by auto
    have ms: "mset (elem_list arr1 n sz) = mset ?xs"
      unfolding a(3) by (rule nth_list_update_swap) (use 1(3-5) m(2) im in auto)
    have st: "set (elem_list arr1 n sz) = set ?xs" using ms by (metis set_mset_mset)
    have d: "drop cnt (elem_list arr1 n sz) = drop cnt ?xs"
      unfolding a(3) using im m(2) by simp
    have h: "heap_but cmp (elem_list arr1 n sz) j cnt mx"
      unfolding a(3) by (rule heap_but_swap [OF 1(8) _ 1(4,6) m mx(3) 1(7)]) (use 1(3) in simp)
    have "\<exists>arr'. heapify arr1 mx cnt sz cmp = Some arr' \<and> length arr' = n * sz \<and>
       mset (elem_list arr' n sz) = mset (elem_list arr1 n sz) \<and>
       (mx \<le> cnt \<longrightarrow> drop cnt (elem_list arr' n sz) = drop cnt (elem_list arr1 n sz)) \<and>
       heap_from cmp (elem_list arr' n sz) j cnt"
      using 1(1) [OF mx(1) False a(1,2) 1(3) im(1) _ _ _ h] m(2) 1(3,6,7) im st by auto
    then show ?thesis using mx(1) False a(1) ms d m(2) by (subst heapify.simps) auto
  qed
qed

section \<open>Heap sort\<close>

lemma build_heap_run:
  "length arr = n * sz \<Longrightarrow> i \<le> n \<Longrightarrow> compare_ok cmp (set (elem_list arr n sz)) \<Longrightarrow>
     heap_from cmp (elem_list arr n sz) (Suc i) n \<Longrightarrow>
     \<exists>arr'. build_heap arr i n sz cmp = Some arr' \<and> length arr' = n * sz \<and>
       mset (elem_list arr' n sz) = mset (elem_list arr n sz) \<and> heap_from cmp (elem_list arr' n sz) 1 n"
proof (induction i arbitrary: arr)
  case (Suc i)
  obtain a where a: "heapify arr (Suc i) n sz cmp = Some a" "length a = n * sz"
      "mset (elem_list a n sz) = mset (elem_list arr n sz)" "heap_from cmp (elem_list a n sz) (Suc i) n"
    using heapify_run [OF Suc.prems(1) le_refl _ Suc.prems(2) le_refl Suc.prems(3) heap_from_but [OF Suc.prems(4)]]
    by auto
  have "set (elem_list a n sz) = set (elem_list arr n sz)" using a(3) by (metis set_mset_mset)
  then show ?case using Suc.IH [OF a(2) _ _ a(4)] Suc.prems(2,3) a(1,3) by simp
qed simp

lemma heap_root:
  assumes h: "heap_from cmp xs 1 cnt" and c: "cnt \<le> length xs" and ok: "compare_ok cmp (set xs)"
  shows "0 < k \<Longrightarrow> k \<le> cnt \<Longrightarrow> cle cmp (xs ! (k - 1)) (xs ! 0)"
proof (induction k rule: less_induct)
  case (less k)
  have E: "xs ! (i - 1) \<in> set xs" if "0 < i" "i \<le> cnt" for i using that c by auto
  show ?case
  proof (cases "k = 1")
    case True
    then show ?thesis using compare_okD(3) [OF ok E E, of k k] less.prems by auto
  next
    case False
    then have k: "2 \<le> k" "0 < k div 2" "k div 2 < k" using less.prems by auto
    then have "cle cmp (xs ! (k - 1)) (xs ! (k div 2 - 1))" "cle cmp (xs ! (k div 2 - 1)) (xs ! 0)"
      using h less unfolding heap_from_def by auto
    then show ?thesis
      using compare_okD(2) [OF ok E E, of k "k div 2" "xs ! 0"] k less.prems E [of 1] by auto
  qed
qed

text \<open>The state of the second loop: a heap, then the elements that are in place.\<close>

definition sorting :: "compare_func \<Rightarrow> u8 list list \<Rightarrow> nat \<Rightarrow> bool" where
  "sorting cmp xs i \<longleftrightarrow> heap_from cmp xs 1 i \<and> sorted_wrt (cle cmp) (drop i xs) \<and>
     (\<forall>x\<in>set (take i xs). \<forall>y\<in>set (drop i xs). cle cmp x y)"

lemma same_take:
  "mset zs = mset ys \<Longrightarrow> drop i zs = drop i ys \<Longrightarrow> set (take i zs) = set (take i ys)"
  by (metis append_take_drop_id mset_append add_right_cancel set_mset_mset)

lemma sorting_step:
  assumes s: "sorting cmp xs (Suc i)" and i: "0 < i" "i < length xs" and ok: "compare_ok cmp (set xs)"
    and ys: "ys = xs[0 := xs ! i, i := xs ! 0]"
  shows "heap_but cmp ys 1 i 1"
    and "mset zs = mset ys \<Longrightarrow> drop i zs = drop i ys \<Longrightarrow> heap_from cmp zs 1 i \<Longrightarrow> sorting cmp zs i"
proof -
  have h: "heap_from cmp xs 1 (Suc i)" using s by (simp add: sorting_def)
  show "heap_but cmp ys 1 i 1"
  proof -
    have "ys ! (k - 1) = xs ! (k - 1)" if "2 \<le> k" "k \<le> i" for k
      using that i by (simp add: ys nth_list_update)
    moreover have "2 \<le> k div 2" "k div 2 \<le> i" if "1 \<le> k div 2" "k div 2 \<noteq> 1" "k \<le> i" for k
      using that by linarith+
    ultimately show ?thesis
      using h unfolding heap_but_def heap_from_def by simp
  qed
  assume z: "mset zs = mset ys" "drop i zs = drop i ys" "heap_from cmp zs 1 i"
  have dy: "drop i ys = xs ! 0 # drop (Suc i) xs"
    using i by (simp add: ys drop_update_swap Cons_nth_drop_Suc [symmetric] nth_list_update)
  have "set (take i ys) \<subseteq> set (take (Suc i) xs)"
  proof
    fix x assume "x \<in> set (take i ys)"
    then obtain k where "k < i" "x = ys ! k" using i by (auto simp: in_set_conv_nth ys)
    moreover have "0 < length xs" using i by linarith
    ultimately have "x = (if k = 0 then xs ! i else xs ! k)" using i by (simp add: ys nth_list_update)
    then show "x \<in> set (take (Suc i) xs)"
      using \<open>k < i\<close> i by (auto simp: in_set_conv_nth intro: exI [of _ k] exI [of _ i])
  qed
  then have tz: "set (take i zs) \<subseteq> set (take (Suc i) xs)" using same_take [OF z(1,2)] by simp
  have root: "cle cmp x (xs ! 0)" if "x \<in> set (take (Suc i) xs)" for x
  proof -
    obtain k where "k < Suc i" "x = xs ! k" using \<open>x \<in> set (take (Suc i) xs)\<close> i by (auto simp: in_set_conv_nth)
    then show ?thesis using heap_root [OF h _ ok, of "Suc k"] i by simp
  qed
  have "xs ! 0 \<in> set (take (Suc i) xs)" using i by (auto simp: in_set_conv_nth intro: exI [of _ 0])
  moreover have "cle cmp x y" if "x \<in> set (take (Suc i) xs)" "y \<in> set (drop (Suc i) xs)" for x y
    using s that by (simp add: sorting_def)
  moreover have "sorted_wrt (cle cmp) (drop (Suc i) xs)" using s by (simp add: sorting_def)
  ultimately show "sorting cmp zs i"
    unfolding sorting_def z(2) dy using z(3) root subsetD [OF tz] by auto
qed

lemma sort_heap_run:
  "length arr = n * sz \<Longrightarrow> i \<le> n \<Longrightarrow> compare_ok cmp (set (elem_list arr n sz)) \<Longrightarrow>
     sorting cmp (elem_list arr n sz) i \<Longrightarrow>
     \<exists>arr'. sort_heap arr i sz cmp = Some arr' \<and> length arr' = n * sz \<and>
       mset (elem_list arr' n sz) = mset (elem_list arr n sz) \<and> sorted_wrt (cle cmp) (elem_list arr' n sz)"
proof (induction i arbitrary: arr)
  case 0
  then show ?case by (simp add: sorting_def)
next
  case (Suc i)
  let ?xs = "elem_list arr n sz"
  show ?case
  proof (cases "i = 0")
    case True
    have "sorted_wrt (cle cmp) (take 1 ?xs @ drop 1 ?xs)"
      using Suc.prems(4) True unfolding sorted_wrt_append sorting_def by (cases ?xs) auto
    then show ?thesis using Suc.prems(1) True by simp
  next
    case False
    then have i: "0 < i" "i < n" using Suc.prems(2) by auto
    then obtain a where a: "do_swap arr 1 (Suc i) sz = Some a" "length a = n * sz"
        "elem_list a n sz = ?xs[0 := ?xs ! i, i := ?xs ! 0]"
      using do_swap_run [OF Suc.prems(1), of 0 i] by auto
    have ma: "mset (elem_list a n sz) = mset ?xs"
      unfolding a(3) using i by (intro nth_list_update_swap) auto
    then have sa: "set (elem_list a n sz) = set ?xs" by (metis set_mset_mset)
    note st = sorting_step [OF Suc.prems(4) i(1) _ Suc.prems(3) a(3)]
    obtain b where b: "heapify a 1 i sz cmp = Some b" "length b = n * sz"
        "mset (elem_list b n sz) = mset (elem_list a n sz)"
        "drop i (elem_list b n sz) = drop i (elem_list a n sz)" "heap_from cmp (elem_list b n sz) 1 i"
      using heapify_run [OF a(2), of i 1 1 cmp] st(1) sa Suc.prems(3) i by auto
    have "set (elem_list b n sz) = set ?xs" using b(3) sa by (metis set_mset_mset)
    moreover have "sorting cmp (elem_list b n sz) i" using st(2) b(3-5) i by simp
    ultimately show ?thesis
      using Suc.IH [OF b(2)] Suc.prems(2,3) a(1) b(1,3) ma False by simp
  qed
qed

lemma sort_run:
  assumes l: "length arr = n * sz" and sz: "0 < sz" and ok: "compare_ok cmp (set (elem_list arr n sz))"
  shows "\<exists>arr'. sort arr n sz cmp = Some arr' \<and> length arr' = n * sz \<and>
       mset (elem_list arr' n sz) = mset (elem_list arr n sz) \<and> sorted_wrt (cle cmp) (elem_list arr' n sz)"
proof -
  have "\<not> Suc (n div 2) \<le> k div 2" if "k \<le> n" for k using div_le_mono [OF that, of 2] by simp
  then have "heap_from cmp (elem_list arr n sz) (Suc (n div 2)) n" unfolding heap_from_def by blast
  then obtain a where a: "build_heap arr (n div 2) n sz cmp = Some a" "length a = n * sz"
      "mset (elem_list a n sz) = mset (elem_list arr n sz)" "heap_from cmp (elem_list a n sz) 1 n"
    using build_heap_run [OF l _ ok, of "n div 2"] by auto
  have "set (elem_list a n sz) = set (elem_list arr n sz)" using a(3) by (metis set_mset_mset)
  moreover have "sorting cmp (elem_list a n sz) n" using a(4) by (simp add: sorting_def)
  ultimately show ?thesis using sort_heap_run [OF a(2) le_refl] ok sz a(1,3) by (simp add: sort_def)
qed

section \<open>Binary search\<close>

lemma sorted_nth_cle:
  "sorted_wrt (cle cmp) xs \<Longrightarrow> compare_ok cmp E \<Longrightarrow> set xs \<subseteq> E \<Longrightarrow> i \<le> j \<Longrightarrow> j < length xs \<Longrightarrow>
     cle cmp (xs ! i) (xs ! j)"
  using compare_okD(3) [of cmp E "xs ! i" "xs ! i"] sorted_wrt_nth_less [of "cle cmp" xs i j]
  by (cases "i = j") (auto simp: subset_iff)

text \<open>An element that compares smaller, or larger, rules out everything beyond it.\<close>

lemma no_match:
  assumes s: "sorted_wrt (cle cmp) xs" and ok: "compare_ok cmp (insert key (set xs))" and m: "m < length xs"
    and j: "j < length xs" and c: "cmp key (xs ! m) < 0 \<and> m \<le> j \<or> 0 < cmp key (xs ! m) \<and> j \<le> m"
  shows "cmp key (xs ! j) \<noteq> 0"
proof
  assume z: "cmp key (xs ! j) = 0"
  have E: "xs ! m \<in> insert key (set xs)" "xs ! j \<in> insert key (set xs)" "key \<in> insert key (set xs)"
    using m j by auto
  have e: "cle cmp key (xs ! j)" "cle cmp (xs ! j) key"
    using z compare_okD(1) [OF ok E(2,3)] by (auto simp: cle_def)
  show False
    using c
  proof
    assume c: "cmp key (xs ! m) < 0 \<and> m \<le> j"
    then have "cle cmp (xs ! m) (xs ! j)" using sorted_nth_cle [OF s ok] j by auto
    then have "cle cmp (xs ! m) key" using compare_okD(2) [OF ok E _ e(2)] by simp
    then show False using c compare_okD(1) [OF ok E(1,3)] by (simp add: cle_def)
  next
    assume c: "0 < cmp key (xs ! m) \<and> j \<le> m"
    then have "cle cmp (xs ! j) (xs ! m)" using sorted_nth_cle [OF s ok] m by auto
    then have "cle cmp key (xs ! m)" using compare_okD(2) [OF ok E(3,2,1) e(1)] by simp
    then show False using c by (simp add: cle_def)
  qed
qed

lemma binary_search_loop_run:
  assumes l: "length arr = n * sz" and sz: "0 < sz" and s: "sorted_wrt (cle cmp) (elem_list arr n sz)"
    and ok: "compare_ok cmp (insert key (set (elem_list arr n sz)))"
  defines "xs \<equiv> elem_list arr n sz"
  shows "lo \<le> hi \<Longrightarrow> hi \<le> n \<Longrightarrow> \<exists>r. binary_search_loop key arr sz cmp (lo * sz) (hi * sz) = Some r \<and>
     (case r of None \<Rightarrow> \<forall>j. lo \<le> j \<and> j < hi \<longrightarrow> cmp key (xs ! j) \<noteq> 0
      | Some off \<Rightarrow> \<exists>j<n. off = j * sz \<and> cmp key (xs ! j) = 0)"
proof (induction "hi - lo" arbitrary: lo hi rule: less_induct)
  case less
  show ?case
  proof (cases "lo < hi")
    case False
    then show ?thesis using less.prems by (subst binary_search_loop.simps) simp
  next
    case True
    define m where "m = lo + (hi - lo) div 2"
    have m: "lo \<le> m" "m < hi" "m < n" using True less.prems by (auto simp: m_def)
    have mid: "lo * sz + (hi * sz - lo * sz) div sz div 2 * sz = m * sz"
      using sz by (simp add: m_def diff_mult_distrib [symmetric] add_mult_distrib)
    have x: "take sz (drop (m * sz) arr) = xs ! m" using m by (simp add: xs_def elem_list_def)
    have up: "binary_search_loop key arr sz cmp (lo * sz) (hi * sz) =
       (if cmp key (xs ! m) < 0 then binary_search_loop key arr sz cmp (lo * sz) (m * sz)
        else if cmp key (xs ! m) > 0 then binary_search_loop key arr sz cmp (Suc m * sz) (hi * sz)
        else Some (Some (m * sz)))"
      using True sz l elem_in_array [OF m(3), of sz]
      by (subst binary_search_loop.simps) (simp add: Let_def mid x add.commute)
    note out = no_match [OF s ok, folded xs_def, of m]
    have ln: "length xs = n" by (simp add: xs_def)
    consider "cmp key (xs ! m) < 0" | "cmp key (xs ! m) > 0" | "cmp key (xs ! m) = 0" by linarith
    then show ?thesis
    proof cases
      case 1
      then obtain r where r: "binary_search_loop key arr sz cmp (lo * sz) (m * sz) = Some r"
          "case r of None \<Rightarrow> \<forall>j. lo \<le> j \<and> j < m \<longrightarrow> cmp key (xs ! j) \<noteq> 0
           | Some off \<Rightarrow> \<exists>j<n. off = j * sz \<and> cmp key (xs ! j) = 0"
        using less.hyps [OF _ m(1)] m(2,3) less_imp_le [OF m(3)] diff_less_mono [OF m(2,1)] by blast
      have "cmp key (xs ! j) \<noteq> 0" if "m \<le> j" "j < n" for j using out 1 that m ln by auto
      then show ?thesis
        using r 1 up less.prems(2) by (cases r) (auto, metis not_le order.strict_trans2)
    next
      case 2
      have "hi - Suc m < hi - lo" "Suc m \<le> hi" using m by linarith+
      from less.hyps [OF this less.prems(2)]
      obtain r where r: "binary_search_loop key arr sz cmp (Suc m * sz) (hi * sz) = Some r"
          "case r of None \<Rightarrow> \<forall>j. Suc m \<le> j \<and> j < hi \<longrightarrow> cmp key (xs ! j) \<noteq> 0
           | Some off \<Rightarrow> \<exists>j<n. off = j * sz \<and> cmp key (xs ! j) = 0"
        by blast
      have "cmp key (xs ! j) \<noteq> 0" if "j \<le> m" for j using out 2 that m ln by auto
      then show ?thesis using r 2 up by (cases r) (auto, metis not_less_eq_eq)
    next
      case 3
      then show ?thesis using up m by auto
    qed
  qed
qed

section \<open>Decimal numbers\<close>

definition dval :: "u8 list \<Rightarrow> int" where
  "dval ds = foldl (\<lambda>v c. v * 10 + (uint c - 48)) 0 ds"

definition digit :: "u8 \<Rightarrow> bool" where
  "digit c \<longleftrightarrow> 48 \<le> uint c \<and> uint c \<le> 57"

lemma digit_sint: "isdigit (sint c) \<longleftrightarrow> digit c" "digit c \<Longrightarrow> sint c = uint c"
proof -
  have 1: "sint c = uint c" if "uint c < 128"
  proof -
    have "- 128 \<le> uint c" by (rule order_trans [OF _ uint_ge_0]) simp
    then show ?thesis using that by (simp add: sint_uint signed_take_bit_int_eq_self)
  qed
  have 2: "sint c < 0" if "\<not> uint c < 128"
  proof -
    have "uint c < 256" using uint_lt2p [of c] by simp
    then have "uint c div 128 = 1" using that by auto
    then have "bit (uint c) 7" by (simp add: bit_iff_odd)
    then have "bit c 7" by (simp add: bit_uint_iff)
    then show ?thesis using bit_last_iff [of c] by simp
  qed
  show "isdigit (sint c) \<longleftrightarrow> digit c" using 1 2 by (cases "uint c < 128") (auto simp: isdigit_def digit_def)
  show "digit c \<Longrightarrow> sint c = uint c" using 1 by (simp add: digit_def)
qed

lemma foldl_dval: "foldl (\<lambda>v c. v * 10 + (uint (c :: u8) - 48)) v ds = v * 10 ^ length ds + dval ds"
proof (induction ds arbitrary: v)
  case (Cons d ds)
  have "foldl (\<lambda>v c. v * 10 + (uint (c :: u8) - 48)) (v * 10 + (uint d - 48)) ds =
      (v * 10 + (uint d - 48)) * 10 ^ length ds + dval ds" by (rule Cons.IH)
  moreover have "dval (d # ds) = (0 * 10 + (uint d - 48)) * 10 ^ length ds + dval ds"
    unfolding dval_def [of "d # ds"] foldl_Cons by (rule Cons.IH)
  ultimately show ?case by (simp add: algebra_simps)
qed (simp add: dval_def)

lemma dval_Nil [simp]: "dval [] = 0"
  by (simp add: dval_def)

lemma dval_Cons: "dval (d # ds) = (uint d - 48) * 10 ^ length ds + dval ds"
  using foldl_dval [of "uint d - 48" ds] by (simp add: dval_def)

lemma dval_nonneg: "\<forall>d\<in>set ds. digit d \<Longrightarrow> 0 \<le> dval ds"
  by (induction ds) (auto simp: dval_Cons digit_def)

lemma atoi_digits_run:
  "\<forall>d\<in>set ds. digit d \<Longrightarrow> rest = [] \<or> \<not> digit (hd rest) \<Longrightarrow> cstr m a (ds @ rest) \<Longrightarrow> INT_MIN \<le> v \<Longrightarrow> v \<le> 0 \<Longrightarrow>
     atoi_digits m a v = int_val (v * 10 ^ length ds - dval ds)"
proof (induction ds arbitrary: a v)
  case Nil
  have "\<not> digit 0" by (simp add: digit_def)
  then show ?case
    using Nil by (subst atoi_digits.simps) (cases rest; auto simp: digit_sint int_val_def INT_MAX_def)
next
  case (Cons d ds)
  have d: "digit d" "m a = Some d" "cstr m (Suc a) (ds @ rest)" using Cons.prems by auto
  define w where "w = v * 10 - (uint d - 48)"
  have eq: "v * 10 ^ length (d # ds) - dval (d # ds) = w * 10 ^ length ds - dval ds"
    by (simp add: dval_Cons w_def algebra_simps)
  have d9: "0 \<le> uint d - 48" using d(1) by (simp add: digit_def)
  show ?case
  proof (cases "INT_MIN \<le> w")
    case True
    then have "int_val (v * 10) = Some (v * 10)" "int_val w = Some w"
      using Cons.prems(5) d9 by (auto simp: int_val_def INT_MAX_def w_def)
    then show ?thesis
      using Cons.IH [of "Suc a" w] Cons.prems True d d9 unfolding eq
      by (subst atoi_digits.simps) (simp add: digit_sint w_def)
  next
    case False
    have "w * 10 ^ length ds \<le> w * 1" using Cons.prems(5) d9 by (intro mult_left_mono_neg) (auto simp: w_def)
    then have "\<not> INT_MIN \<le> w * 10 ^ length ds - dval ds" using False dval_nonneg [of ds] Cons.prems(1) by simp
    then show ?thesis
      using False d unfolding eq
      by (subst atoi_digits.simps) (simp add: digit_sint int_val_def w_def)
  qed
qed

lemma atoi_skip_run:
  "\<forall>c\<in>set ws. isspace (uint c) \<Longrightarrow> m (a + length ws) = Some c \<Longrightarrow> \<not> isspace (uint c) \<Longrightarrow> holds m a ws \<Longrightarrow>
     atoi_skip m a = Some (a + length ws)"
proof (induction ws arbitrary: a)
  case Nil
  then show ?case by (subst atoi_skip.simps) simp
next
  case (Cons w ws)
  then show ?case by (subst atoi_skip.simps) simp
qed

section \<open>Properties\<close>

text \<open>
  C19.  With a comparison callback that orders the elements, \<open>qsort\<close> returns and leaves in the array
  the same elements in order, for any number of elements of any positive size.
\<close>

theorem qsort_correct:
  assumes "length arr = n * sz" "0 < sz" "compare_ok cmp (set (elem_list arr n sz))"
  shows "\<exists>arr'. qsort arr n sz cmp = Some arr' \<and> length arr' = length arr \<and>
     mset (elem_list arr' n sz) = mset (elem_list arr n sz) \<and>
     sorted_wrt (\<lambda>x y. \<not> 0 < cmp x y) (elem_list arr' n sz)"
  using sort_run [OF assms] assms(1) by (simp add: qsort_def cle_def [abs_def])

text \<open>Compares two-byte little-endian numbers.\<close>

definition cmp_u16 :: compare_func where
  "cmp_u16 x y = (uint (x ! 0) + 256 * uint (x ! 1)) - (uint (y ! 0) + 256 * uint (y ! 1))"

lemma cmp_u16_ok: "compare_ok cmp_u16 E"
  by (auto simp: compare_ok_def cle_def cmp_u16_def)

theorem qsort_correct_witness:
  "\<exists>arr'. qsort [5, 0, 1, 2, 1, 1] 3 2 cmp_u16 = Some arr' \<and> length arr' = 6 \<and>
     sorted_wrt (\<lambda>x y. \<not> 0 < cmp_u16 x y) (elem_list arr' 3 2)"
  using qsort_correct [of "[5, 0, 1, 2, 1, 1]" 3 2 cmp_u16] cmp_u16_ok by auto

text \<open>
  C20.  On a sorted array \<open>bsearch\<close> ends, and returns an element that compares equal to the key
  whenever there is one, and a null pointer otherwise.
\<close>

theorem bsearch_correct:
  assumes "length arr = n * sz" "0 < sz" "sorted_wrt (cle cmp) (elem_list arr n sz)"
    "compare_ok cmp (insert key (set (elem_list arr n sz)))"
  shows "\<exists>r. bsearch key arr n sz cmp = Some r \<and>
     (case r of None \<Rightarrow> \<forall>j<n. cmp key (elem_list arr n sz ! j) \<noteq> 0
      | Some off \<Rightarrow> \<exists>j<n. off = j * sz \<and> cmp key (elem_list arr n sz ! j) = 0)"
  using binary_search_loop_run [OF assms, of 0 n] by (simp add: bsearch_def binary_search_def mult.commute cong: option.case_cong)

theorem bsearch_correct_witness:
  "\<exists>off. bsearch [1, 1] [5, 0, 1, 1, 1, 2] 3 2 cmp_u16 = Some (Some off) \<and> (\<exists>j<3. off = j * 2)"
proof -
  have e: "elem_list [5, 0, 1, 1, 1, 2] 3 2 = [[5, 0], [1, 1], [1, 2]]"
    by (simp add: elem_list_def numeral_eq_Suc)
  have "sorted_wrt (cle cmp_u16) (elem_list [5, 0, 1, 1, 1, 2] 3 2)" unfolding e by (simp add: cle_def cmp_u16_def)
  from bsearch_correct [OF _ _ this cmp_u16_ok, of "[1, 1]"]
  obtain r where r: "bsearch [1, 1] [5, 0, 1, 1, 1, 2] 3 2 cmp_u16 = Some r"
      "case r of None \<Rightarrow> \<forall>j<3. cmp_u16 [1, 1] (elem_list [5, 0, 1, 1, 1, 2] 3 2 ! j) \<noteq> 0
       | Some off \<Rightarrow> \<exists>j<3. off = j * 2 \<and> cmp_u16 [1, 1] (elem_list [5, 0, 1, 1, 1, 2] 3 2 ! j) = 0"
    by auto
  moreover have "cmp_u16 [1, 1] (elem_list [5, 0, 1, 1, 1, 2] 3 2 ! 1) = 0" by (simp add: e cmp_u16_def)
  then have "r \<noteq> None" using r(2) by (cases r) (auto dest: spec [of _ 1])
  ultimately show ?thesis by (cases r) auto
qed

lemma atoi_run:
  assumes "cstr m a (ws @ sg @ ds @ rest)" "a \<noteq> NULL" "\<forall>c\<in>set ws. isspace (uint c)" "sg \<in> {[], [43], [45]}"
    "ds \<noteq> []" "\<forall>d\<in>set ds. digit d" "rest = [] \<or> \<not> digit (hd rest)"
  shows "atoi m a = int_val (if sg = [45] then - dval ds else dval ds)"
proof -
  let ?b = "a + length ws"
  have b: "holds m a ws" "cstr m ?b (sg @ ds @ rest)" using assms(1) by (auto simp: cstr_append)
  obtain c where c: "m ?b = Some c" "c = hd (sg @ ds)" using b(2) assms(4,5) by (cases ds) auto
  have "\<not> isspace (uint c)"
    using c(2) assms(4-6) by (cases ds) (auto simp: isspace_def digit_def)
  then have skip: "atoi_skip m a = Some ?b" using atoi_skip_run [OF assms(3) c(1) _ b(1)] by blast
  have d: "atoi_digits m (?b + length sg) 0 = int_val (- dval ds)"
    using atoi_digits_run [OF assms(6,7), of m "?b + length sg" 0] b(2) by (simp add: cstr_append INT_MIN_def)
  have nc: "c \<noteq> 43" "c \<noteq> 45" if "sg = []" using c(2) that assms(5,6) by (cases ds; auto simp: digit_def)+
  have pos: "0 \<le> dval ds" by (rule dval_nonneg [OF assms(6)])
  have "Option.bind (int_val (- dval ds)) (\<lambda>v. int_val (- v)) = int_val (dval ds)"
    using pos by (auto simp: int_val_def INT_MIN_def INT_MAX_def)
  moreover have "Option.bind (int_val (- dval ds)) Some = int_val (- dval ds)" by simp
  ultimately show ?thesis
    using assms(2,4) skip c d nc by (auto simp: atoi_def Let_def)
qed

text \<open>
  C21.  \<open>atoi\<close> converts every decimal number, with leading white space and a sign, that an \<open>int\<close> can
  hold, \<open>INT_MIN\<close> included, and overflows on exactly the others.
\<close>

theorem atoi_correct:
  assumes "cstr m a (ws @ sg @ ds @ rest)" "a \<noteq> NULL" "\<forall>c\<in>set ws. isspace (uint c)" "sg \<in> {[], [43], [45]}"
    "ds \<noteq> []" "\<forall>d\<in>set ds. digit d" "rest = [] \<or> \<not> digit (hd rest)"
  shows "atoi m a = int_val (if sg = [45] then - dval ds else dval ds)"
  using assms by (rule atoi_run)

theorem atoi_correct_witness:
  "atoi (mwrite Map.empty 8 [32, 45, 49, 50, 0]) 8 = Some (-12)"
  using atoi_correct [of "mwrite Map.empty 8 [32, 45, 49, 50, 0]" 8 "[32]" "[45]" "[49, 50]" "[]"]
  by (simp add: isspace_def digit_def dval_def int_val_def INT_MIN_def INT_MAX_def)

end
