(* ===== verification/Stdio.thy ===== *)
theory Stdio
  imports Stdlib
begin

text \<open>
  Formatted output, \<open>lib/stdio.c\<close>.  The routines are written over an arbitrary output function
  with its auxiliary data, as in C; an output step may fail.  A format string is the list of its
  characters up to the terminating null byte: reading at its end gives the null byte, and moving
  beyond it is undefined.  Variable arguments are a list of 32-bit and 64-bit words and strings
  (\<open>int\<close>, \<open>long\<close>, \<open>size_t\<close>, \<open>ptrdiff_t\<close> and pointers have 32 bits on the i386); fetching one of
  the wrong kind is undefined, and so is a signed overflow.
\<close>

section \<open>Conversions\<close>

datatype flag = MINUS | PLUS | SPACE | POUND | ZERO | GROUP

datatype int_type = CHAR_T | SHORT_T | INT_T | INTMAX | LONG | LONGLONG | PTRDIFFT | SIZET

record printf_conversion =
  flags :: "flag set"
  width :: int
  precision :: int
  conv_type :: int_type

record integer_base =
  base :: nat
  digits :: string
  x_char :: "char option"
  group :: nat

definition base_d :: integer_base where
  "base_d = \<lparr>base = 10, digits = ''0123456789'', x_char = None, group = 3\<rparr>"

definition base_o :: integer_base where
  "base_o = \<lparr>base = 8, digits = ''01234567'', x_char = None, group = 3\<rparr>"

definition base_x :: integer_base where
  "base_x = \<lparr>base = 16, digits = ''0123456789abcdef'', x_char = Some (CHR ''x''), group = 4\<rparr>"

definition base_X :: integer_base where
  "base_X = \<lparr>base = 16, digits = ''0123456789ABCDEF'', x_char = Some (CHR ''X''), group = 4\<rparr>"

datatype va = Arg32 u32 | Arg64 u64 | ArgStr "string option"

fun va32 :: "va list \<Rightarrow> (u32 \<times> va list) option" where
  "va32 (Arg32 w # args) = Some (w, args)"
| "va32 args = None"

fun va64 :: "va list \<Rightarrow> (u64 \<times> va list) option" where
  "va64 (Arg64 w # args) = Some (w, args)"
| "va64 args = None"

fun va_str :: "va list \<Rightarrow> (string option \<times> va list) option" where
  "va_str (ArgStr s # args) = Some (s, args)"
| "va_str args = None"

type_synonym 's sink = "char \<Rightarrow> 's \<Rightarrow> 's option"

text \<open>The current character of a format, and the increment of the pointer.\<close>

definition cur :: "string \<Rightarrow> char" where
  "cur format = (case format of [] \<Rightarrow> CHR 0x00 | c # r \<Rightarrow> c)"

definition adv :: "string \<Rightarrow> string option" where
  "adv format = (case format of [] \<Rightarrow> None | c # r \<Rightarrow> Some r)"

section \<open>Parsing a conversion\<close>

definition flag_of :: "char \<Rightarrow> flag option" where
  "flag_of c =
     (if c = CHR ''-'' then Some MINUS else if c = CHR ''+'' then Some PLUS
      else if c = CHR '' '' then Some SPACE else if c = CHR ''#'' then Some POUND
      else if c = CHR ''0'' then Some ZERO else if c = CHR 0x27 then Some GROUP else None)"

fun parse_flags :: "string \<Rightarrow> flag set \<Rightarrow> string \<times> flag set" where
  "parse_flags [] fl = ([], fl)"
| "parse_flags (c # r) fl = (case flag_of c of Some f \<Rightarrow> parse_flags r (insert f fl) | None \<Rightarrow> (c # r, fl))"

fun parse_number :: "string \<Rightarrow> int \<Rightarrow> (string \<times> int) option" where
  "parse_number [] v = Some ([], v)"
| "parse_number (c # r) v =
     (if isdigit (of_char c) then do {
        v \<leftarrow> int_val (v * 10);
        v \<leftarrow> int_val (v + of_char c);
        parse_number r (v - 48)
      } else Some (c # r, v))"

text \<open>A number, or the next argument for an asterisk.\<close>

definition parse_value :: "string \<Rightarrow> va list \<Rightarrow> (string \<times> int \<times> va list) option" where
  "parse_value format args =
     (if cur format = CHR ''*'' then do {
        format \<leftarrow> adv format;
        (w, args) \<leftarrow> va32 args;
        Some (format, sint w, args)
      } else do { (format, v) \<leftarrow> parse_number format 0; Some (format, v, args) })"

definition parse_precision :: "string \<Rightarrow> va list \<Rightarrow> (string \<times> int \<times> va list) option" where
  "parse_precision format args =
     (if cur format = CHR ''.'' then do {
        format \<leftarrow> adv format;
        (format, p, args) \<leftarrow> parse_value format args;
        Some (format, if p < 0 then -1 else p, args)
      } else Some (format, -1, args))"

definition parse_type :: "string \<Rightarrow> string \<times> int_type" where
  "parse_type format =
     (case format of
        [] \<Rightarrow> ([], INT_T)
      | c # r \<Rightarrow>
          if c = CHR ''h'' then if cur r = CHR ''h'' then (tl r, CHAR_T) else (r, SHORT_T)
          else if c = CHR ''j'' then (r, INTMAX)
          else if c = CHR ''l'' then if cur r = CHR ''l'' then (tl r, LONGLONG) else (r, LONG)
          else if c = CHR ''t'' then (r, PTRDIFFT)
          else if c = CHR ''z'' then (r, SIZET)
          else (format, INT_T))"

definition parse_conversion ::
    "string \<Rightarrow> va list \<Rightarrow> (string \<times> printf_conversion \<times> va list) option" where
  "parse_conversion format args = do {
     let (format, fl) = parse_flags format {};
     let fl = (if MINUS \<in> fl then fl - {ZERO} else fl);
     let fl = (if PLUS \<in> fl then fl - {SPACE} else fl);
     (format, w, args) \<leftarrow> parse_value format args;
     (w, fl) \<leftarrow> (if w < 0 then do { w \<leftarrow> int_val (- w); Some (w, insert MINUS fl) } else Some (w, fl));
     (format, p, args) \<leftarrow> parse_precision format args;
     let fl = (if p \<ge> 0 then fl - {ZERO} else fl);
     let (format, ty) = parse_type format;
     Some (format, \<lparr>flags = fl, width = w, precision = p, conv_type = ty\<rparr>, args)
   }"

section \<open>Formatting\<close>

fun output_dup :: "'s sink \<Rightarrow> char \<Rightarrow> nat \<Rightarrow> 's \<Rightarrow> 's option" where
  "output_dup out ch 0 s = Some s"
| "output_dup out ch (Suc cnt) s = do { s \<leftarrow> out ch s; output_dup out ch cnt s }"

fun output_list :: "'s sink \<Rightarrow> string \<Rightarrow> 's \<Rightarrow> 's option" where
  "output_list out [] s = Some s"
| "output_list out (c # cs) s = do { s \<leftarrow> out c s; output_list out cs s }"

text \<open>The buffer of \<open>format_integer\<close> has 64 bytes; it is filled from the left.\<close>

definition push_char :: "string \<Rightarrow> char \<Rightarrow> string option" where
  "push_char buf ch = (if length buf < 64 then Some (buf @ [ch]) else None)"

partial_function (option) digit_loop :: "integer_base \<Rightarrow> bool \<Rightarrow> nat \<Rightarrow> string \<Rightarrow> nat \<Rightarrow> string option" where
  "digit_loop b grp val buf digit_cnt =
     (if val > 0 then do {
        buf \<leftarrow> (if grp \<and> digit_cnt > 0 \<and> digit_cnt mod group b = 0 then push_char buf (CHR '','') else Some buf);
        d \<leftarrow> rd (digits b) (val mod base b);
        buf \<leftarrow> push_char buf d;
        digit_loop b grp (val div base b) buf (digit_cnt + 1)
      } else Some buf)"

function zero_loop :: "string \<Rightarrow> int \<Rightarrow> string" where
  "zero_loop buf prec =
     (if int (length buf) < prec \<and> length buf < 63 then zero_loop (buf @ [CHR ''0'']) prec else buf)"
  by pat_completeness auto
termination by (relation "measure (\<lambda>(buf, prec). 63 - length buf)") auto

declare zero_loop.simps [simp del]

definition sign_of :: "bool \<Rightarrow> bool \<Rightarrow> flag set \<Rightarrow> char option" where
  "sign_of is_signed negative fl =
     (if is_signed then
        if PLUS \<in> fl then Some (if negative then CHR ''-'' else CHR ''+'')
        else if SPACE \<in> fl then Some (if negative then CHR ''-'' else CHR '' '')
        else if negative then Some (CHR ''-'') else None
      else None)"

definition format_integer ::
    "nat \<Rightarrow> bool \<Rightarrow> bool \<Rightarrow> integer_base \<Rightarrow> printf_conversion \<Rightarrow> 's sink \<Rightarrow> 's \<Rightarrow> 's option" where
  "format_integer val is_signed negative b c out s = do {
     let sign = sign_of is_signed negative (flags c);
     let x = (if POUND \<in> flags c \<and> val \<noteq> 0 then x_char b else None);
     buf \<leftarrow> digit_loop b (GROUP \<in> flags c) val [] 0;
     let buf = zero_loop buf (if precision c < 0 then 1 else precision c);
     buf \<leftarrow> (if POUND \<in> flags c \<and> base b = 8 \<and> (buf = [] \<or> last buf \<noteq> CHR ''0'') then push_char buf (CHR ''0'')
            else Some buf);
     let pad_cnt = nat (width c - int (length buf) - (if x \<noteq> None then 2 else 0) - (if sign \<noteq> None then 1 else 0));
     s \<leftarrow> (if flags c \<inter> {MINUS, ZERO} = {} then output_dup out (CHR '' '') pad_cnt s else Some s);
     s \<leftarrow> (case sign of Some g \<Rightarrow> out g s | None \<Rightarrow> Some s);
     s \<leftarrow> (case x of Some x \<Rightarrow> do { s \<leftarrow> out (CHR ''0'') s; out x s } | None \<Rightarrow> Some s);
     s \<leftarrow> (if ZERO \<in> flags c then output_dup out (CHR ''0'') pad_cnt s else Some s);
     s \<leftarrow> output_list out (rev buf) s;
     if MINUS \<in> flags c then output_dup out (CHR '' '') pad_cnt s else Some s
   }"

definition format_string :: "string \<Rightarrow> nat \<Rightarrow> printf_conversion \<Rightarrow> 's sink \<Rightarrow> 's \<Rightarrow> 's option" where
  "format_string str len c out s = do {
     s \<leftarrow> (if width c > int len \<and> MINUS \<notin> flags c then output_dup out (CHR '' '') (nat (width c - int len)) s else Some s);
     s \<leftarrow> output_list out (take len str) s;
     if width c > int len \<and> MINUS \<in> flags c then output_dup out (CHR '' '') (nat (width c - int len)) s else Some s
   }"

text \<open>The arguments of the integer conversions, by type.\<close>

definition signed_arg :: "int_type \<Rightarrow> va list \<Rightarrow> (int \<times> va list) option" where
  "signed_arg ty args =
     (case ty of
        CHAR_T \<Rightarrow> do { (w, args) \<leftarrow> va32 args; Some (sint (ucast w :: 8 word), args) }
      | SHORT_T \<Rightarrow> do { (w, args) \<leftarrow> va32 args; Some (sint (ucast w :: 16 word), args) }
      | INT_T \<Rightarrow> do { (w, args) \<leftarrow> va32 args; Some (sint w, args) }
      | INTMAX \<Rightarrow> do { (w, args) \<leftarrow> va64 args; Some (sint w, args) }
      | LONG \<Rightarrow> do { (w, args) \<leftarrow> va32 args; Some (sint w, args) }
      | LONGLONG \<Rightarrow> do { (w, args) \<leftarrow> va64 args; Some (sint w, args) }
      | PTRDIFFT \<Rightarrow> do { (w, args) \<leftarrow> va32 args; Some (sint w, args) }
      | SIZET \<Rightarrow> do {
          (w, args) \<leftarrow> va32 args;
          Some (if uint w > (2 ^ 32 - 1) div 2 then uint w - (2 ^ 32 - 1) - 1 else uint w, args)
        })"

definition unsigned_arg :: "int_type \<Rightarrow> va list \<Rightarrow> (nat \<times> va list) option" where
  "unsigned_arg ty args =
     (case ty of
        CHAR_T \<Rightarrow> do { (w, args) \<leftarrow> va32 args; Some (unat (ucast w :: 8 word), args) }
      | SHORT_T \<Rightarrow> do { (w, args) \<leftarrow> va32 args; Some (unat (ucast w :: 16 word), args) }
      | INT_T \<Rightarrow> do { (w, args) \<leftarrow> va32 args; Some (unat w, args) }
      | INTMAX \<Rightarrow> do { (w, args) \<leftarrow> va64 args; Some (unat w, args) }
      | LONG \<Rightarrow> do { (w, args) \<leftarrow> va32 args; Some (unat w, args) }
      | LONGLONG \<Rightarrow> do { (w, args) \<leftarrow> va64 args; Some (unat w, args) }
      | PTRDIFFT \<Rightarrow> do { (w, args) \<leftarrow> va32 args; Some (unat ((scast w :: u64) AND 0xFFFFFFFF), args) }
      | SIZET \<Rightarrow> do { (w, args) \<leftarrow> va32 args; Some (unat w, args) })"

definition unsigned_base :: "char \<Rightarrow> integer_base" where
  "unsigned_base ch =
     (if ch = CHR ''o'' then base_o else if ch = CHR ''u'' then base_d else if ch = CHR ''x'' then base_x else base_X)"

text \<open>
  The conversions that write something for their arguments; \<open>None\<close> in the first component of the result
  stands for an unsupported conversion.  The negation of the smallest 64-bit number overflows.
\<close>

definition convert :: "char \<Rightarrow> printf_conversion \<Rightarrow> va list \<Rightarrow> 's sink \<Rightarrow> 's \<Rightarrow> ('s \<times> va list) option option" where
  "convert ch c args out s =
     (if ch \<in> {CHR ''d'', CHR ''i''} then Some (do {
        (v, args) \<leftarrow> signed_arg (conv_type c) args;
        ASSERT (v \<noteq> - (2 ^ 63));
        s \<leftarrow> format_integer (nat (if v < 0 then - v else v)) True (v < 0) base_d c out s;
        Some (s, args)
      })
      else if ch \<in> {CHR ''o'', CHR ''u'', CHR ''x'', CHR ''X''} then Some (do {
        (v, args) \<leftarrow> unsigned_arg (conv_type c) args;
        s \<leftarrow> format_integer v False False (unsigned_base ch) c out s;
        Some (s, args)
      })
      else if ch = CHR ''c'' then Some (do {
        (w, args) \<leftarrow> va32 args;
        s \<leftarrow> format_string [char_of (unat w)] 1 c out s;
        Some (s, args)
      })
      else if ch = CHR ''s'' then Some (do {
        (str, args) \<leftarrow> va_str args;
        let str = (case str of None \<Rightarrow> ''(null)'' | Some str \<Rightarrow> str);
        s \<leftarrow> format_string str (if precision c = -1 then length str else min (length str) (nat (precision c))) c out s;
        Some (s, args)
      })
      else if ch = CHR ''p'' then Some (do {
        (p, args) \<leftarrow> va32 args;
        s \<leftarrow> format_integer (unat p) False False base_x (c\<lparr>flags := {POUND}\<rparr>) out s;
        Some (s, args)
      })
      else None)"

text \<open>\<open>__vprintf\<close>; an unsupported conversion calls \<open>__printf\<close> with its own format.\<close>

definition unsupported_format :: "char \<Rightarrow> string" where
  "unsupported_format ch =
     (if ch \<in> set ''feEgGn'' then ''<<no %%%c in kernel>>'' else ''<<no %%%c conversion>>'')"

partial_function (option) vprintf :: "'s sink \<Rightarrow> string \<Rightarrow> va list \<Rightarrow> 's \<Rightarrow> 's option" where
  "vprintf out format args s =
     (if format = [] then Some s
      else if cur format \<noteq> CHR ''%'' then do { s \<leftarrow> out (cur format) s; vprintf out (tl format) args s }
      else if cur (tl format) = CHR ''%'' then do { s \<leftarrow> out (CHR ''%'') s; vprintf out (tl (tl format)) args s }
      else do {
        (format, c, args) \<leftarrow> parse_conversion (tl format) args;
        (s, args) \<leftarrow> (case convert (cur format) c args out s of
            Some r \<Rightarrow> r
          | None \<Rightarrow> do {
              s \<leftarrow> vprintf out (unsupported_format (cur format)) [Arg32 (of_char (cur format))] s;
              Some (s, args)
            });
        format \<leftarrow> adv format;
        vprintf out format args s
      })"

declare digit_loop.simps [code] vprintf.simps [code]

section \<open>Output to a buffer\<close>

record vsnprintf_aux =
  aux_mem :: mem
  aux_p :: nat
  aux_length :: int
  max_length :: int

definition vsnprintf_helper :: "char \<Rightarrow> vsnprintf_aux \<Rightarrow> vsnprintf_aux option" where
  "vsnprintf_helper ch aux = do {
     n \<leftarrow> int_val (aux_length aux + 1);
     if aux_length aux < max_length aux then do {
       m \<leftarrow> stb (aux_mem aux) (aux_p aux) (of_char ch);
       Some (aux\<lparr>aux_length := n, aux_mem := m, aux_p := aux_p aux + 1\<rparr>)
     } else Some (aux\<lparr>aux_length := n\<rparr>)
   }"

definition vsnprintf :: "mem \<Rightarrow> nat \<Rightarrow> u32 \<Rightarrow> string \<Rightarrow> va list \<Rightarrow> (int \<times> mem) option" where
  "vsnprintf m buffer buf_size format args = do {
     aux \<leftarrow> vprintf vsnprintf_helper format args
       \<lparr>aux_mem = m, aux_p = buffer, aux_length = 0, max_length = (if buf_size > 0 then sint (buf_size - 1) else 0)\<rparr>;
     m \<leftarrow> (if buf_size > 0 then stb (aux_mem aux) (aux_p aux) 0 else Some (aux_mem aux));
     Some (aux_length aux, m)
   }"

definition snprintf :: "mem \<Rightarrow> nat \<Rightarrow> u32 \<Rightarrow> string \<Rightarrow> va list \<Rightarrow> (int \<times> mem) option" where
  "snprintf m buffer buf_size format args = vsnprintf m buffer buf_size format args"

section \<open>Dumps and sizes\<close>

text \<open>
  \<open>printf\<close> to the console, as a function of the output of one character.  A line of
  \<open>hex_dump\<close> covers the bytes from \<open>start\<close> to \<open>end\<close> of 16 positions.
\<close>

definition repeat_printf :: "'s sink \<Rightarrow> string \<Rightarrow> nat \<Rightarrow> 's \<Rightarrow> 's option" where
  "repeat_printf out format n s = for_range 0 n (\<lambda>i s. vprintf out format [] s) s"

definition hex_line :: "'s sink \<Rightarrow> nat \<Rightarrow> u8 list \<Rightarrow> nat \<Rightarrow> nat \<Rightarrow> bool \<Rightarrow> 's \<Rightarrow> 's option" where
  "hex_line out ofs buf start en ascii s = do {
     s \<leftarrow> vprintf out ''%08jx  '' [Arg64 (of_nat (ROUND_DOWN ofs 16))] s;
     s \<leftarrow> repeat_printf out ''   '' start s;
     s \<leftarrow> for_range start en (\<lambda>i s. do {
         b \<leftarrow> rd buf (i - start);
         vprintf out ''%02hhx%c'' [Arg32 (ucast b), Arg32 (of_char (if i = 16 div 2 - 1 then CHR ''-'' else CHR '' ''))] s
       }) s;
     s \<leftarrow> (if ascii then do {
         s \<leftarrow> repeat_printf out ''   '' (16 - en) s;
         s \<leftarrow> vprintf out ''|'' [] s;
         s \<leftarrow> repeat_printf out '' '' start s;
         s \<leftarrow> for_range start en (\<lambda>i s. do {
             b \<leftarrow> rd buf (i - start);
             vprintf out ''%c'' [Arg32 (if isprint (uint b) then ucast b else of_char (CHR ''.''))] s
           }) s;
         s \<leftarrow> repeat_printf out '' '' (16 - en) s;
         vprintf out ''|'' [] s
       } else Some s);
     vprintf out [CHR 0x0A] [] s
   }"

function hex_dump :: "'s sink \<Rightarrow> nat \<Rightarrow> u8 list \<Rightarrow> nat \<Rightarrow> bool \<Rightarrow> 's \<Rightarrow> 's option" where
  "hex_dump out ofs buf sz ascii s =
     (if sz > 0 then
        let start = ofs mod 16; en = (if 16 - start > sz then start + sz else 16); n = en - start in
        case hex_line out ofs buf start en ascii s of
          None \<Rightarrow> None
        | Some s \<Rightarrow> hex_dump out ((ofs + n) mod 2 ^ 32) (drop n buf) (sz - n) ascii s
      else Some s)"
  by pat_completeness auto
termination
  by (relation "measure (\<lambda>(out, ofs, buf, sz, ascii, s). sz)") (auto simp: not_less)

declare hex_dump.simps [simp del]

fun human_loop :: "nat \<Rightarrow> string list \<Rightarrow> nat \<times> string" where
  "human_loop sz (f # g # fs) = (if sz \<ge> 1024 then human_loop (sz div 1024) (g # fs) else (sz, f))"
| "human_loop sz fs = (sz, hd fs)"

definition print_human_readable_size :: "'s sink \<Rightarrow> u64 \<Rightarrow> 's \<Rightarrow> 's option" where
  "print_human_readable_size out sz s =
     (if sz = 1 then vprintf out ''1 byte'' [] s
      else let (sz, f) = human_loop (unat sz) [''bytes'', ''kB'', ''MB'', ''GB'', ''TB''] in
        vprintf out ''%llu %s'' [Arg64 (of_nat sz), ArgStr (Some f)] s)"

section \<open>The text of a conversion\<close>

lemma output_dup_list: "output_dup out ch n s = output_list out (replicate n ch) s"
  by (induction n arbitrary: s) (auto cong: Option.bind_cong)

lemma output_list_append: "output_list out (u @ v) s = do { s \<leftarrow> output_list out u s; output_list out v s }"
  by (induction u arbitrary: s) (auto simp: bind_assoc cong: Option.bind_cong)

lemma output_pieces:
  "(if P then output_list out u s else Some s) = output_list out (if P then u else []) s"
  "(case g of None \<Rightarrow> Some s | Some c \<Rightarrow> out c s) = output_list out (case g of None \<Rightarrow> [] | Some c \<Rightarrow> [c]) s"
  "(case g of None \<Rightarrow> Some s | Some c \<Rightarrow> do { s \<leftarrow> out d s; out c s }) =
     output_list out (case g of None \<Rightarrow> [] | Some c \<Rightarrow> [d, c]) s"
  by (auto split: option.split cong: Option.bind_cong)

text \<open>
  The digits of a number, least significant first, and their characters with a comma before every
  full group but the first.
\<close>

function num_digits :: "nat \<Rightarrow> nat \<Rightarrow> nat list" where
  "num_digits b v = (if v = 0 \<or> b < 2 then [] else v mod b # num_digits b (v div b))"
  by pat_completeness auto
termination by (relation "measure snd") auto

declare num_digits.simps [simp del]

definition grouped :: "integer_base \<Rightarrow> bool \<Rightarrow> nat \<Rightarrow> nat list \<Rightarrow> string" where
  "grouped b grp k ds = concat (map (\<lambda>(i, d). (if grp \<and> 0 < i \<and> i mod group b = 0 then '','' else []) @ [digits b ! d]) (enumerate k ds))"

lemma num_digits_0 [simp]: "num_digits b 0 = []"
  by (simp add: num_digits.simps)

lemma num_digits_length: "v < b ^ n \<Longrightarrow> length (num_digits b v) \<le> n"
proof (induction n arbitrary: v)
  case (Suc n)
  then have "v div b < b ^ n" by (metis less_mult_imp_div_less mult.commute power_Suc)
  then show ?case using Suc.IH by (subst num_digits.simps) auto
qed (simp add: num_digits.simps)

lemma grouped_Nil [simp]: "grouped b grp k [] = []"
  by (simp add: grouped_def)

lemma grouped_Cons: "grouped b grp k (d # ds) =
    (if grp \<and> 0 < k \<and> k mod group b = 0 then '','' else []) @ digits b ! d # grouped b grp (Suc k) ds"
  by (simp add: grouped_def)

lemma grouped_length: "length (grouped b grp k ds) \<le> 2 * length ds"
proof (induction ds arbitrary: k)
  case (Cons d ds)
  show ?case using Cons.IH [of "Suc k"] by (auto simp: grouped_Cons le_SucI)
qed simp

lemma grouped_plain: "grouped b False k ds = map ((!) (digits b)) ds"
  by (induction ds arbitrary: k) (simp_all add: grouped_Cons)

definition base_ok :: "integer_base \<Rightarrow> bool" where
  "base_ok b \<longleftrightarrow> 8 \<le> base b \<and> length (digits b) = base b"

lemma bases_ok [simp]: "base_ok base_d" "base_ok base_o" "base_ok base_x" "base_ok base_X"
  by (simp_all add: base_ok_def base_d_def base_o_def base_x_def base_X_def)

lemma digit_loop_run:
  assumes "base_ok b" "length buf + length (grouped b grp k (num_digits (base b) val)) \<le> 64"
  shows "digit_loop b grp val buf k = Some (buf @ grouped b grp k (num_digits (base b) val))"
  using assms(2)
proof (induction val arbitrary: buf k rule: less_induct)
  case (less val)
  show ?case
  proof (cases "val = 0")
    case True
    then show ?thesis by (subst digit_loop.simps) simp
  next
    case False
    have b: "2 \<le> base b" "val mod base b < length (digits b)" using assms(1) by (auto simp: base_ok_def)
    have n: "num_digits (base b) val = val mod base b # num_digits (base b) (val div base b)"
      using False b(1) by (subst num_digits.simps) simp
    have "val div base b < val" using False b(1) by simp
    note h = less.IH [OF this]
    show ?thesis
    proof (cases "grp \<and> 0 < k \<and> k mod group b = 0")
      case True
      then show ?thesis using less.prems False b(2) h [of "buf @ [CHR '','', digits b ! (val mod base b)]" "Suc k"]
        unfolding n grouped_Cons by (subst digit_loop.simps) (simp add: push_char_def)
    next
      case plain: False
      then show ?thesis using less.prems False b(2) h [of "buf @ [digits b ! (val mod base b)]" "Suc k"]
        unfolding n grouped_Cons by (subst digit_loop.simps) (auto simp: push_char_def)
    qed
  qed
qed

lemma zero_loop_run: "zero_loop buf p = buf @ replicate (min (nat p) 63 - length buf) (CHR ''0'')"
proof (induction buf p rule: zero_loop.induct)
  case (1 buf p)
  show ?case
  proof (cases "int (length buf) < p \<and> length buf < 63")
    case True
    then have "min (nat p) 63 - length buf = Suc (min (nat p) 63 - length (buf @ ''0''))" by auto
    then show ?thesis using 1 True by (subst zero_loop.simps) simp
  next
    case False
    then have "min (nat p) 63 - length buf = 0" by auto
    then show ?thesis using False by (subst zero_loop.simps) auto
  qed
qed

definition integer_body :: "nat \<Rightarrow> integer_base \<Rightarrow> printf_conversion \<Rightarrow> string" where
  "integer_body val b c =
     (let ds = grouped b (GROUP \<in> flags c) 0 (num_digits (base b) val);
          ds = ds @ replicate (min (if precision c < 0 then 1 else nat (precision c)) 63 - length ds) (CHR ''0'')
      in (if POUND \<in> flags c \<and> base b = 8 \<and> (ds = [] \<or> last ds \<noteq> CHR ''0'') then ''0'' else []) @ rev ds)"

definition integer_text :: "nat \<Rightarrow> bool \<Rightarrow> bool \<Rightarrow> integer_base \<Rightarrow> printf_conversion \<Rightarrow> string" where
  "integer_text val is_signed negative b c =
     (let sign = (case sign_of is_signed negative (flags c) of None \<Rightarrow> [] | Some g \<Rightarrow> [g]);
          x = (if POUND \<in> flags c \<and> val \<noteq> 0 then case x_char b of None \<Rightarrow> [] | Some x \<Rightarrow> [CHR ''0'', x] else []);
          body = integer_body val b c;
          pad = nat (width c - int (length body) - int (length x) - int (length sign))
      in (if flags c \<inter> {MINUS, ZERO} = {} then replicate pad (CHR '' '') else []) @ sign @ x @
         (if ZERO \<in> flags c then replicate pad (CHR ''0'') else []) @ body @
         (if MINUS \<in> flags c then replicate pad (CHR '' '') else []))"

lemma integer_buffer:
  assumes "base_ok b" "val < 2 ^ 64"
  shows "do { buf \<leftarrow> digit_loop b (GROUP \<in> flags c) val [] 0;
    let buf = zero_loop buf (if precision c < 0 then 1 else precision c);
    if POUND \<in> flags c \<and> base b = 8 \<and> (buf = [] \<or> last buf \<noteq> CHR ''0'') then push_char buf (CHR ''0'') else Some buf }
   = Some (rev (integer_body val b c))"
proof -
  let ?g = "grouped b (GROUP \<in> flags c) 0 (num_digits (base b) val)"
  have "(2 :: nat) ^ 64 \<le> 8 ^ 22" by simp
  also have "\<dots> \<le> base b ^ 22" using assms(1) by (intro power_mono) (auto simp: base_ok_def)
  finally have "val < base b ^ 22" using assms(2) by linarith
  then have l: "length ?g \<le> 44"
    using num_digits_length [of val "base b" 22] grouped_length [of b "GROUP \<in> flags c" 0 "num_digits (base b) val"] by linarith
  then have d: "digit_loop b (GROUP \<in> flags c) val [] 0 = Some ?g" using digit_loop_run [OF assms(1), of "[]"] by simp
  have p: "nat (if precision c < 0 then 1 else precision c) = (if precision c < 0 then 1 else nat (precision c))" by simp
  define ds where "ds = ?g @ replicate (min (if precision c < 0 then 1 else nat (precision c)) 63 - length ?g) (CHR ''0'')"
  have "length ds < 64" using l by (simp add: ds_def)
  moreover have "integer_body val b c =
      (if POUND \<in> flags c \<and> base b = 8 \<and> (ds = [] \<or> last ds \<noteq> CHR ''0'') then ''0'' else []) @ rev ds"
    unfolding integer_body_def Let_def ds_def ..
  ultimately show ?thesis unfolding d Option.bind.simps zero_loop_run p ds_def [symmetric] Let_def
    by (simp add: push_char_def)
qed

lemma format_integer_run:
  assumes "base_ok b" "val < 2 ^ 64"
  shows "format_integer val is_signed negative b c out s = output_list out (integer_text val is_signed negative b c) s"
proof -
  have b: "Option.bind (digit_loop b (GROUP \<in> flags c) val [] 0) (\<lambda>buf.
      Option.bind (if POUND \<in> flags c \<and> base b = 8 \<and>
          (zero_loop buf (if precision c < 0 then 1 else precision c) = [] \<or>
           last (zero_loop buf (if precision c < 0 then 1 else precision c)) \<noteq> CHR ''0'')
        then push_char (zero_loop buf (if precision c < 0 then 1 else precision c)) (CHR ''0'')
        else Some (zero_loop buf (if precision c < 0 then 1 else precision c))) f) = f (rev (integer_body val b c))" for f
    using arg_cong [OF integer_buffer [OF assms, of c], of "\<lambda>r. Option.bind r f"] by (simp add: Let_def bind_assoc)
  let ?x = "if POUND \<in> flags c \<and> val \<noteq> 0 then x_char b else None" and ?g = "sign_of is_signed negative (flags c)"
  have x: "(if POUND \<in> flags c \<and> val \<noteq> 0 then case x_char b of None \<Rightarrow> [] | Some x \<Rightarrow> [CHR ''0'', x] else []) =
      (case ?x of None \<Rightarrow> [] | Some x \<Rightarrow> [CHR ''0'', x])" by simp
  have l: "(if ?x \<noteq> None then 2 else 0) = int (length (case ?x of None \<Rightarrow> [] | Some x \<Rightarrow> [CHR ''0'', x]))"
      "(if ?g \<noteq> None then 1 else 0) = int (length (case ?g of None \<Rightarrow> [] | Some g \<Rightarrow> [g]))"
    by (auto split: option.split)
  show ?thesis
    unfolding format_integer_def Let_def b integer_text_def x l output_dup_list output_pieces
    by (simp only: output_list_append length_rev rev_rev_ident)
qed

definition string_text :: "string \<Rightarrow> nat \<Rightarrow> printf_conversion \<Rightarrow> string" where
  "string_text str len c =
     (let pad = replicate (nat (width c - int len)) (CHR '' '') in
      (if MINUS \<notin> flags c then pad else []) @ take len str @ (if MINUS \<in> flags c then pad else []))"

lemma format_string_run: "format_string str len c out s = output_list out (string_text str len c) s"
proof -
  have "(if width c > int len \<and> P then replicate (nat (width c - int len)) (CHR '' '') else []) =
      (if P then replicate (nat (width c - int len)) (CHR '' '') else [])" for P by auto
  then show ?thesis
    unfolding format_string_def string_text_def Let_def output_dup_list output_pieces by (simp only: output_list_append)
qed

definition convert_text :: "char \<Rightarrow> printf_conversion \<Rightarrow> va list \<Rightarrow> (string \<times> va list) option" where
  "convert_text ch c args =
     (if ch \<in> {CHR ''d'', CHR ''i''} then do {
        (v, args) \<leftarrow> signed_arg (conv_type c) args;
        ASSERT (v \<noteq> - (2 ^ 63));
        Some (integer_text (nat (abs v)) True (v < 0) base_d c, args)
      }
      else if ch \<in> {CHR ''o'', CHR ''u'', CHR ''x'', CHR ''X''} then do {
        (v, args) \<leftarrow> unsigned_arg (conv_type c) args;
        Some (integer_text v False False (unsigned_base ch) c, args)
      }
      else if ch = CHR ''c'' then do {
        (w, args) \<leftarrow> va32 args;
        Some (string_text [char_of (unat w)] 1 c, args)
      }
      else if ch = CHR ''s'' then do {
        (str, args) \<leftarrow> va_str args;
        let str = (case str of None \<Rightarrow> ''(null)'' | Some str \<Rightarrow> str);
        Some (string_text str (if precision c = -1 then length str else min (length str) (nat (precision c))) c, args)
      }
      else if ch = CHR ''p'' then do {
        (p, args) \<leftarrow> va32 args;
        Some (integer_text (unat p) False False base_x (c\<lparr>flags := {POUND}\<rparr>), args)
      }
      else Some (''<<no %'' @ ch # (if ch \<in> set ''feEgGn'' then '' in kernel>>'' else '' conversion>>''), args))"

lemma signed_arg_bound: "signed_arg ty args = Some (v, args') \<Longrightarrow> v \<noteq> - (2 ^ 63) \<Longrightarrow> nat (abs v) < 2 ^ 64"
proof -
  have s: "abs (sint (w :: 'l :: len word)) \<le> 2 ^ (LENGTH('l) - 1)" for w
    using sint_ge [of w] sint_lt [of w] by (simp add: abs_le_iff)
  assume a: "signed_arg ty args = Some (v, args')" "v \<noteq> - (2 ^ 63)"
  have "abs v \<le> 2 ^ 63"
  proof (cases ty)
    case SIZET
    then obtain w where "v = (if uint w > (2 ^ 32 - 1) div 2 then uint w - (2 ^ 32 - 1) - 1 else uint (w :: u32))"
      using a(1) by (auto simp: signed_arg_def bind_eq_Some_conv)
    then show ?thesis using uint_lt2p [of w] by auto
  qed (use a(1) in \<open>auto simp: signed_arg_def bind_eq_Some_conv intro!: order_trans [OF s]\<close>)
  then show "nat (abs v) < 2 ^ 64" by (simp add: nat_less_iff)
qed

lemma unsigned_arg_bound: "unsigned_arg ty args = Some (v, args') \<Longrightarrow> v < 2 ^ 64"
proof -
  have u: "unat (w :: 'l :: len word) < 2 ^ 64" if "LENGTH('l) \<le> 64" for w
    using unsigned_less [of w, where ?'a = nat] power_increasing [OF that, of "2 :: nat"] by (meson less_le_trans one_le_numeral)
  show "unsigned_arg ty args = Some (v, args') \<Longrightarrow> v < 2 ^ 64"
    by (cases ty) (auto simp: unsigned_arg_def bind_eq_Some_conv intro: u [simplified])
qed

lemma convert_run:
  "convert ch c args out s = None \<Longrightarrow>
     convert_text ch c args = Some (''<<no %'' @ ch # (if ch \<in> set ''feEgGn'' then '' in kernel>>'' else '' conversion>>''), args)"
  "convert ch c args out s = Some r \<Longrightarrow>
     r = do { (t, args) \<leftarrow> convert_text ch c args; s \<leftarrow> output_list out t s; Some (s, args) }"
proof -
  have i: "do { (v, args) \<leftarrow> signed_arg (conv_type c) args; ASSERT (v \<noteq> - (2 ^ 63));
        s \<leftarrow> format_integer (nat (if v < 0 then - v else v)) True (v < 0) base_d c out s; Some (s, args) } =
      do { (v, args) \<leftarrow> signed_arg (conv_type c) args; ASSERT (v \<noteq> - (2 ^ 63));
        s \<leftarrow> output_list out (integer_text (nat (abs v)) True (v < 0) base_d c) s; Some (s, args) }"
    using signed_arg_bound [of "conv_type c" args]
    by (cases "signed_arg (conv_type c) args") (auto simp: ASSERT_bind abs_if [symmetric] format_integer_run)
  have u: "do { (v, args) \<leftarrow> unsigned_arg (conv_type c) args;
        s \<leftarrow> format_integer v False False (unsigned_base ch) c out s; Some (s, args) } =
      do { (v, args) \<leftarrow> unsigned_arg (conv_type c) args;
        s \<leftarrow> output_list out (integer_text v False False (unsigned_base ch) c) s; Some (s, args) }"
    using unsigned_arg_bound [of "conv_type c" args]
    by (cases "unsigned_arg (conv_type c) args") (auto simp: format_integer_run unsigned_base_def)
  have p: "format_integer (unat w) False False base_x c' out s = output_list out (integer_text (unat w) False False base_x c') s" for w :: u32 and c'
    using unsigned_less [of w, where ?'a = nat] by (intro format_integer_run) auto
  let ?A = "ch \<in> {CHR ''d'', CHR ''i''}" and ?B = "ch \<in> {CHR ''o'', CHR ''u'', CHR ''x'', CHR ''X''}"
  show "convert ch c args out s = None \<Longrightarrow>
     convert_text ch c args = Some (''<<no %'' @ ch # (if ch \<in> set ''feEgGn'' then '' in kernel>>'' else '' conversion>>''), args)"
    unfolding convert_def convert_text_def by (cases ?A; cases ?B; cases "ch = CHR ''c''"; cases "ch = CHR ''s''"; cases "ch = CHR ''p''")
      (simp_all only: if_True if_False option.distinct simp_thms)
  show "convert ch c args out s = Some r \<Longrightarrow>
     r = do { (t, args) \<leftarrow> convert_text ch c args; s \<leftarrow> output_list out t s; Some (s, args) }"
    unfolding convert_def convert_text_def i u p format_string_run
    by (cases ?A; cases ?B; cases "ch = CHR ''c''"; cases "ch = CHR ''s''"; cases "ch = CHR ''p''"; simp only: if_True if_False option.distinct option.inject simp_thms)
      (simp_all add: case_prod_unfold bind_assoc Let_def cong: Option.bind_cong)
qed

text \<open>A conversion leaves a shorter format behind.\<close>

lemma parse_flags_length: "length (fst (parse_flags f fl)) \<le> length f"
  by (induction f fl rule: parse_flags.induct) (auto split: option.split)

lemma parse_number_length: "parse_number f v = Some (f', v') \<Longrightarrow> length f' \<le> length f"
proof (induction f v rule: parse_number.induct)
  case (2 c r v)
  then show ?case by (fastforce simp: bind_eq_Some_conv split: if_splits)
qed simp

lemma adv_length: "adv f = Some f' \<Longrightarrow> length f = Suc (length f')"
  by (auto simp: adv_def split: list.splits)

lemma parse_value_length: "parse_value f args = Some (f', v, args') \<Longrightarrow> length f' \<le> length f"
  by (auto simp: parse_value_def bind_eq_Some_conv split: if_splits dest: parse_number_length adv_length)

lemma parse_precision_length: "parse_precision f args = Some (f', v, args') \<Longrightarrow> length f' \<le> length f"
  by (auto simp: parse_precision_def bind_eq_Some_conv split: if_splits dest!: parse_value_length adv_length)

lemma parse_type_length: "length (fst (parse_type f)) \<le> length f"
  by (auto simp: parse_type_def split: list.splits)

lemma parse_conversion_length: "parse_conversion f args = Some (f', c, args') \<Longrightarrow> length f' \<le> length f"
proof -
  assume "parse_conversion f args = Some (f', c, args')"
  then obtain f1 fl f2 v args2 f3 p args3 where "parse_flags f {} = (f1, fl)" "parse_value f1 args = Some (f2, v, args2)"
      "parse_precision f2 args2 = Some (f3, p, args3)" "f' = fst (parse_type f3)"
    by (auto simp: parse_conversion_def bind_eq_Some_conv case_prod_unfold Let_def simp del: prod.collapse)
      (metis prod.collapse fst_conv)
  then show ?thesis
    using parse_flags_length [of f "{}"] parse_value_length [of f1] parse_precision_length [of f2] parse_type_length [of f3] by fastforce
qed

text \<open>
  The text of a whole format.  The function is total: printing ends for every format, and it
  fails exactly for a format or arguments with undefined behaviour.
\<close>

function vprintf_text :: "string \<Rightarrow> va list \<Rightarrow> string option" where
  "vprintf_text format args =
     (if format = [] then Some []
      else if cur format \<noteq> CHR ''%'' then map_option ((#) (cur format)) (vprintf_text (tl format) args)
      else if cur (tl format) = CHR ''%'' then map_option ((#) (CHR ''%'')) (vprintf_text (tl (tl format)) args)
      else case parse_conversion (tl format) args of
          None \<Rightarrow> None
        | Some (format, c, args) \<Rightarrow>
            (case convert_text (cur format) c args of
               None \<Rightarrow> None
             | Some (t, args) \<Rightarrow>
                 (case adv format of
                    None \<Rightarrow> None
                  | Some format \<Rightarrow> map_option ((@) t) (vprintf_text format args))))"
  by pat_completeness auto
termination
proof (relation "measure (length \<circ> fst)", goal_cases)
  case (3 f args)
  then show ?case by (cases f; cases "tl f") auto
next
  case (4 f args p f1 q c args1 r t args2 f2)
  then show ?case using parse_conversion_length [of "tl f" args f1 c args1] adv_length [of f1 f2] by (cases f) auto
qed auto

declare vprintf_text.simps [simp del]

lemma vprintf_plain: "CHR ''%'' \<notin> set u \<Longrightarrow>
    vprintf out (u @ f) args s = do { s \<leftarrow> output_list out u s; vprintf out f args s }"
proof (induction u arbitrary: s)
  case (Cons c u)
  then show ?case by (subst vprintf.simps) (auto simp: cur_def bind_assoc cong: Option.bind_cong)
qed simp

lemma vprintf_end [simp]: "vprintf out [] args s = Some s"
  by (simp add: vprintf.simps)

lemma char_of_word: "char_of (unat (of_char c :: u32)) = c"
proof -
  have "(of_char c :: nat) < 2 ^ 32" using less_trans [OF nat_of_char_less_256 [of c], of "2 ^ 32"] by simp
  then have "unat (of_nat (of_char c) :: u32) = of_char c" by (simp add: unsigned_of_nat take_bit_nat_eq_self_iff)
  then show ?thesis by (simp add: of_nat_of_char)
qed

lemma vprintf_percent_c: "CHR ''%'' \<notin> set u \<Longrightarrow>
    vprintf out (''%%%c'' @ u) [Arg32 (of_char ch)] s = output_list out (CHR ''%'' # ch # u) s"
proof -
  assume u: "CHR ''%'' \<notin> set u"
  have p: "parse_conversion (CHR ''c'' # u) [Arg32 (of_char ch)] =
      Some (CHR ''c'' # u, \<lparr>flags = {}, width = 0, precision = -1, conv_type = INT_T\<rparr>, [Arg32 (of_char ch)])"
    by (simp add: parse_conversion_def flag_of_def parse_value_def parse_precision_def parse_type_def cur_def isdigit_def)
  have "vprintf out (''%c'' @ u) [Arg32 (of_char ch)] s' = output_list out (ch # u) s'" for s'
    using vprintf_plain [OF u, of out "[]" "[]"]
    by (subst vprintf.simps) (simp add: cur_def p convert_def char_of_word format_string_run string_text_def adv_def bind_assoc)
  then show ?thesis by (subst vprintf.simps) (simp add: cur_def cong: Option.bind_cong)
qed

lemma vprintf_unsupported:
  "vprintf out (unsupported_format ch) [Arg32 (of_char ch)] s =
     output_list out (''<<no %'' @ ch # (if ch \<in> set ''feEgGn'' then '' in kernel>>'' else '' conversion>>'')) s"
proof -
  have "vprintf out (''<<no '' @ ''%%%c'' @ u) [Arg32 (of_char ch)] s = output_list out (''<<no %'' @ ch # u) s"
    if "CHR ''%'' \<notin> set u" for u
  proof -
    have "CHR ''%'' \<notin> set ''<<no ''" by simp
    from vprintf_plain [OF this, of out "''%%%c'' @ u" "[Arg32 (of_char ch)]" s]
    have "vprintf out (''<<no '' @ ''%%%c'' @ u) [Arg32 (of_char ch)] s = output_list out (''<<no '' @ CHR ''%'' # ch # u) s"
      unfolding vprintf_percent_c [OF that] output_list_append .
    then show ?thesis by simp
  qed
  from this [of "'' in kernel>>''"] this [of "'' conversion>>''"] show ?thesis by (simp add: unsupported_format_def)
qed

lemma convert_or_unsupported:
  "(case convert ch c args out s of
      Some r \<Rightarrow> r
    | None \<Rightarrow> do { s \<leftarrow> vprintf out (unsupported_format ch) [Arg32 (of_char ch)] s; Some (s, args) }) =
   do { (t, args) \<leftarrow> convert_text ch c args; s \<leftarrow> output_list out t s; Some (s, args) }"
proof (cases "convert ch c args out s")
  case None
  show ?thesis unfolding None convert_run(1) [OF None] vprintf_unsupported by simp
next
  case (Some r)
  show ?thesis using convert_run(2) [OF Some] by (simp add: Some)
qed

lemma vprintf_conversion:
  assumes "format \<noteq> []" "cur format = CHR ''%''" "cur (tl format) \<noteq> CHR ''%''"
    and "parse_conversion (tl format) args = Some (f, c, args1)"
  shows "vprintf out format args s = do { (t, args) \<leftarrow> convert_text (cur f) c args1; s \<leftarrow> output_list out t s;
      f \<leftarrow> adv f; vprintf out f args s }"
    "vprintf_text format args = (case convert_text (cur f) c args1 of None \<Rightarrow> None | Some (t, args) \<Rightarrow>
      (case adv f of None \<Rightarrow> None | Some f \<Rightarrow> map_option ((@) t) (vprintf_text f args)))"
  by (subst vprintf.simps, use assms in \<open>simp add: convert_or_unsupported case_prod_unfold bind_assoc\<close>)
    (subst vprintf_text.simps, use assms in simp)

lemma vprintf_run: "vprintf out format args s = do { t \<leftarrow> vprintf_text format args; output_list out t s }"
proof (induction format args arbitrary: s rule: vprintf_text.induct)
  case (1 format args)
  consider "format = []" | "format \<noteq> []" "cur format \<noteq> CHR ''%''" | "format \<noteq> []" "cur format = CHR ''%''" "cur (tl format) = CHR ''%''"
    | "format \<noteq> []" "cur format = CHR ''%''" "cur (tl format) \<noteq> CHR ''%''" by blast
  then show ?case
  proof cases
    case 1
    then show ?thesis by (simp add: vprintf_text.simps)
  next
    case 2
    then show ?thesis using "1.IH"(1) [OF 2]
      by (subst vprintf.simps, subst vprintf_text.simps) (cases "vprintf_text (tl format) args"; cases "out (cur format) s"; auto)
  next
    case 3
    then show ?thesis using "1.IH"(2) [OF 3(1) _ 3(3)]
      by (subst vprintf.simps, subst vprintf_text.simps) (cases "vprintf_text (tl (tl format)) args"; cases "out (CHR ''%'') s"; auto)
  next
    case 4
    show ?thesis
    proof (cases "parse_conversion (tl format) args")
      case None
      then show ?thesis using 4 by (subst vprintf.simps, subst vprintf_text.simps) simp
    next
      case (Some q)
      obtain f c args1 where q: "q = (f, c, args1)" by (cases q)
      note eq = vprintf_conversion [OF 4 Some [unfolded q]]
      show ?thesis
      proof (cases "convert_text (cur f) c args1")
        case None
        then show ?thesis by (simp add: eq)
      next
        case conv: (Some r)
        obtain t args2 where r: "r = (t, args2)" by (cases r)
        show ?thesis
        proof (cases "adv f")
          case None
          then show ?thesis by (simp add: eq conv r)
        next
          case (Some f')
          show ?thesis
            using "1.IH"(3) [OF 4(1) _ 4(3) \<open>parse_conversion (tl format) args = Some q\<close> q [symmetric] refl conv r [symmetric] Some] 4(2)
            by (cases "vprintf_text f' args2"; cases "output_list out t s") (simp_all add: eq conv r Some output_list_append)
        qed
      qed
    qed
  qed
qed

section \<open>Printing into a buffer\<close>

lemma helper_run:
  assumes "0 \<le> aux_length aux" "aux_length aux + int (length t) \<le> INT_MAX"
    and "mapped (aux_mem aux) (aux_p aux) (nat (max_length aux - aux_length aux))"
  shows "output_list vsnprintf_helper t aux =
    (let k = nat (max_length aux - aux_length aux) in
     Some (aux\<lparr>aux_length := aux_length aux + int (length t),
       aux_mem := mwrite (aux_mem aux) (aux_p aux) (map of_char (take k t)), aux_p := aux_p aux + min k (length t)\<rparr>))"
  using assms
proof (induction t arbitrary: aux)
  case Nil
  then show ?case by (cases aux) simp
next
  case (Cons c t)
  let ?k = "nat (max_length aux - aux_length aux)"
  have n: "int_val (aux_length aux + 1) = Some (aux_length aux + 1)"
    using Cons.prems(1,2) by (simp add: int_val_def INT_MIN_def)
  show ?case
  proof (cases "aux_length aux < max_length aux")
    case True
    then obtain j where j: "?k = Suc j" using gr0_implies_Suc [of ?k] by auto
    let ?aux = "aux\<lparr>aux_length := aux_length aux + 1, aux_mem := (aux_mem aux)(aux_p aux \<mapsto> of_char c), aux_p := aux_p aux + 1\<rparr>"
    have k: "nat (max_length ?aux - aux_length ?aux) = j" using j by simp
    have "output_list vsnprintf_helper (c # t) aux = output_list vsnprintf_helper t ?aux"
      using True Cons.prems(3) n j by (simp add: vsnprintf_helper_def)
    moreover have "0 \<le> aux_length ?aux" "aux_length ?aux + int (length t) \<le> INT_MAX"
      "mapped (aux_mem ?aux) (aux_p ?aux) (nat (max_length ?aux - aux_length ?aux))"
      using Cons.prems j unfolding k by simp_all
    note Cons.IH [OF this]
    ultimately show ?thesis unfolding Let_def k j by simp
  next
    case False
    then have "output_list vsnprintf_helper (c # t) aux = output_list vsnprintf_helper t (aux\<lparr>aux_length := aux_length aux + 1\<rparr>)"
      using n by (simp add: vsnprintf_helper_def)
    then show ?thesis using Cons.IH [of "aux\<lparr>aux_length := aux_length aux + 1\<rparr>"] Cons.prems False by (simp add: algebra_simps)
  qed
qed

lemma vsnprintf_run:
  assumes "vprintf_text format args = Some t" "int (length t) \<le> INT_MAX" "unat n \<le> 2 ^ 31" "mapped m buffer (unat n)"
  shows "vsnprintf m buffer n format args =
     Some (int (length t), if n = 0 then m else mwrite m buffer (map of_char (take (unat n - 1) t) @ [0]))"
proof -
  let ?aux = "\<lparr>aux_mem = m, aux_p = buffer, aux_length = 0, max_length = (if n > 0 then sint (n - 1) else 0)\<rparr>"
  let ?k = "nat (max_length ?aux)"
  have k: "?k = unat n - 1"
  proof (cases "n = 0")
    case False
    then have "unat (n - 1) = unat n - 1" by (simp add: unat_minus_one)
    moreover have "0 < unat n" using False by (simp add: unat_gt_0)
    with calculation have "unat (n - 1) < 2 ^ 31" using assms(3) by linarith
    then have "n - 1 < 2 ^ 31" by (simp add: word_less_nat_alt)
    then have "uint (n - 1) < 2 ^ 31" by (simp add: word_less_def)
    then have "sint (n - 1) = uint (n - 1)"
      using order_trans [OF _ uint_ge_0 [of "n - 1"], of "- (2 ^ 31)"] by (simp add: sint_uint signed_take_bit_int_eq_self)
    ultimately show ?thesis using False by (simp add: word_gt_0)
  qed simp
  have mk: "mapped m buffer ?k" unfolding k by (rule mapped_le [OF assms(4)]) simp
  have r: "vprintf vsnprintf_helper format args ?aux = Some (?aux\<lparr>aux_length := int (length t),
       aux_mem := mwrite m buffer (map of_char (take ?k t)), aux_p := buffer + min ?k (length t)\<rparr>)"
    using helper_run [of ?aux t] assms(1,2) mk by (simp add: vprintf_run Let_def)
  show ?thesis
  proof (cases "n = 0")
    case True
    then show ?thesis using r by (simp add: vsnprintf_def)
  next
    case False
    then have "0 < unat n" by (simp add: unat_gt_0)
    then have "mwrite m buffer (map of_char (take (unat n - 1) t)) (buffer + min (unat n - 1) (length t)) \<noteq> None"
      using assms(4) mapped_sub [of m buffer "unat n" "min (unat n - 1) (length t)" 1] by (auto simp: mwrite_apply)
    then show ?thesis using r [unfolded k] False
      by (simp add: vsnprintf_def word_gt_0 mwrite_upd min.commute)
  qed
qed

section \<open>Decimal numbers\<close>

lemma dval_snoc: "dval (ds @ [d]) = dval ds * 10 + (uint d - 48)"
  by (simp add: dval_def)

lemma digit_char: "d < 10 \<Longrightarrow> uint (of_char (digits base_d ! d) :: u8) = 48 + int d"
proof -
  assume "d < 10"
  then have "d \<in> {0, 1, 2, 3, 4, 5, 6, 7, 8, 9}" by auto
  then show ?thesis by (auto simp: base_d_def)
qed

lemma num_digits_less: "d \<in> set (num_digits b v) \<Longrightarrow> d < b"
proof (induction b v rule: num_digits.induct)
  case (1 b v)
  then show ?case by (subst (asm) (2) num_digits.simps) (auto split: if_splits)
qed

definition decimal :: "nat \<Rightarrow> u8 list" where
  "decimal v = map (\<lambda>d. of_char (digits base_d ! d)) (rev (num_digits 10 v))"

lemma dval_decimal: "dval (decimal v) = int v"
proof (induction v rule: less_induct)
  case (less v)
  show ?case
  proof (cases "v = 0")
    case False
    then have "num_digits 10 v = v mod 10 # num_digits 10 (v div 10)" by (subst num_digits.simps) simp
    then have "dval (decimal v) = int (v div 10) * 10 + int (v mod 10)"
      using less.IH [of "v div 10"] False digit_char [of "v mod 10"] by (simp add: decimal_def dval_snoc)
    then show ?thesis by presburger
  qed (simp add: decimal_def)
qed

lemma decimal_digits: "\<forall>c \<in> set (decimal v). digit c"
  using num_digits_less [of _ 10 v] digit_char by (fastforce simp: decimal_def digit_def)

lemma cstr_mwrite: "0 \<notin> set s \<Longrightarrow> cstr (mwrite m a (s @ [0])) a s"
  using holds_mwrite [of m a "s @ [0]"] cstr_append [of "mwrite m a (s @ [0])" a s "[]"] by simp

text \<open>The text of a plain \<open>%d\<close> conversion.\<close>

lemma text_d:
  fixes w :: u32
  defines "v \<equiv> nat (abs (sint w))"
  shows "\<exists>t. vprintf_text ''%d'' [Arg32 w] = Some t \<and> length t \<le> 11 \<and>
    map of_char t = (if sint w < 0 then [45] else []) @ (if v = 0 then [48] else decimal v)"
proof -
  let ?c = "\<lparr>flags = {}, width = 0, precision = -1, conv_type = INT_T\<rparr>"
  let ?t = "integer_text v True (sint w < 0) base_d ?c"
  have p: "parse_conversion ''d'' [Arg32 w] = Some (''d'', ?c, [Arg32 w])"
    by (simp add: parse_conversion_def flag_of_def parse_value_def parse_precision_def parse_type_def cur_def isdigit_def)
  have b: "- (2 ^ 31) \<le> sint w" "sint w < 2 ^ 31" using sint_ge [of w] sint_lt [of w] by simp_all
  then have "convert_text (CHR ''d'') ?c [Arg32 w] = Some (?t, [])"
    by (auto simp: convert_text_def signed_arg_def v_def)
  then have t: "vprintf_text ''%d'' [Arg32 w] = Some ?t"
    using vprintf_conversion(2) [of "''%d''" "[Arg32 w]" "''d''" ?c] p by (simp add: cur_def adv_def vprintf_text.simps [of "[]"])
  have tx: "?t = (if sint w < 0 then ''-'' else []) @ (if v = 0 then ''0'' else rev (map ((!) (digits base_d)) (num_digits 10 v)))"
    by (simp add: integer_text_def integer_body_def sign_of_def grouped_plain base_d_def Let_def num_digits.simps [of 10 v])
  have "v \<le> 2 ^ 31" using b by (simp add: v_def)
  then have "v < 10 ^ 10" by simp
  then have "length ?t \<le> 11" using num_digits_length [of v 10 10] unfolding tx by simp
  moreover have "map of_char ?t = (if sint w < 0 then [45] else []) @ (if v = 0 then [48 :: u8] else decimal v)"
    unfolding tx decimal_def by (simp add: rev_map)
  ultimately show ?thesis using t by blast
qed

section \<open>Properties\<close>



text \<open>
  C23.  Printing a number and reading it back.  For every 32-bit number, \<open>snprintf\<close> with \<open>%d\<close> into a
  buffer of at least 12 bytes followed by \<open>atoi\<close> gives the number again, the smallest \<open>int\<close>
  included, and memory outside the buffer is unchanged.
\<close>

theorem snprintf_atoi:
  assumes "12 \<le> unat n" "unat n \<le> 2 ^ 31" "mapped m buffer (unat n)" "buffer \<noteq> NULL"
  shows "\<exists>len m'. snprintf m buffer n ''%d'' [Arg32 w] = Some (len, m') \<and> atoi m' buffer = Some (sint w) \<and>
     (\<forall>x. x < buffer \<or> buffer + unat n \<le> x \<longrightarrow> m' x = m x)"
proof -
  let ?v = "nat (abs (sint w))"
  define sg ds where "sg = (if sint w < 0 then [45 :: u8] else [])" and "ds = (if ?v = 0 then [48] else decimal ?v)"
  obtain t where t: "vprintf_text ''%d'' [Arg32 w] = Some t" "length t \<le> 11" "map of_char t = sg @ ds"
    using text_d [of w] by (auto simp: sg_def ds_def)
  have n: "n \<noteq> 0" "take (unat n - 1) t = t" using assms(1) t(2) by auto
  let ?m = "mwrite m buffer ((sg @ ds) @ [0])"
  have s: "snprintf m buffer n ''%d'' [Arg32 w] = Some (int (length t), ?m)"
    unfolding snprintf_def t(3) [symmetric] using vsnprintf_run [OF t(1) _ assms(2,3)] t(2) n by (simp add: INT_MAX_def)
  have d: "ds \<noteq> []" "\<forall>c \<in> set ds. digit c" "dval ds = int ?v"
    using dval_decimal [of ?v] decimal_digits [of ?v]
    by (auto simp: ds_def digit_def dval_Cons decimal_def num_digits.simps [of 10 ?v])
  then have "0 \<notin> set (sg @ ds)" by (auto simp: sg_def digit_def)
  then have "cstr ?m buffer ([] @ sg @ ds @ [])" using cstr_mwrite [of "sg @ ds" m buffer] by simp
  from atoi_run [OF this assms(4) _ _ d(1,2)] have "atoi ?m buffer = int_val (sint w)" by (auto simp: d(3) sg_def split: if_splits)
  also have "\<dots> = Some (sint w)" using sint_ge [of w] sint_lt [of w] by (simp add: int_val_def INT_MIN_def INT_MAX_def)
  finally have "atoi ?m buffer = Some (sint w)" .
  moreover have "length (sg @ ds) \<le> 11" using t(2,3) by (metis length_map)
  then have "\<forall>x. x < buffer \<or> buffer + unat n \<le> x \<longrightarrow> ?m x = m x" using assms(1) by (auto simp: mwrite_apply)
  ultimately show ?thesis using s by blast
qed

theorem snprintf_atoi_witness:
  "\<exists>len m'. snprintf (\<lambda>a. if 100 \<le> a \<and> a < 112 then Some 0 else None) 100 12 ''%d'' [Arg32 (-2147483648)] = Some (len, m') \<and>
     atoi m' 100 = Some (-2147483648)"
proof -
  let ?m = "\<lambda>a :: nat. if 100 \<le> a \<and> a < 112 then Some (0 :: u8) else None"
  have "mapped ?m 100 (unat (12 :: u32))" by (simp add: mapped_def)
  moreover have "sint (- 2147483648 :: u32) = - 2147483648" by simp
  ultimately show ?thesis using snprintf_atoi [of 12 ?m 100 "-2147483648"] by auto
qed

text \<open>
  Two defects of the conversions: a negative field width argument sets the flag for left
  adjustment but does not clear the one for zeros, so the field is filled on both sides; and a
  format that ends in a percent sign is read beyond its end.
\<close>

lemma negative_width_fills_twice: "vprintf_text ''%0*d'' [Arg32 (-5), Arg32 42] = Some ''00042   ''"
  by code_simp

lemma trailing_percent: "vprintf_text ''100%'' [] = None"
  by code_simp

end
