(* ===== verification/Vaddr.thy ===== *)
theory Vaddr
  imports Prelude
begin

text \<open>
  Virtual addresses, \<open>threads/vaddr.h\<close>, and the entries of page directories and page tables,
  \<open>threads/pte.h\<close>.  Addresses are 32-bit words.  Memory is a function from addresses to bytes; 32-bit
  values are stored with the low byte first.  A false \<open>ASSERT\<close> has no result.
\<close>

section \<open>Memory\<close>

type_synonym kmem = "u32 \<Rightarrow> u8"

definition get32 :: "kmem \<Rightarrow> u32 \<Rightarrow> u32" where
  "get32 m a = ucast (m a) OR push_bit 8 (ucast (m (a + 1))) OR push_bit 16 (ucast (m (a + 2))) OR
     push_bit 24 (ucast (m (a + 3)))"

definition put32 :: "kmem \<Rightarrow> u32 \<Rightarrow> u32 \<Rightarrow> kmem" where
  "put32 m a v = m(a := ucast v, a + 1 := ucast (drop_bit 8 v), a + 2 := ucast (drop_bit 16 v),
     a + 3 := ucast (drop_bit 24 v))"

text \<open>\<open>memset\<close> and \<open>memcpy\<close> on this memory.\<close>

definition kfill :: "kmem \<Rightarrow> u32 \<Rightarrow> u8 \<Rightarrow> u32 \<Rightarrow> kmem" where
  "kfill m a v n = (\<lambda>x. if x - a < n then v else m x)"

definition kcopy :: "kmem \<Rightarrow> u32 \<Rightarrow> u32 \<Rightarrow> u32 \<Rightarrow> kmem" where
  "kcopy m dst src n = (\<lambda>x. if x - dst < n then m (x - dst + src) else m x)"

section \<open>Virtual addresses (threads/vaddr.h)\<close>

definition BITMASK :: "nat \<Rightarrow> nat \<Rightarrow> u32" where
  "BITMASK shift cnt = push_bit shift (push_bit cnt 1 - 1)"

abbreviation PGBITS :: nat where "PGBITS \<equiv> 12"
abbreviation PGSIZE :: u32 where "PGSIZE \<equiv> 0x1000"
abbreviation PHYS_BASE :: u32 where "PHYS_BASE \<equiv> 0xc0000000"

definition PGMASK :: u32 where
  "PGMASK = BITMASK 0 PGBITS"

definition pg_ofs :: "u32 \<Rightarrow> u32" where
  "pg_ofs va = va AND PGMASK"

definition pg_no :: "u32 \<Rightarrow> u32" where
  "pg_no va = drop_bit PGBITS va"

definition pg_round_up :: "u32 \<Rightarrow> u32" where
  "pg_round_up va = (va + PGSIZE - 1) AND NOT PGMASK"

definition pg_round_down :: "u32 \<Rightarrow> u32" where
  "pg_round_down va = va AND NOT PGMASK"

definition is_user_vaddr :: "u32 \<Rightarrow> bool" where
  "is_user_vaddr vaddr \<longleftrightarrow> vaddr < PHYS_BASE"

definition is_kernel_vaddr :: "u32 \<Rightarrow> bool" where
  "is_kernel_vaddr vaddr \<longleftrightarrow> vaddr \<ge> PHYS_BASE"

definition ptov :: "u32 \<Rightarrow> u32 option" where
  "ptov paddr = do { ASSERT (paddr < PHYS_BASE); Some (paddr + PHYS_BASE) }"

definition vtop :: "u32 \<Rightarrow> u32 option" where
  "vtop vaddr = do { ASSERT (is_kernel_vaddr vaddr); Some (vaddr - PHYS_BASE) }"

section \<open>Page table entries (threads/pte.h)\<close>

abbreviation PTSHIFT :: nat where "PTSHIFT \<equiv> 12"
abbreviation PTBITS :: nat where "PTBITS \<equiv> 10"
abbreviation PDSHIFT :: nat where "PDSHIFT \<equiv> 22"

abbreviation PTE_ADDR :: u32 where "PTE_ADDR \<equiv> 0xfffff000"
abbreviation PTE_P :: u32 where "PTE_P \<equiv> 0x1"
abbreviation PTE_W :: u32 where "PTE_W \<equiv> 0x2"
abbreviation PTE_U :: u32 where "PTE_U \<equiv> 0x4"
abbreviation PTE_A :: u32 where "PTE_A \<equiv> 0x20"
abbreviation PTE_D :: u32 where "PTE_D \<equiv> 0x40"

definition pt_no :: "u32 \<Rightarrow> u32" where
  "pt_no va = drop_bit PTSHIFT (va AND BITMASK PTSHIFT PTBITS)"

definition pd_no :: "u32 \<Rightarrow> u32" where
  "pd_no va = drop_bit PDSHIFT va"

definition pde_create :: "u32 \<Rightarrow> u32 option" where
  "pde_create pt = do {
     ASSERT (pg_ofs pt = 0);
     p \<leftarrow> vtop pt;
     Some (p OR PTE_U OR PTE_P OR PTE_W)
   }"

definition pde_get_pt :: "u32 \<Rightarrow> u32 option" where
  "pde_get_pt pde = do { ASSERT (pde AND PTE_P \<noteq> 0); ptov (pde AND PTE_ADDR) }"

definition pte_create_kernel :: "u32 \<Rightarrow> bool \<Rightarrow> u32 option" where
  "pte_create_kernel page writable = do {
     ASSERT (pg_ofs page = 0);
     p \<leftarrow> vtop page;
     Some (p OR PTE_P OR (if writable then PTE_W else 0))
   }"

definition pte_create_user :: "u32 \<Rightarrow> bool \<Rightarrow> u32 option" where
  "pte_create_user page writable = do {
     e \<leftarrow> pte_create_kernel page writable;
     Some (e OR PTE_U)
   }"

definition pte_get_page :: "u32 \<Rightarrow> u32 option" where
  "pte_get_page pte = ptov (pte AND PTE_ADDR)"

section \<open>Memory laws\<close>

lemma offset_neq: "(a :: u32) + 1 \<noteq> a" "a + 2 \<noteq> a" "a + 3 \<noteq> a" "a + 2 \<noteq> a + 1" "a + 3 \<noteq> a + 1" "a + 3 \<noteq> a + 2"
  by simp_all

lemma get_put32 [simp]: "get32 (put32 m a v) a = v"
proof (rule bit_word_eqI)
  fix n assume "n < LENGTH(32)"
  then consider "n < 8" | "8 \<le> n" "n < 16" | "16 \<le> n" "n < 24" | "24 \<le> n" "n < 32" by atomize_elim auto
  then show "bit (get32 (put32 m a v) a) n = bit v n"
    by cases (auto simp: get32_def put32_def offset_neq bit_simps)
qed

text \<open>Two aligned words are the same or disjoint.\<close>

definition aligned4 :: "u32 \<Rightarrow> bool" where
  "aligned4 a \<longleftrightarrow> unat a mod 4 = 0"

lemma unat_add_small:
  assumes "aligned4 a" "k < 4"
  shows "unat (a + of_nat k) = unat a + k"
proof -
  have "unat a + k < 2 ^ 32"
  proof (rule ccontr)
    assume "\<not> unat a + k < 2 ^ 32"
    then have "2 ^ 32 - 4 < unat a" "unat a < 2 ^ 32" using assms(2) unat_lt_32 [of a] by auto
    moreover obtain q where "unat a = 4 * q" using assms(1) by (auto simp: aligned4_def elim!: dvdE)
    ultimately show False by simp
  qed
  moreover have "unat (of_nat k :: u32) = k" using assms(2) by (simp add: unsigned_of_nat take_bit_nat_eq_self)
  ultimately show ?thesis by (simp add: unat_word_ariths)
qed

lemma aligned4_words: "aligned4 a \<Longrightarrow> aligned4 b \<Longrightarrow> a \<noteq> b \<Longrightarrow> j < 4 \<Longrightarrow> k < 4 \<Longrightarrow> a + of_nat j \<noteq> b + of_nat k"
proof
  assume a: "aligned4 a" "aligned4 b" "a \<noteq> b" "j < 4" "k < 4" "a + of_nat j = b + of_nat k"
  then have "unat a + j = unat b + k" using unat_add_small [of a j] unat_add_small [of b k] by simp
  moreover obtain p q where "unat a = 4 * p" "unat b = 4 * q" using a(1,2) by (auto simp: aligned4_def elim!: dvdE)
  ultimately have "unat a = unat b" using a(4,5) by presburger
  then show False using a(3) by (simp add: word_unat_eq_iff)
qed

lemma get_put32_other [simp]:
  assumes "aligned4 a" "aligned4 b" "a \<noteq> b"
  shows "get32 (put32 m a v) b = get32 m b"
proof -
  have "b + of_nat k \<notin> {a, a + 1, a + 2, a + 3}" if "k < 4" for k
    using aligned4_words [OF assms _ that, of 0] aligned4_words [OF assms _ that, of 1]
      aligned4_words [OF assms _ that, of 2] aligned4_words [OF assms _ that, of 3] by auto
  from this [of 0] this [of 1] this [of 2] this [of 3] show ?thesis by (simp add: get32_def put32_def)
qed

section \<open>Numbers of pages\<close>

lemma PGMASK_eq: "PGMASK = mask 12"
  by (simp add: PGMASK_def BITMASK_def mask_eq_exp_minus_1)

lemma unat_pg_ofs: "unat (pg_ofs va) = unat va mod 4096"
  by (simp add: pg_ofs_def PGMASK_eq flip: take_bit_eq_mask) (simp add: take_bit_eq_mod unat_mod)

lemma unat_pg_no: "unat (pg_no va) = unat va div 4096"
  by (simp add: pg_no_def drop_bit_eq_div unat_div)

lemma unat_pd_no: "unat (pd_no va) = unat va div 4194304"
  by (simp add: pd_no_def drop_bit_eq_div unat_div)

lemma unat_pt_no: "unat (pt_no va) = unat va div 4096 mod 1024"
proof -
  have "BITMASK PTSHIFT PTBITS = push_bit 12 (mask 10)" by (simp add: BITMASK_def mask_eq_exp_minus_1)
  then have "pt_no va = take_bit 10 (drop_bit 12 va)"
    by (intro bit_word_eqI) (auto simp: pt_no_def bit_simps)
  then show ?thesis by (simp add: take_bit_eq_mod drop_bit_eq_div unat_div unat_mod)
qed

lemma unat_pg_round_down: "unat (pg_round_down va) = unat va div 4096 * 4096"
proof -
  have "pg_round_down va = push_bit 12 (drop_bit 12 va)"
    by (intro bit_word_eqI) (auto simp: pg_round_down_def PGMASK_eq bit_simps)
  moreover have "unat va div 4096 * 4096 < 2 ^ 32" using unat_lt_32 [of va] div_times_less_eq_dividend le_less_trans by blast
  ultimately show ?thesis by (simp add: push_bit_eq_mult drop_bit_eq_div unat_word_ariths unat_div)
qed

end
