(* ===== verification/Palloc.thy ===== *)
theory Palloc
  imports Vaddr Bitmap
begin

text \<open>
  The page allocator, \<open>threads/palloc.c\<close>: the kernel and the user pool, each a bitmap of used pages and
  the address of its first page.  Each operation runs as a whole, which the lock of a pool
  guarantees.  A pool's bitmap is stored in the pages before its first page; it is a value here.
\<close>

section \<open>Pools\<close>

record pool =
  used_map :: bitmap
  pool_base :: u32

datatype palloc_flag = PAL_ASSERT | PAL_ZERO | PAL_USER

record pages =
  kernel_pool :: pool
  user_pool :: pool
  memory :: kmem
  init_ram_pages :: u32

definition page_from_pool :: "pool \<Rightarrow> u32 \<Rightarrow> bool" where
  "page_from_pool pool page =
     (let page_no = pg_no page; start_page = pg_no (pool_base pool);
          end_page = start_page + bitmap_size (used_map pool)
      in page_no \<ge> start_page \<and> page_no < end_page)"

definition palloc_get_multiple :: "pages \<Rightarrow> palloc_flag set \<Rightarrow> u32 \<Rightarrow> (u32 \<times> pages) option" where
  "palloc_get_multiple s flags page_cnt =
     (let pool = (if PAL_USER \<in> flags then user_pool s else kernel_pool s) in
      if page_cnt = 0 then Some (0, s)
      else do {
        (page_idx, bm) \<leftarrow> bitmap_scan_and_flip (used_map pool) 0 page_cnt False;
        let s = (if PAL_USER \<in> flags then s\<lparr>user_pool := pool\<lparr>used_map := bm\<rparr>\<rparr>
                 else s\<lparr>kernel_pool := pool\<lparr>used_map := bm\<rparr>\<rparr>);
        let pages = (if page_idx \<noteq> BITMAP_ERROR then pool_base pool + PGSIZE * page_idx else 0);
        if pages \<noteq> 0 then
          Some (pages, if PAL_ZERO \<in> flags then s\<lparr>memory := kfill (memory s) pages 0 (PGSIZE * page_cnt)\<rparr> else s)
        else if PAL_ASSERT \<in> flags then None
        else Some (pages, s)
      })"

definition palloc_get_page :: "pages \<Rightarrow> palloc_flag set \<Rightarrow> (u32 \<times> pages) option" where
  "palloc_get_page s flags = palloc_get_multiple s flags 1"

text \<open>\<open>palloc_free_multiple\<close>: \<open>True\<close> selects the user pool.\<close>

definition palloc_free_multiple :: "pages \<Rightarrow> u32 \<Rightarrow> u32 \<Rightarrow> pages option" where
  "palloc_free_multiple s pages page_cnt = do {
     ASSERT (pg_ofs pages = 0);
     if pages = 0 \<or> page_cnt = 0 then Some s
     else do {
       user \<leftarrow> (if page_from_pool (kernel_pool s) pages then Some False
               else if page_from_pool (user_pool s) pages then Some True
               else None);
       let pool = (if user then user_pool s else kernel_pool s);
       let page_idx = pg_no pages - pg_no (pool_base pool);
       let s = s\<lparr>memory := kfill (memory s) pages 0xcc (PGSIZE * page_cnt)\<rparr>;
       all_used \<leftarrow> bitmap_all (used_map pool) page_idx page_cnt;
       ASSERT all_used;
       bm \<leftarrow> bitmap_set_multiple (used_map pool) page_idx page_cnt False;
       Some (if user then s\<lparr>user_pool := pool\<lparr>used_map := bm\<rparr>\<rparr> else s\<lparr>kernel_pool := pool\<lparr>used_map := bm\<rparr>\<rparr>)
     }
   }"

definition palloc_free_page :: "pages \<Rightarrow> u32 \<Rightarrow> pages option" where
  "palloc_free_page s page = palloc_free_multiple s page 1"

text \<open>The words of memory at the base of a pool become its bitmap.\<close>

definition init_pool :: "kmem \<Rightarrow> u32 \<Rightarrow> u32 \<Rightarrow> pool option" where
  "init_pool m base page_cnt = do {
     let bm_pages = (bitmap_buf_size page_cnt + PGSIZE - 1) div PGSIZE;
     ASSERT (\<not> bm_pages > page_cnt);
     let page_cnt = page_cnt - bm_pages;
     bm \<leftarrow> bitmap_create_in_buf page_cnt (map (\<lambda>i. get32 m (base + of_nat (4 * i))) [0..<1024 * unat bm_pages]) (bm_pages * PGSIZE);
     Some \<lparr>used_map = bm, pool_base = base + bm_pages * PGSIZE\<rparr>
   }"

definition palloc_init :: "kmem \<Rightarrow> u32 \<Rightarrow> u32 \<Rightarrow> pages option" where
  "palloc_init m ram_pages user_page_limit = do {
     free_start \<leftarrow> ptov (1024 * 1024);
     free_end \<leftarrow> ptov (ram_pages * PGSIZE);
     let free_pages = (free_end - free_start) div PGSIZE;
     let user_pages = free_pages div 2;
     let user_pages = (if user_pages > user_page_limit then user_page_limit else user_pages);
     let kernel_pages = free_pages - user_pages;
     k \<leftarrow> init_pool m free_start kernel_pages;
     u \<leftarrow> init_pool m (free_start + kernel_pages * PGSIZE) user_pages;
     Some \<lparr>kernel_pool = k, user_pool = u, memory = m, init_ram_pages = ram_pages\<rparr>
   }"

section \<open>The invariant\<close>

text \<open>The numbers of the pages of a pool, and of those in use.\<close>

definition pool_pages :: "pool \<Rightarrow> nat set" where
  "pool_pages p = {unat (pg_no (pool_base p))..<unat (pg_no (pool_base p)) + unat (bit_cnt (used_map p))}"

definition pool_used :: "pool \<Rightarrow> nat set" where
  "pool_used p = (+) (unat (pg_no (pool_base p))) ` used_units (used_map p)"

definition pool_ok :: "pool \<Rightarrow> bool" where
  "pool_ok p \<longleftrightarrow> bitmap_ok (used_map p) \<and> pg_ofs (pool_base p) = 0 \<and> is_kernel_vaddr (pool_base p) \<and>
     unat (pool_base p) + 4096 * unat (bit_cnt (used_map p)) \<le> 2 ^ 32"

definition pages_ok :: "pages \<Rightarrow> bool" where
  "pages_ok s \<longleftrightarrow> pool_ok (kernel_pool s) \<and> pool_ok (user_pool s) \<and>
     pool_pages (kernel_pool s) \<inter> pool_pages (user_pool s) = {}"

definition pages_used :: "pages \<Rightarrow> nat set" where
  "pages_used s = pool_used (kernel_pool s) \<union> pool_used (user_pool s)"

text \<open>The page numbers of a group of pages.\<close>

definition page_group :: "u32 \<Rightarrow> u32 \<Rightarrow> nat set" where
  "page_group a n = {unat (pg_no a)..<unat (pg_no a) + unat n}"

lemma pool_used_pages: "pool_used p \<subseteq> pool_pages p"
  by (auto simp: pool_used_def pool_pages_def used_units_def)

lemma page_aligned: "pg_ofs a = 0 \<longleftrightarrow> unat a = 4096 * unat (pg_no a)"
proof -
  have "pg_ofs a = 0 \<longleftrightarrow> unat a mod 4096 = 0" by (simp add: unat_pg_ofs flip: unat_eq_0)
  also have "\<dots> \<longleftrightarrow> unat a = 4096 * (unat a div 4096)"
    using mult_div_mod_eq [of 4096 "unat a"] by (intro iffI; linarith)
  finally show ?thesis by (simp add: unat_pg_no)
qed

lemma page_div_less: "(x :: nat) div 4096 < k \<longleftrightarrow> x < 4096 * k"
  by (subst div_less_iff_less_mult) (simp_all add: mult.commute)

text \<open>The bytes that \<open>kfill\<close> reaches are those of the group of pages.\<close>

lemma in_page_group:
  assumes "pg_ofs a = 0" "unat a + 4096 * unat n \<le> 2 ^ 32" "4096 * unat n < 2 ^ 32"
  shows "x - a < PGSIZE * n \<longleftrightarrow> unat (pg_no x) \<in> page_group a n"
proof -
  have n: "unat (PGSIZE * n) = 4096 * unat n" using assms(3) by (simp add: unat_word_ariths)
  have a: "unat a = 4096 * unat (pg_no a)" using assms(1) by (simp add: page_aligned)
  show ?thesis
  proof (cases "a \<le> x")
    case True
    then have "unat (x - a) = unat x - unat a" "unat a \<le> unat x" by (simp_all add: unat_sub word_le_nat_alt)
    then have "x - a < PGSIZE * n \<longleftrightarrow> unat x < 4096 * (unat (pg_no a) + unat n)"
      using n a by (auto simp: word_less_nat_alt)
    also have "\<dots> \<longleftrightarrow> unat x div 4096 < unat (pg_no a) + unat n" by (rule page_div_less [symmetric])
    also have "\<dots> \<longleftrightarrow> unat (pg_no x) \<in> page_group a n"
      using div_le_mono [OF \<open>unat a \<le> unat x\<close>, of 4096] by (simp add: page_group_def unat_pg_no)
    finally show ?thesis .
  next
    case False
    then have l: "unat x < unat a" by (simp add: word_le_nat_alt not_le)
    have "unat (x - a) = 2 ^ 32 + unat x - unat a" using l by (simp add: unat_sub_if')
    then have "\<not> x - a < PGSIZE * n" using n assms(2) by (simp add: word_less_nat_alt)
    moreover have "unat (pg_no x) < unat (pg_no a)" 
      using l a page_div_less [of "unat x" "unat (pg_no a)"] by (simp add: unat_pg_no [of x])
    ultimately show ?thesis by (simp add: page_group_def)
  qed
qed

section \<open>Allocation and release\<close>

abbreviation flag_pool :: "pages \<Rightarrow> palloc_flag set \<Rightarrow> pool" where
  "flag_pool s flags \<equiv> if PAL_USER \<in> flags then user_pool s else kernel_pool s"

lemma pool_page:
  assumes "pool_ok p" "k + unat n \<le> unat (bit_cnt (used_map p))" "n \<noteq> 0"
  defines "a \<equiv> pool_base p + PGSIZE * of_nat k"
  shows "unat (pg_no a) = unat (pg_no (pool_base p)) + k" "pg_ofs a = 0" "is_kernel_vaddr a" "a \<noteq> 0"
    "unat a + 4096 * unat n \<le> 2 ^ 32" "4096 * unat n < 2 ^ 32"
proof -
  have b: "pg_ofs (pool_base p) = 0" "is_kernel_vaddr (pool_base p)"
      "unat (pool_base p) + 4096 * unat (bit_cnt (used_map p)) \<le> 2 ^ 32" using assms(1) by (auto simp: pool_ok_def)
  have n: "0 < unat n" using assms(3) by (simp add: unat_gt_0)
  have hi: "0xc0000000 \<le> unat (pool_base p)" using b(2) by (simp add: is_kernel_vaddr_def word_le_nat_alt)
  have k: "4096 * k + 4096 * unat n \<le> 4096 * unat (bit_cnt (used_map p))" using assms(2) by simp
  then have k2: "unat (pool_base p) + 4096 * k + 4096 * unat n \<le> 2 ^ 32" using b(3) by linarith
  have "unat (of_nat k :: u32) = k" using k2 n by (simp add: unsigned_of_nat take_bit_nat_eq_self)
  then have u: "unat a = unat (pool_base p) + 4096 * k" using k2 n by (simp add: a_def unat_word_ariths)
  show "unat (pg_no a) = unat (pg_no (pool_base p)) + k" by (simp add: unat_pg_no u)
  then show "pg_ofs a = 0" using b(1) u by (simp add: page_aligned)
  show "is_kernel_vaddr a" using u hi by (simp add: is_kernel_vaddr_def word_le_nat_alt)
  show "a \<noteq> 0" using u hi by auto
  show "unat a + 4096 * unat n \<le> 2 ^ 32" using k2 by (simp add: u)
  show "4096 * unat n < 2 ^ 32" using k2 hi by linarith
qed

definition same_pools :: "pages \<Rightarrow> pages \<Rightarrow> bool" where
  "same_pools s s' \<longleftrightarrow> pool_pages (kernel_pool s') = pool_pages (kernel_pool s) \<and> pool_pages (user_pool s') = pool_pages (user_pool s)"

text \<open>The pages in use after a pool's bitmap has been changed.\<close>

lemma pages_upd:
  assumes "pages_ok s" "bitmap_ok bm" "bit_cnt bm = bit_cnt (used_map (if user then user_pool s else kernel_pool s))"
  defines "s' \<equiv> (if user then s\<lparr>user_pool := user_pool s\<lparr>used_map := bm\<rparr>\<rparr> else s\<lparr>kernel_pool := kernel_pool s\<lparr>used_map := bm\<rparr>\<rparr>)"
  shows "pages_ok s'" "pages_used s' = (if user then pool_used (kernel_pool s) \<union> (+) (unat (pg_no (pool_base (user_pool s)))) ` used_units bm
     else (+) (unat (pg_no (pool_base (kernel_pool s)))) ` used_units bm \<union> pool_used (user_pool s))" "memory s' = memory s"
    "init_ram_pages s' = init_ram_pages s" "same_pools s s'"
  using assms by (auto simp: s'_def pages_ok_def pool_ok_def pool_pages_def pages_used_def pool_used_def same_pools_def)

lemma palloc_get_run:
  assumes "pages_ok s" "n \<noteq> 0"
  shows "(\<exists>a s'. palloc_get_multiple s flags n = Some (a, s') \<and> a \<noteq> 0 \<and> pg_ofs a = 0 \<and> is_kernel_vaddr a \<and>
       (\<exists>k. run_of (used_map (flag_pool s flags)) (unat n) False k) \<and>
       page_group a n \<subseteq> pool_used (flag_pool s' flags) \<and> page_group a n \<inter> pages_used s = {} \<and>
       pages_used s' = pages_used s \<union> page_group a n \<and> pages_ok s' \<and> init_ram_pages s' = init_ram_pages s \<and> same_pools s s' \<and>
       memory s' = (\<lambda>x. if PAL_ZERO \<in> flags \<and> unat (pg_no x) \<in> page_group a n then 0 else memory s x)) \<or>
     (palloc_get_multiple s flags n = (if PAL_ASSERT \<in> flags then None else Some (0, s)) \<and>
       (\<forall>k. \<not> run_of (used_map (flag_pool s flags)) (unat n) False k))"
proof -
  let ?p = "flag_pool s flags" and ?user = "PAL_USER \<in> flags"
  have p: "pool_ok ?p" "bitmap_ok (used_map ?p)" using assms(1) by (auto simp: pages_ok_def pool_ok_def)
  obtain i bm where g: "bitmap_scan_and_flip (used_map ?p) 0 n False = Some (i, bm)"
    using bitmap_regions.get_total [OF p(2) assms(2)] by blast
  define s1 where "s1 = (if ?user then s\<lparr>user_pool := user_pool s\<lparr>used_map := bm\<rparr>\<rparr>
    else s\<lparr>kernel_pool := kernel_pool s\<lparr>used_map := bm\<rparr>\<rparr>)"
  have s1: "(if ?user then s\<lparr>user_pool := ?p\<lparr>used_map := bm\<rparr>\<rparr> else s\<lparr>kernel_pool := ?p\<lparr>used_map := bm\<rparr>\<rparr>) = s1"
    by (simp add: s1_def)
  show ?thesis
  proof (cases "i = BITMAP_ERROR")
    case True
    then have f: "bm = used_map ?p" "\<not> (\<exists>k. k + unat n \<le> unat (bit_cnt (used_map ?p)) \<and> {k..<k + unat n} \<inter> used_units (used_map ?p) = {})"
      using bitmap_regions.get_fail [OF p(2) assms(2)] g by blast+
    then have "s1 = s" by (cases s) (auto simp: s1_def)
    then show ?thesis using True g assms(2) f(2) s1 by (auto simp: palloc_get_multiple_def Let_def run_of_used)
  next
    case False
    note r = bitmap_regions.get_ok [OF p(2) assms(2) g False]
    then have k: "unat i + unat n \<le> unat (bit_cnt (used_map ?p))" "bit_cnt bm = bit_cnt (used_map ?p)" by (auto simp: word_unat_eq_iff)
    define a where "a = pool_base ?p + PGSIZE * of_nat (unat i)"
    note a = pool_page [OF p(1) k(1) assms(2), folded a_def]
    have grp: "page_group a n = (+) (unat (pg_no (pool_base ?p))) ` region i n"
      by (simp add: page_group_def region_def a(1) ac_simps)
    have run: "palloc_get_multiple s flags n = Some (a, if PAL_ZERO \<in> flags then s1\<lparr>memory := kfill (memory s1) a 0 (PGSIZE * n)\<rparr> else s1)"
      unfolding palloc_get_multiple_def Let_def g using False assms(2) a(4) s1 by (simp add: a_def)
    have "bit_cnt bm = bit_cnt (used_map (if ?user then user_pool s else kernel_pool s))" using k(2) .
    note u = pages_upd [OF assms(1) _ this, folded s1_def]
    have sub: "page_group a n \<subseteq> pool_pages ?p" using k(1) a(1) by (auto simp: page_group_def pool_pages_def)
    have other: "page_group a n \<inter> pool_used q = {}" if "pool_pages ?p \<inter> pool_pages q = {}" for q
      using sub pool_used_pages [of q] that by blast
    have own: "page_group a n \<inter> pool_used ?p = {}" using r unfolding grp pool_used_def by auto
    have dis: "page_group a n \<inter> pages_used s = {}"
      using own other [of "kernel_pool s"] other [of "user_pool s"] assms(1) by (auto simp: pages_used_def pages_ok_def split: if_splits)
    have used: "pages_used s1 = pages_used s \<union> page_group a n"
      using u(2) r unfolding grp pages_used_def by (auto simp: pool_used_def split: if_splits)
    have free: "run_of (used_map ?p) (unat n) False (unat i)" using r by (simp add: run_of_used region_def)
    have new: "page_group a n \<subseteq> pool_used (flag_pool s1 flags)"
      using r unfolding grp by (auto simp: pool_used_def s1_def)
    have mem: "kfill (memory s) a 0 (PGSIZE * n) = (\<lambda>x. if unat (pg_no x) \<in> page_group a n then 0 else memory s x)"
      using in_page_group [OF a(2,5,6)] by (simp add: kfill_def)
    show ?thesis unfolding run using a(2-4) free new dis used mem u(1,3-5) r by (intro disjI1) (auto simp: pages_ok_def pages_used_def same_pools_def)
  qed
qed

lemma page_from_pool_run: "pool_ok p \<Longrightarrow> page_from_pool p a \<longleftrightarrow> unat (pg_no a) \<in> pool_pages p"
proof -
  assume p: "pool_ok p"
  have "4096 * (unat (pg_no (pool_base p)) + unat (bit_cnt (used_map p))) \<le> 4096 * 2 ^ 20"
    using p page_aligned [of "pool_base p"] by (simp add: pool_ok_def)
  then have "unat (pg_no (pool_base p)) + unat (bit_cnt (used_map p)) < 2 ^ 32" by simp
  then show ?thesis
    by (simp add: Let_def page_from_pool_def pool_pages_def bitmap_size_def word_le_nat_alt word_less_nat_alt unat_word_ariths)
qed

lemma palloc_free_run:
  fixes user :: bool
  defines "pool \<equiv> \<lambda>s. if user then user_pool s else kernel_pool s"
  assumes "pages_ok s" "n \<noteq> 0" "pg_ofs a = 0" "a \<noteq> 0" "page_group a n \<subseteq> pool_used (pool s)"
  shows "\<exists>s'. palloc_free_multiple s a n = Some s' \<and> pages_ok s' \<and> pages_used s' = pages_used s - page_group a n \<and>
    init_ram_pages s' = init_ram_pages s \<and> same_pools s s' \<and>
    memory s' = (\<lambda>x. if unat (pg_no x) \<in> page_group a n then 0xcc else memory s x)"
proof -
  let ?p = "pool s" and ?b = "unat (pg_no (pool_base (pool s)))"
  let ?i = "pg_no a - pg_no (pool_base ?p)"
  have p: "pool_ok ?p" "bitmap_ok (used_map ?p)" using assms(2) by (auto simp: pages_ok_def pool_ok_def pool_def)
  have n: "0 < unat n" using assms(3) by (simp add: unat_gt_0)
  then have fst: "unat (pg_no a) \<in> page_group a n" and lst: "unat (pg_no a) + unat n - 1 \<in> page_group a n"
    by (auto simp: page_group_def)
  have sub: "page_group a n \<subseteq> pool_pages ?p" using assms(6) pool_used_pages [of ?p] by blast
  have b: "?b \<le> unat (pg_no a)" using subsetD [OF sub fst] by (simp add: pool_pages_def)
  then have i: "unat ?i = unat (pg_no a) - ?b" "unat (pg_no a) = ?b + unat ?i" by (simp_all add: unat_sub word_le_nat_alt)
  have r: "unat ?i + unat n \<le> unat (bit_cnt (used_map ?p))"
    using subsetD [OF sub lst] i(1) b n unfolding pool_pages_def atLeastLessThan_iff by linarith
  have grp: "page_group a n = (+) ?b ` region ?i n" using i(2) by (simp add: page_group_def region_def ac_simps)
  have used: "region ?i n \<subseteq> used_units (used_map ?p)"
    using assms(6) unfolding grp pool_used_def by (auto simp: image_subset_iff)
  have all_used: "bitmap_all (used_map ?p) ?i n = Some True"
    using bitmap_contains_run [OF p(2) r, of False] used by (auto simp: bitmap_all_def used_units_def region_def)
  obtain bm where bm: "bitmap_set_multiple (used_map ?p) ?i n False = Some bm" "bitmap_ok bm"
      "bit_cnt bm = bit_cnt (used_map ?p)" "used_units bm = used_units (used_map ?p) - region ?i n"
    using bitmap_regions.put_ok [OF p(2) r] by (auto simp: word_unat_eq_iff)
  have in_pool: "page_from_pool ?p a" using subsetD [OF sub fst] page_from_pool_run [OF p(1)] by blast
  have sel: "(if page_from_pool (kernel_pool s) a then Some False else if page_from_pool (user_pool s) a then Some True else None) = Some user"
    using in_pool page_from_pool_run assms(2) by (auto simp: pool_def pages_ok_def split: if_splits)
  let ?s = "s\<lparr>memory := kfill (memory s) a 0xcc (PGSIZE * n)\<rparr>"
  let ?s' = "if user then ?s\<lparr>user_pool := user_pool ?s\<lparr>used_map := bm\<rparr>\<rparr> else ?s\<lparr>kernel_pool := kernel_pool ?s\<lparr>used_map := bm\<rparr>\<rparr>"
  have run: "palloc_free_multiple s a n = Some ?s'"
    unfolding palloc_free_multiple_def Let_def sel using assms(3-5) all_used bm(1) by (simp add: pool_def)
  have ok: "pages_ok ?s" using assms(2) by (simp add: pages_ok_def)
  have "bit_cnt bm = bit_cnt (used_map (if user then user_pool ?s else kernel_pool ?s))" using bm(3) by (simp add: pool_def)
  note u = pages_upd [OF ok bm(2) this]
  have dis: "page_group a n \<inter> pool_used q = {}" if "pool_pages ?p \<inter> pool_pages q = {}" for q
    using assms(6) pool_used_pages [of ?p] pool_used_pages [of q] that by blast
  have "pages_used ?s' = pages_used s - page_group a n"
    using u(2) bm(4) dis [of "kernel_pool s"] dis [of "user_pool s"] assms(2)
    unfolding grp pages_used_def pages_ok_def by (auto simp: pool_used_def pool_def split: if_splits)
  moreover have "unat a + 4096 * unat n \<le> 2 ^ 32" "4096 * unat n < 2 ^ 32"
  proof -
    have b: "unat (pool_base ?p) = 4096 * ?b" "unat (pool_base ?p) + 4096 * unat (bit_cnt (used_map ?p)) \<le> 2 ^ 32"
        "0xc0000000 \<le> unat (pool_base ?p)"
      using p(1) page_aligned [of "pool_base ?p"] by (auto simp: pool_ok_def is_kernel_vaddr_def word_le_nat_alt)
    moreover have "unat a = 4096 * (?b + unat ?i)" using assms(4) i(2) by (simp only: page_aligned)
    moreover have "4096 * unat ?i + 4096 * unat n \<le> 4096 * unat (bit_cnt (used_map ?p))" using r by simp
    ultimately show "unat a + 4096 * unat n \<le> 2 ^ 32" "4096 * unat n < 2 ^ 32" by simp_all
  qed
  note in_page_group [OF assms(4) this]
  ultimately show ?thesis using run u(1,3-5) by (auto simp: kfill_def same_pools_def)
qed

section \<open>Start up\<close>

lemma bm_pages_run:
  assumes "unat n \<le> 2 ^ 20"
  shows "unat ((bitmap_buf_size n + PGSIZE - 1) div PGSIZE) = (8 + 4 * ((unat n + 31) div 32) + 4095) div 4096"
proof -
  have b: "unat (bitmap_buf_size n) = 8 + 4 * ((unat n + 31) div 32)"
    using assms unfolding bitmap_buf_size_def by (simp add: unat_word_ariths unat_byte_cnt unat_elem_cnt)
  have "bitmap_buf_size n + PGSIZE - 1 = bitmap_buf_size n + 4095" by simp
  moreover have "unat (bitmap_buf_size n + 4095) = unat (bitmap_buf_size n) + 4095"
    using b assms by (simp add: unat_word_ariths)
  moreover have "unat (x div PGSIZE) = unat x div 4096" for x :: u32 by (simp add: unat_div)
  ultimately show ?thesis using b by (simp only:)
qed

lemma init_pool_run:
  assumes "pg_ofs base = 0" "is_kernel_vaddr base" "unat base + 4096 * unat n < 2 ^ 32"
    and "init_pool m base n = Some p"
  shows "pool_ok p" "pool_pages p \<subseteq> page_group base n" "pool_used p = {}"
proof -
  define B where "B = (bitmap_buf_size n + PGSIZE - 1) div PGSIZE"
  have hi: "0xc0000000 \<le> unat base" using assms(2) by (simp add: is_kernel_vaddr_def word_le_nat_alt)
  have n: "unat n < 2 ^ 18" using assms(3) hi by simp
  have uB: "unat B = (8 + 4 * ((unat n + 31) div 32) + 4095) div 4096" unfolding B_def using n by (intro bm_pages_run) simp
  define ws where "ws = map (\<lambda>i. get32 m (base + of_nat (4 * i))) [0..<1024 * unat B]"
  obtain bm where c: "B \<le> n" "bitmap_create_in_buf (n - B) ws (B * PGSIZE) = Some bm" "p = \<lparr>used_map = bm, pool_base = base + B * PGSIZE\<rparr>"
    using assms(4) unfolding init_pool_def Let_def B_def [symmetric] ws_def [symmetric] by (auto split: bind_splits if_splits simp: ASSERT_def not_less)
  have nB: "unat (n - B) = unat n - unat B" "unat B \<le> unat n" using c(1) by (simp_all add: unat_sub word_le_nat_alt)
  have "unat n - unat B \<le> 32 * (1024 * unat B - 2)" using uB by linarith
  then have "bitmap_ok \<lparr>bit_cnt = n - B, bits = drop 2 ws\<rparr>" by (simp add: bitmap_ok_def nB ws_def)
  from bitmap_set_all_run [OF this, of False] c(2)
  have bm: "bitmap_ok bm" "bit_cnt bm = n - B" "\<forall>j<unat (n - B). \<not> bit_at bm j"
    by (auto simp: bitmap_create_in_buf_def split: bind_splits)
  have "unat (B * PGSIZE) = 4096 * unat B" using nB n by (simp add: unat_word_ariths)
  moreover have "unat base = 4096 * unat (pg_no base)" using assms(1) by (simp only: page_aligned)
  moreover have "4096 * unat B \<le> 4096 * unat n" using nB by simp
  ultimately have u: "unat (base + B * PGSIZE) = 4096 * (unat (pg_no base) + unat B)"
    using assms(3) by (simp add: unat_word_ariths)
  then have pn: "unat (pg_no (base + B * PGSIZE)) = unat (pg_no base) + unat B" by (simp add: unat_pg_no [of "base + _"])
  have ub: "unat base = 4096 * unat (pg_no base)" using assms(1) by (simp only: page_aligned)
  have "pg_ofs (base + B * PGSIZE) = 0" by (simp only: page_aligned u pn)
  moreover have "is_kernel_vaddr (base + B * PGSIZE)" using hi u ub by (simp add: is_kernel_vaddr_def word_le_nat_alt)
  moreover have "unat (base + B * PGSIZE) + 4096 * (unat n - unat B) \<le> 2 ^ 32" using u ub nB(2) assms(3) by simp
  ultimately show "pool_ok p" using bm by (simp add: pool_ok_def c(3) nB)
  show "pool_pages p \<subseteq> page_group base n" using nB by (auto simp: pool_pages_def page_group_def c(3) pn bm(2))
  show "pool_used p = {}" using bm by (auto simp: pool_used_def used_units_def c(3))
qed

text \<open>
  With less than a gigabyte of memory \<open>palloc_init\<close> either panics, when a pool cannot hold its own
  bitmap, or leaves two disjoint pools with every page free.
\<close>

lemma palloc_init_run:
  assumes "256 \<le> ram" "ram < 0x40000" "palloc_init m ram lim = Some s"
  shows "pages_ok s" "pages_used s = {}" "memory s = m"
proof -
  define f where "f = ram - 256"
  define u where "u = (if f div 2 > lim then lim else f div 2)"
  have r: "256 \<le> unat ram" "unat ram < 0x40000" "unat f = unat ram - 256"
    using assms(1,2) by (simp_all add: f_def word_le_nat_alt word_less_nat_alt unat_sub)
  have u: "unat u \<le> unat f" unfolding u_def by (auto simp: unat_div word_less_nat_alt)
  have e: "unat (ram * PGSIZE) = 4096 * unat ram" using r by (simp add: unat_word_ariths)
  then have "unat (ram * PGSIZE + PHYS_BASE - 0xc0100000) = 4096 * unat f" using r by (simp add: unat_sub_if')
  then have "unat ((ram * PGSIZE + PHYS_BASE - 0xc0100000) div PGSIZE) = unat f" by (simp add: unat_div)
  then have f: "(ram * PGSIZE + PHYS_BASE - 0xc0100000) div PGSIZE = f" by (simp only: word_unat_eq_iff)
  define w where "w = f - u"
  have fu: "unat w = unat f - unat u" using u by (simp add: w_def unat_sub word_le_nat_alt)
  obtain k us where i: "init_pool m 0xc0100000 w = Some k" "init_pool m (0xc0100000 + w * PGSIZE) u = Some us"
      "s = \<lparr>kernel_pool = k, user_pool = us, memory = m, init_ram_pages = ram\<rparr>"
    using assms(3) f unfolding palloc_init_def ptov_def u_def w_def
    by (auto simp: ASSERT_def Let_def split: bind_splits if_splits)
  have b: "pg_ofs 0xc0100000 = 0" "is_kernel_vaddr 0xc0100000"
    by (simp_all add: pg_ofs_def PGMASK_def BITMASK_def is_kernel_vaddr_def)
  have "unat (0xc0100000 :: u32) + 4096 * unat w < 2 ^ 32" using r u fu by simp
  note K = init_pool_run [OF b this i(1)]
  have ub: "unat (0xc0100000 + w * PGSIZE) = 4096 * (0xc0100 + unat w)" using r u fu by (simp add: unat_word_ariths)
  then have pn: "unat (pg_no (0xc0100000 + w * PGSIZE)) = 0xc0100 + unat w" by (simp add: unat_pg_no)
  have "pg_ofs (0xc0100000 + w * PGSIZE) = 0" by (simp only: page_aligned ub pn)
  moreover have "is_kernel_vaddr (0xc0100000 + w * PGSIZE)" using ub by (simp add: is_kernel_vaddr_def word_le_nat_alt)
  moreover have "unat (0xc0100000 + w * PGSIZE) + 4096 * unat u < 2 ^ 32" using r u fu ub by simp
  ultimately have U: "pool_ok us" "pool_pages us \<subseteq> page_group (0xc0100000 + w * PGSIZE) u" "pool_used us = {}"
    using init_pool_run i(2) by blast+
  have "unat (pg_no 0xc0100000) = 0xc0100" by (simp add: unat_pg_no)
  then have "page_group 0xc0100000 w \<inter> page_group (0xc0100000 + w * PGSIZE) u = {}"
    by (auto simp: page_group_def pn)
  then show "pages_ok s" "pages_used s = {}" "memory s = m"
    using K U by (auto simp: pages_ok_def pages_used_def i(3))
qed

text \<open>Pages in use belong to the kernel half of the address space.\<close>

lemma used_kernel:
  assumes "pages_ok g" "unat (pg_no p) \<in> pages_used g" "pg_ofs p = 0"
  shows "is_kernel_vaddr p" "p \<noteq> 0"
proof -
  obtain q where q: "pool_ok q" "unat (pg_no p) \<in> pool_pages q"
    using assms(1,2) pool_used_pages by (auto simp: pages_ok_def pages_used_def)
  then have "unat (pg_no (pool_base q)) \<le> unat (pg_no p)" "0xc0000000 \<le> unat (pool_base q)" "pg_ofs (pool_base q) = 0"
    by (auto simp: pool_pages_def pool_ok_def is_kernel_vaddr_def word_le_nat_alt)
  then have "0xc0000000 \<le> unat p" using assms(3) unfolding page_aligned by linarith
  then show "is_kernel_vaddr p" "p \<noteq> 0" by (auto simp: is_kernel_vaddr_def word_le_nat_alt)
qed


section \<open>Words in pages\<close>

text \<open>The address of the \<open>i\<close>th 32-bit word of a page.\<close>

definition slot :: "u32 \<Rightarrow> u32 \<Rightarrow> u32" where
  "slot p i = p + 4 * i"

lemma slot_run:
  assumes "pg_ofs p = 0" "unat i < 1024"
  shows "unat (slot p i) = unat p + 4 * unat i" "pg_no (slot p i) = pg_no p" "aligned4 (slot p i)"
    "k < 4 \<Longrightarrow> pg_no (slot p i + of_nat k) = pg_no p"
proof -
  have p: "unat p = 4096 * unat (pg_no p)" using assms(1) by (simp only: page_aligned)
  moreover have "unat (pg_no p) < 2 ^ 20" using p unat_lt_32 [of p] by simp
  ultimately have b: "unat p + 4096 \<le> 2 ^ 32" by simp
  have "unat (4 * i) = 4 * unat i" using assms(2) by (simp add: unat_word_ariths)
  then show u: "unat (slot p i) = unat p + 4 * unat i"
    using b assms(2) unfolding slot_def by (simp add: unat_word_ariths)
  show a: "aligned4 (slot p i)" unfolding aligned4_def u by (simp add: p)
  show k: "pg_no (slot p i + of_nat k) = pg_no p" if "k < 4" for k
  proof -
    have "unat (slot p i + of_nat k) = 4096 * unat (pg_no p) + (4 * unat i + k)"
      using unat_add_small [OF a that] u p by simp
    moreover have "4 * unat i + k < 4096" using assms(2) that by simp
    ultimately have "unat (pg_no (slot p i + of_nat k)) = unat (pg_no p)"
      by (simp add: unat_pg_no [of "slot p i + of_nat k"])
    then show ?thesis by (simp only: word_unat_eq_iff)
  qed
  from k [of 0] show "pg_no (slot p i) = pg_no p" by simp
qed

lemma slot_inj:
  assumes "pg_ofs p = 0" "unat i < 1024" "pg_ofs q = 0" "unat j < 1024" "slot p i = slot q j"
  shows "p = q" "i = j"
proof -
  have "pg_no p = pg_no q" using slot_run(2) [OF assms(1,2)] slot_run(2) [OF assms(3,4)] assms(5) by simp
  then show "p = q" using assms(1,3) unfolding page_aligned by (metis word_unat_eq_iff)
  then show "i = j" using slot_run(1) [OF assms(1,2)] slot_run(1) [OF assms(3,4)] assms(5) by (simp add: word_unat_eq_iff)
qed

lemma get32_page:
  assumes "pg_ofs p = 0" "unat i < 1024" "\<And>x. pg_no x = pg_no p \<Longrightarrow> m' x = m x"
  shows "get32 m' (slot p i) = get32 m (slot p i)"
  using slot_run(4) [OF assms(1,2), of 0] slot_run(4) [OF assms(1,2), of 1] slot_run(4) [OF assms(1,2), of 2]
    slot_run(4) [OF assms(1,2), of 3] assms(3) by (simp add: get32_def)

lemma get32_zero_page:
  assumes "pg_ofs p = 0" "unat i < 1024" "\<And>x. pg_no x = pg_no p \<Longrightarrow> m x = 0"
  shows "get32 m (slot p i) = 0"
  using get32_page [of p i m "\<lambda>_. 0", OF assms(1,2)] assms(3) by (simp add: get32_def)

text \<open>Writing one word changes that word only.\<close>

lemma put32_slot:
  assumes "pg_ofs p = 0" "unat i < 1024" "pg_ofs q = 0" "unat j < 1024"
  shows "get32 (put32 m (slot p i) v) (slot q j) = (if p = q \<and> i = j then v else get32 m (slot q j))"
  using assms slot_inj [OF assms] slot_run(3) [OF assms(1,2)] slot_run(3) [OF assms(3,4)]
  by (cases "slot p i = slot q j") auto

section \<open>Pages as the clients see them\<close>

text \<open>
  What the page directories and the block allocator rely on: a page handed out is fresh, and neither
  handing it out nor taking it back touches another page.  The frame lemmas are proved from the
  laws and are the only facts about pages the clients use.
\<close>

locale page_source =
  fixes inv :: "'s \<Rightarrow> bool" and used :: "'s \<Rightarrow> nat set" and mem :: "'s \<Rightarrow> kmem"
    and get :: "'s \<Rightarrow> (u32 \<times> 's) option" and put :: "'s \<Rightarrow> u32 \<Rightarrow> 's option"
  assumes get_ok: "inv s \<Longrightarrow> \<exists>p s'. get s = Some (p, s') \<and> inv s' \<and>
      (p = 0 \<and> s' = s \<or>
       p \<noteq> 0 \<and> pg_ofs p = 0 \<and> is_kernel_vaddr p \<and> unat (pg_no p) \<notin> used s \<and>
       used s' = insert (unat (pg_no p)) (used s) \<and> (\<forall>x. pg_no x \<noteq> pg_no p \<longrightarrow> mem s' x = mem s x))"
    and put_ok: "inv s \<Longrightarrow> p \<noteq> 0 \<Longrightarrow> pg_ofs p = 0 \<Longrightarrow> unat (pg_no p) \<in> used s \<Longrightarrow>
      \<exists>s'. put s p = Some s' \<and> inv s' \<and> used s' = used s - {unat (pg_no p)} \<and>
        (\<forall>x. pg_no x \<noteq> pg_no p \<longrightarrow> mem s' x = mem s x)"
begin

lemma get_frame:
  assumes "inv s" "get s = Some (p, s')"
  shows "inv s'" "used s \<subseteq> used s'" "unat (pg_no x) \<in> used s \<Longrightarrow> mem s' x = mem s x"
    "p \<noteq> 0 \<Longrightarrow> unat (pg_no p) \<in> used s' - used s"
  using get_ok [OF assms(1)] assms(2) by (auto, metis)

lemma get_put:
  assumes "inv s" "get s = Some (p, s')" "p \<noteq> 0"
  shows "\<exists>s''. put s' p = Some s'' \<and> inv s'' \<and> used s'' = used s \<and>
    (\<forall>x. unat (pg_no x) \<in> used s \<longrightarrow> mem s'' x = mem s x)"
proof -
  have g: "inv s'" "pg_ofs p = 0" "unat (pg_no p) \<notin> used s" "used s' = insert (unat (pg_no p)) (used s)"
      "\<And>x. pg_no x \<noteq> pg_no p \<Longrightarrow> mem s' x = mem s x"
    using get_ok [OF assms(1)] assms(2,3) by auto
  from put_ok [OF g(1) assms(3) g(2)] g(4) obtain s'' where "put s' p = Some s''" "inv s''"
      "used s'' = used s' - {unat (pg_no p)}" "\<forall>x. pg_no x \<noteq> pg_no p \<longrightarrow> mem s'' x = mem s' x"
    by auto
  then show ?thesis using g(3-5) by (intro exI [of _ s'']) (auto, metis)
qed

end

lemma page_group_1: "page_group a 1 = {unat (pg_no a)}"
  by (auto simp: page_group_def)

lemma used_pool:
  "unat (pg_no p) \<in> pages_used s \<Longrightarrow> \<exists>user. page_group p 1 \<subseteq> pool_used (if user then user_pool s else kernel_pool s)"
  by (auto simp: pages_used_def page_group_1 ex_bool_eq)

lemma page_put_run:
  assumes "pages_ok s" "p \<noteq> 0" "pg_ofs p = 0" "unat (pg_no p) \<in> pages_used s"
  shows "\<exists>s'. palloc_free_page s p = Some s' \<and> pages_ok s' \<and> pages_used s' = pages_used s - {unat (pg_no p)} \<and>
    (\<forall>x. pg_no x \<noteq> pg_no p \<longrightarrow> memory s' x = memory s x)"
proof -
  obtain user where "page_group p 1 \<subseteq> pool_used (if user then user_pool s else kernel_pool s)"
    using used_pool [OF assms(4)] by blast
  from palloc_free_run [OF assms(1) _ assms(3,2) this] show ?thesis
    by (auto simp: palloc_free_page_def page_group_1 simp flip: word_unat_eq_iff)
qed

lemma page_pools:
  assumes "pages_ok s"
  shows "palloc_get_page s {} = Some (p, s') \<Longrightarrow> same_pools s s'"
    "palloc_free_page s p = Some s' \<Longrightarrow> p \<noteq> 0 \<Longrightarrow> pg_ofs p = 0 \<Longrightarrow> unat (pg_no p) \<in> pages_used s \<Longrightarrow> same_pools s s'"
proof -
  show "palloc_get_page s {} = Some (p, s') \<Longrightarrow> same_pools s s'"
    using palloc_get_run [OF assms, of 1 "{}"] by (auto simp: palloc_get_page_def same_pools_def)
  assume p: "palloc_free_page s p = Some s'" "p \<noteq> 0" "pg_ofs p = 0" "unat (pg_no p) \<in> pages_used s"
  obtain user where "page_group p 1 \<subseteq> pool_used (if user then user_pool s else kernel_pool s)"
    using used_pool [OF p(4)] by blast
  from palloc_free_run [OF assms _ p(3,2) this] show "same_pools s s'" using p(1) by (auto simp: palloc_free_page_def)
qed

lemma page_get_run:
  assumes "pages_ok s" "PAL_ASSERT \<notin> flags"
  shows "\<exists>p s'. palloc_get_page s flags = Some (p, s') \<and> pages_ok s' \<and>
      (p = 0 \<and> s' = s \<or>
       p \<noteq> 0 \<and> pg_ofs p = 0 \<and> is_kernel_vaddr p \<and> unat (pg_no p) \<notin> pages_used s \<and>
       pages_used s' = insert (unat (pg_no p)) (pages_used s) \<and>
       (\<forall>x. pg_no x \<noteq> pg_no p \<longrightarrow> memory s' x = memory s x))"
  using palloc_get_run [OF assms(1), of 1 flags] assms
  by (auto simp: palloc_get_page_def page_group_1 simp flip: word_unat_eq_iff)

interpretation kernel_pages: page_source pages_ok pages_used memory "\<lambda>s. palloc_get_page s {}" palloc_free_page
  by unfold_locales (use page_get_run page_put_run in auto)

interpretation zero_pages: page_source pages_ok pages_used memory "\<lambda>s. palloc_get_page s {PAL_ZERO}" palloc_free_page
  by unfold_locales (use page_get_run page_put_run in auto)

section \<open>Properties\<close>

text \<open>
  C24.  \<open>palloc_get_multiple\<close> and \<open>palloc_free_multiple\<close>: a request without \<open>PAL_ASSERT\<close> never panics.
  It returns the null pointer and changes nothing exactly when the pool chosen by the flags has no
  run of free pages of that length; otherwise it returns a page-aligned kernel address of pages none of which
  was in use, marks exactly those in use, clears them when \<open>PAL_ZERO\<close> is given, and leaves every
  other byte of memory alone.  Freeing them succeeds, makes exactly the pages of before used and
  fills only the freed pages.
\<close>

theorem palloc_get_free:
  assumes "pages_ok s" "n \<noteq> 0" "PAL_ASSERT \<notin> flags"
  shows "\<exists>a s'. palloc_get_multiple s flags n = Some (a, s') \<and> pages_ok s' \<and>
    (a = 0 \<longleftrightarrow> (\<forall>k. \<not> run_of (used_map (flag_pool s flags)) (unat n) False k)) \<and>
    (a = 0 \<longrightarrow> s' = s) \<and>
    (a \<noteq> 0 \<longrightarrow> pg_ofs a = 0 \<and> is_kernel_vaddr a \<and> page_group a n \<inter> pages_used s = {} \<and>
       pages_used s' = pages_used s \<union> page_group a n \<and>
       memory s' = (\<lambda>x. if PAL_ZERO \<in> flags \<and> unat (pg_no x) \<in> page_group a n then 0 else memory s x) \<and>
       (\<exists>s''. palloc_free_multiple s' a n = Some s'' \<and> pages_ok s'' \<and> pages_used s'' = pages_used s \<and>
          memory s'' = (\<lambda>x. if unat (pg_no x) \<in> page_group a n then 0xcc else memory s x)))"
proof (cases "\<exists>k. run_of (used_map (flag_pool s flags)) (unat n) False k")
  case True
  then obtain a s' where g: "palloc_get_multiple s flags n = Some (a, s')" "a \<noteq> 0" "pg_ofs a = 0" "is_kernel_vaddr a"
      "page_group a n \<subseteq> pool_used (flag_pool s' flags)" "page_group a n \<inter> pages_used s = {}"
      "pages_used s' = pages_used s \<union> page_group a n" "pages_ok s'"
      "memory s' = (\<lambda>x. if PAL_ZERO \<in> flags \<and> unat (pg_no x) \<in> page_group a n then 0 else memory s x)"
    using palloc_get_run [OF assms(1,2), of flags] by blast
  from palloc_free_run [OF g(8) assms(2) g(3,2,5)] obtain s'' where "palloc_free_multiple s' a n = Some s''" "pages_ok s''"
      "pages_used s'' = pages_used s' - page_group a n"
      "memory s'' = (\<lambda>x. if unat (pg_no x) \<in> page_group a n then 0xcc else memory s' x)" by blast
  then have "\<exists>s''. palloc_free_multiple s' a n = Some s'' \<and> pages_ok s'' \<and> pages_used s'' = pages_used s \<and>
      memory s'' = (\<lambda>x. if unat (pg_no x) \<in> page_group a n then 0xcc else memory s x)"
    using g(6,7,9) by (intro exI [of _ s'']) auto
  then show ?thesis using g True by blast
next
  case False
  then have "palloc_get_multiple s flags n = Some (0, s)" using palloc_get_run [OF assms(1,2), of flags] assms(3) by auto
  then show ?thesis using False assms(1) by blast
qed

definition demo_pages :: pages where
  "demo_pages = \<lparr>kernel_pool = \<lparr>used_map = \<lparr>bit_cnt = 4, bits = [1]\<rparr>, pool_base = 0xc0101000\<rparr>,
     user_pool = \<lparr>used_map = \<lparr>bit_cnt = 3, bits = [0]\<rparr>, pool_base = 0xc0106000\<rparr>,
     memory = (\<lambda>_. 7), init_ram_pages = 265\<rparr>"

lemma demo_pages_ok: "pages_ok demo_pages"
  by (auto simp: demo_pages_def pages_ok_def pool_ok_def bitmap_ok_def pool_pages_def unat_pg_no is_kernel_vaddr_def
      pg_ofs_def PGMASK_def BITMASK_def)

theorem palloc_get_free_witness:
  "\<exists>a s'. palloc_get_multiple demo_pages {PAL_ZERO} 3 = Some (a, s') \<and> a \<noteq> 0 \<and> memory s' a = 0"
proof -
  have "run_of (used_map (flag_pool demo_pages {PAL_ZERO})) (unat (3 :: u32)) False 1"
    by (auto simp: run_of_def demo_pages_def bit_at_def bit_1_iff)
  moreover have "unat (pg_no a) \<in> page_group a 3" for a by (simp add: page_group_def)
  ultimately show ?thesis using palloc_get_free [OF demo_pages_ok, of 3 "{PAL_ZERO}"] by fastforce
qed

end
