(* ===== verification/Pagedir.thy ===== *)
theory Pagedir
  imports Palloc
begin

text \<open>
  Page directories, \<open>userprog/pagedir.c\<close>, and the kernel's own directory built by \<open>paging_init\<close> of
  \<open>threads/init.c\<close>.  The state is the page allocator with its memory, the base directory, and the register CR3 with
  the number of times it was loaded, each load emptying the translation lookaside buffer.  A pointer
  to an entry is the address of the entry.
\<close>

section \<open>Operations\<close>

record vm =
  pgs :: pages
  init_page_dir :: u32
  cr3 :: u32
  cr3_loads :: nat

abbreviation vmem :: "vm \<Rightarrow> kmem" where "vmem s \<equiv> memory (pgs s)"

definition poke :: "vm \<Rightarrow> u32 \<Rightarrow> u32 \<Rightarrow> vm" where
  "poke s a v = s\<lparr>pgs := pgs s\<lparr>memory := put32 (vmem s) a v\<rparr>\<rparr>"

definition pagedir_create :: "vm \<Rightarrow> (u32 \<times> vm) option" where
  "pagedir_create s = do {
     (pd, g) \<leftarrow> palloc_get_page (pgs s) {};
     Some (pd, s\<lparr>pgs := if pd \<noteq> 0 then g\<lparr>memory := kcopy (memory g) pd (init_page_dir s) PGSIZE\<rparr> else g\<rparr>)
   }"

text \<open>The body of the inner loop of \<open>pagedir_destroy\<close>, that of the outer one, and the whole.\<close>

definition free_pte :: "u32 \<Rightarrow> nat \<Rightarrow> pages \<Rightarrow> pages option" where
  "free_pte pt i g =
     (let pte = get32 (memory g) (pt + 4 * of_nat i) in
      if pte AND PTE_P \<noteq> 0 then do { p \<leftarrow> pte_get_page pte; palloc_free_page g p } else Some g)"

definition free_pde :: "u32 \<Rightarrow> nat \<Rightarrow> pages \<Rightarrow> pages option" where
  "free_pde pd i g =
     (let pde = get32 (memory g) (pd + 4 * of_nat i) in
      if pde AND PTE_P \<noteq> 0 then do {
        pt \<leftarrow> pde_get_pt pde;
        g \<leftarrow> for_range 0 1024 (free_pte pt) g;
        palloc_free_page g pt
      } else Some g)"

definition pagedir_destroy :: "vm \<Rightarrow> u32 \<Rightarrow> vm option" where
  "pagedir_destroy s pd =
     (if pd = 0 then Some s
      else do {
        ASSERT (pd \<noteq> init_page_dir s);
        g \<leftarrow> for_range 0 (unat (pd_no PHYS_BASE)) (free_pde pd) (pgs s);
        g \<leftarrow> palloc_free_page g pd;
        Some (s\<lparr>pgs := g\<rparr>)
      })"

definition lookup_page :: "vm \<Rightarrow> u32 \<Rightarrow> u32 \<Rightarrow> bool \<Rightarrow> (u32 \<times> vm) option" where
  "lookup_page s pd vaddr create = do {
     ASSERT (pd \<noteq> 0);
     ASSERT (\<not> create \<or> is_user_vaddr vaddr);
     let pde = pd + 4 * pd_no vaddr;
     (found, s) \<leftarrow>
       (if get32 (vmem s) pde = 0 then
          if create then do {
            (pt, g) \<leftarrow> palloc_get_page (pgs s) {PAL_ZERO};
            if pt = 0 then Some (False, s\<lparr>pgs := g\<rparr>)
            else do { e \<leftarrow> pde_create pt; Some (True, poke (s\<lparr>pgs := g\<rparr>) pde e) }
          }
          else Some (False, s)
        else Some (True, s));
     if \<not> found then Some (0, s)
     else do {
       pt \<leftarrow> pde_get_pt (get32 (vmem s) pde);
       Some (pt + 4 * pt_no vaddr, s)
     }
   }"

definition pagedir_set_page :: "vm \<Rightarrow> u32 \<Rightarrow> u32 \<Rightarrow> u32 \<Rightarrow> bool \<Rightarrow> (bool \<times> vm) option" where
  "pagedir_set_page s pd upage kpage writable = do {
     ASSERT (pg_ofs upage = 0);
     ASSERT (pg_ofs kpage = 0);
     ASSERT (is_user_vaddr upage);
     frame \<leftarrow> vtop kpage;
     ASSERT (drop_bit PTSHIFT frame < init_ram_pages (pgs s));
     ASSERT (pd \<noteq> init_page_dir s);
     (pte, s) \<leftarrow> lookup_page s pd upage True;
     if pte \<noteq> 0 then do {
       ASSERT (get32 (vmem s) pte AND PTE_P = 0);
       e \<leftarrow> pte_create_user kpage writable;
       Some (True, poke s pte e)
     }
     else Some (False, s)
   }"

definition pagedir_get_page :: "vm \<Rightarrow> u32 \<Rightarrow> u32 \<Rightarrow> u32 option" where
  "pagedir_get_page s pd uaddr = do {
     ASSERT (is_user_vaddr uaddr);
     (pte, s) \<leftarrow> lookup_page s pd uaddr False;
     if pte \<noteq> 0 \<and> get32 (vmem s) pte AND PTE_P \<noteq> 0 then do {
       page \<leftarrow> pte_get_page (get32 (vmem s) pte);
       Some (page + pg_ofs uaddr)
     }
     else Some 0
   }"

definition pagedir_activate :: "vm \<Rightarrow> u32 \<Rightarrow> vm option" where
  "pagedir_activate s pd = do {
     let pd = (if pd = 0 then init_page_dir s else pd);
     p \<leftarrow> vtop pd;
     Some (s\<lparr>cr3 := p, cr3_loads := Suc (cr3_loads s)\<rparr>)
   }"

definition active_pd :: "vm \<Rightarrow> u32 option" where
  "active_pd s = ptov (cr3 s)"

definition invalidate_pagedir :: "vm \<Rightarrow> u32 \<Rightarrow> vm option" where
  "invalidate_pagedir s pd = do {
     a \<leftarrow> active_pd s;
     if a = pd then pagedir_activate s pd else Some s
   }"

definition pagedir_clear_page :: "vm \<Rightarrow> u32 \<Rightarrow> u32 \<Rightarrow> vm option" where
  "pagedir_clear_page s pd upage = do {
     ASSERT (pg_ofs upage = 0);
     ASSERT (is_user_vaddr upage);
     (pte, s) \<leftarrow> lookup_page s pd upage False;
     if pte \<noteq> 0 \<and> get32 (vmem s) pte AND PTE_P \<noteq> 0
     then invalidate_pagedir (poke s pte (get32 (vmem s) pte AND NOT PTE_P)) pd
     else Some s
   }"

text \<open>The dirty and the accessed bit are read and set in the same way.\<close>

definition pagedir_is_dirty :: "vm \<Rightarrow> u32 \<Rightarrow> u32 \<Rightarrow> bool option" where
  "pagedir_is_dirty s pd vpage = do {
     (pte, s) \<leftarrow> lookup_page s pd vpage False;
     Some (pte \<noteq> 0 \<and> get32 (vmem s) pte AND PTE_D \<noteq> 0)
   }"

definition pagedir_set_dirty :: "vm \<Rightarrow> u32 \<Rightarrow> u32 \<Rightarrow> bool \<Rightarrow> vm option" where
  "pagedir_set_dirty s pd vpage dirty = do {
     (pte, s) \<leftarrow> lookup_page s pd vpage False;
     if pte \<noteq> 0 then
       if dirty then Some (poke s pte (get32 (vmem s) pte OR PTE_D))
       else invalidate_pagedir (poke s pte (get32 (vmem s) pte AND NOT PTE_D)) pd
     else Some s
   }"

definition pagedir_is_accessed :: "vm \<Rightarrow> u32 \<Rightarrow> u32 \<Rightarrow> bool option" where
  "pagedir_is_accessed s pd vpage = do {
     (pte, s) \<leftarrow> lookup_page s pd vpage False;
     Some (pte \<noteq> 0 \<and> get32 (vmem s) pte AND PTE_A \<noteq> 0)
   }"

definition pagedir_set_accessed :: "vm \<Rightarrow> u32 \<Rightarrow> u32 \<Rightarrow> bool \<Rightarrow> vm option" where
  "pagedir_set_accessed s pd vpage accessed = do {
     (pte, s) \<leftarrow> lookup_page s pd vpage False;
     if pte \<noteq> 0 then
       if accessed then Some (poke s pte (get32 (vmem s) pte OR PTE_A))
       else invalidate_pagedir (poke s pte (get32 (vmem s) pte AND NOT PTE_A)) pd
     else Some s
   }"

text \<open>\<open>paging_init\<close>: one round of the loop fills in the entry of one page of memory.\<close>

definition paging_step :: "u32 \<Rightarrow> u32 \<Rightarrow> u32 \<Rightarrow> nat \<Rightarrow> u32 \<times> vm \<Rightarrow> (u32 \<times> vm) option" where
  "paging_step start end_kernel_text pd page = (\<lambda>(pt, s). do {
     vaddr \<leftarrow> ptov (of_nat page * PGSIZE);
     let pde_idx = pd_no vaddr;
     let pte_idx = pt_no vaddr;
     let in_kernel_text = (start \<le> vaddr \<and> vaddr < end_kernel_text);
     (pt, s) \<leftarrow>
       (if get32 (vmem s) (pd + 4 * pde_idx) = 0 then do {
          (pt, g) \<leftarrow> palloc_get_page (pgs s) {PAL_ASSERT, PAL_ZERO};
          e \<leftarrow> pde_create pt;
          Some (pt, poke (s\<lparr>pgs := g\<rparr>) (pd + 4 * pde_idx) e)
        }
        else Some (pt, s));
     e \<leftarrow> pte_create_kernel vaddr (\<not> in_kernel_text);
     Some (pt, poke s (pt + 4 * pte_idx) e)
   })"

definition paging_init :: "u32 \<Rightarrow> u32 \<Rightarrow> vm \<Rightarrow> vm option" where
  "paging_init start end_kernel_text s = do {
     (pd, g) \<leftarrow> palloc_get_page (pgs s) {PAL_ASSERT, PAL_ZERO};
     let s = s\<lparr>pgs := g, init_page_dir := pd\<rparr>;
     (pt, s) \<leftarrow> for_range 0 (unat (init_ram_pages g)) (paging_step start end_kernel_text pd) (0, s);
     p \<leftarrow> vtop pd;
     Some (s\<lparr>cr3 := p, cr3_loads := Suc (cr3_loads s)\<rparr>)
   }"

section \<open>Entries\<close>

text \<open>The page an entry refers to, as a kernel address.\<close>

definition entry_page :: "u32 \<Rightarrow> u32" where
  "entry_page e = (e AND PTE_ADDR) + PHYS_BASE"

lemma PTE_ADDR_eq: "PTE_ADDR = NOT (mask 12)"
  by (simp add: mask_eq_exp_minus_1)

lemma aligned_and_addr: "pg_ofs x = 0 \<Longrightarrow> x AND PTE_ADDR = x"
proof -
  assume "pg_ofs x = 0"
  then have x: "x AND mask 12 = 0" by (simp add: pg_ofs_def PGMASK_eq)
  have "x = (x AND mask 12) OR (x AND NOT (mask 12))" by (rule bit_word_eqI) (auto simp: bit_simps)
  then show ?thesis unfolding PTE_ADDR_eq using x by simp
qed

lemma entry_bits:
  assumes "pg_ofs x = 0" "f AND PTE_ADDR = 0"
  shows "(x OR f) AND PTE_ADDR = x"
  using assms by (simp only: bit.conj_disj_distrib2 aligned_and_addr) simp

lemma entry_flags:
  assumes "pg_ofs x = 0" "g AND PTE_ADDR = 0"
  shows "(x OR f) AND g = f AND g"
proof -
  have "x AND g = x AND (PTE_ADDR AND g)" using aligned_and_addr [OF assms(1)] by (metis and.assoc)
  then have "x AND g = 0" using assms(2) by (simp add: and.commute)
  then show ?thesis by (simp add: bit.conj_disj_distrib2)
qed

lemma pg_ofs_add: "unat c mod 4096 = 0 \<Longrightarrow> pg_ofs (x + c) = pg_ofs x"
proof -
  assume c: "unat c mod 4096 = 0"
  have "unat (x + c) mod 4096 = (unat x + unat c) mod 4096"
    unfolding unat_word_ariths by (rule mod_mod_cancel) simp
  also have "\<dots> = unat x mod 4096" using c by (metis add.right_neutral mod_add_right_eq)
  finally show ?thesis by (simp only: word_unat_eq_iff unat_pg_ofs)
qed

lemma pg_ofs_base: "pg_ofs (x - PHYS_BASE) = pg_ofs x" "pg_ofs (x + PHYS_BASE) = pg_ofs x"
proof -
  have "x - PHYS_BASE = x + 0x40000000" by simp
  then show "pg_ofs (x - PHYS_BASE) = pg_ofs x" using pg_ofs_add [of "0x40000000" x] by (simp only:) simp
  show "pg_ofs (x + PHYS_BASE) = pg_ofs x" by (rule pg_ofs_add) simp
qed

lemma entry_page_aligned: "pg_ofs (entry_page e) = 0"
proof -
  have "pg_ofs (e AND PTE_ADDR) = 0"
    unfolding pg_ofs_def PGMASK_eq PTE_ADDR_eq by (rule bit_word_eqI) (auto simp: bit_simps)
  then show ?thesis by (simp only: entry_page_def pg_ofs_base)
qed

text \<open>The entries \<open>pde_create\<close> and \<open>pte_create_user\<close> make refer to the page they were made for.\<close>

lemma made_entry:
  assumes "pg_ofs p = 0" "is_kernel_vaddr p" "f AND PTE_ADDR = 0"
  defines "e \<equiv> (p - PHYS_BASE) OR f"
  shows "entry_page e = p" "e AND PTE_ADDR < PHYS_BASE" "g AND PTE_ADDR = 0 \<Longrightarrow> e AND g = f AND g"
proof -
  have o: "pg_ofs (p - PHYS_BASE) = 0" using assms(1) by (simp only: pg_ofs_base)
  have a: "e AND PTE_ADDR = p - PHYS_BASE" unfolding e_def by (rule entry_bits [OF o assms(3)])
  show "entry_page e = p" unfolding entry_page_def a by simp
  have "unat (p - PHYS_BASE) = unat p - 0xc0000000"
    using assms(2) by (simp add: is_kernel_vaddr_def unat_sub)
  then show "e AND PTE_ADDR < PHYS_BASE" unfolding a using unat_lt_32 [of p] by (simp add: word_less_nat_alt)
  show "g AND PTE_ADDR = 0 \<Longrightarrow> e AND g = f AND g" unfolding e_def by (rule entry_flags [OF o])
qed

lemma pde_create_run:
  assumes "pg_ofs p = 0" "is_kernel_vaddr p"
  shows "\<exists>e. pde_create p = Some e \<and> e \<noteq> 0 \<and> e AND PTE_P \<noteq> 0 \<and> e AND PTE_ADDR < PHYS_BASE \<and> entry_page e = p"
proof -
  define e where "e = (p - PHYS_BASE) OR 7"
  have "pde_create p = Some e" using assms by (simp add: pde_create_def vtop_def e_def or.assoc)
  moreover have "e AND PTE_P = 7 AND PTE_P" unfolding e_def using assms by (rule made_entry(3)) simp_all
  moreover have "entry_page e = p" "e AND PTE_ADDR < PHYS_BASE"
    unfolding e_def using assms by (rule made_entry; simp)+
  ultimately show ?thesis by auto
qed

lemma pte_create_user_run:
  assumes "pg_ofs p = 0" "is_kernel_vaddr p"
  shows "\<exists>e. pte_create_user p w = Some e \<and> e AND PTE_P \<noteq> 0 \<and> (e AND PTE_W \<noteq> 0 \<longleftrightarrow> w) \<and>
    e AND PTE_U \<noteq> 0 \<and> e AND PTE_D = 0 \<and> e AND PTE_A = 0 \<and> e AND PTE_ADDR < PHYS_BASE \<and> entry_page e = p"
proof -
  define f :: u32 where "f = (if w then 7 else 5)"
  define e where "e = (p - PHYS_BASE) OR f"
  have f: "f AND PTE_ADDR = 0" by (simp add: f_def)
  have "pte_create_user p w = Some e"
    using assms by (simp add: pte_create_user_def pte_create_kernel_def vtop_def e_def f_def or.assoc)
  moreover have "e AND g = f AND g" if "g AND PTE_ADDR = 0" for g
    unfolding e_def using assms f that by (rule made_entry(3))
  from this [of PTE_P] this [of PTE_W] this [of PTE_U] this [of PTE_D] this [of PTE_A]
  have "e AND PTE_P \<noteq> 0" "e AND PTE_W \<noteq> 0 \<longleftrightarrow> w" "e AND PTE_U \<noteq> 0" "e AND PTE_D = 0" "e AND PTE_A = 0" by (auto simp: f_def)
  moreover have "entry_page e = p" "e AND PTE_ADDR < PHYS_BASE"
    unfolding e_def using made_entry(1,2) [OF assms f] by auto
  ultimately show ?thesis by auto
qed

section \<open>Page directories as maps\<close>

text \<open>
  The entry of a virtual address, if it has a page table, and the abstract view of a directory: which page an
  address is mapped to and whether it may be written.
\<close>

definition pd_entry :: "pages \<Rightarrow> u32 \<Rightarrow> u32 \<Rightarrow> u32 option" where
  "pd_entry g pd va =
     (let d = get32 (memory g) (slot pd (pd_no va)) in
      if d = 0 then None else Some (get32 (memory g) (slot (entry_page d) (pt_no va))))"

definition pd_lookup :: "pages \<Rightarrow> u32 \<Rightarrow> u32 \<Rightarrow> (u32 \<times> bool) option" where
  "pd_lookup g pd va =
     (case pd_entry g pd va of
        Some e \<Rightarrow> if e AND PTE_P \<noteq> 0 then Some (entry_page e, e AND PTE_W \<noteq> 0) else None
      | None \<Rightarrow> None)"

text \<open>
  The invariant: the directory and its page tables for user addresses are pages in use, no two the
  same, and a present entry holds a physical address below the kernel's.
\<close>

definition table_ok :: "pages \<Rightarrow> u32 \<Rightarrow> u32 \<Rightarrow> bool" where
  "table_ok g pd d \<longleftrightarrow> d AND PTE_P \<noteq> 0 \<and> d AND PTE_ADDR < PHYS_BASE \<and>
     unat (pg_no (entry_page d)) \<in> pages_used g \<and> entry_page d \<noteq> pd \<and>
     (\<forall>j. unat j < 1024 \<longrightarrow> (let e = get32 (memory g) (slot (entry_page d) j) in
        e AND PTE_P \<noteq> 0 \<longrightarrow> e AND PTE_ADDR < PHYS_BASE))"

definition pd_ok :: "pages \<Rightarrow> u32 \<Rightarrow> bool" where
  "pd_ok g pd \<longleftrightarrow> pages_ok g \<and> pd \<noteq> 0 \<and> pg_ofs pd = 0 \<and> unat (pg_no pd) \<in> pages_used g \<and>
     (\<forall>i. unat i < 768 \<longrightarrow> get32 (memory g) (slot pd i) \<noteq> 0 \<longrightarrow> table_ok g pd (get32 (memory g) (slot pd i))) \<and>
     (\<forall>i j. unat i < 768 \<longrightarrow> unat j < 768 \<longrightarrow> get32 (memory g) (slot pd i) \<noteq> 0 \<longrightarrow> get32 (memory g) (slot pd j) \<noteq> 0 \<longrightarrow>
        entry_page (get32 (memory g) (slot pd i)) = entry_page (get32 (memory g) (slot pd j)) \<longrightarrow> i = j)"

lemma pt_no_less: "unat (pt_no va) < 1024"
  by (simp add: unat_pt_no)

lemma pd_no_less: "unat (pd_no va) < 1024" "is_user_vaddr va \<Longrightarrow> unat (pd_no va) < 768"
proof -
  show "unat (pd_no va) < 1024" using unat_lt_32 [of va] by (simp add: unat_pd_no div_less_iff_less_mult)
  show "unat (pd_no va) < 768" if "is_user_vaddr va"
    using that by (simp add: unat_pd_no is_user_vaddr_def word_less_nat_alt div_less_iff_less_mult)
qed

lemma same_entry: "pd_no a = pd_no b \<and> pt_no a = pt_no b \<longleftrightarrow> pg_no a = pg_no b"
proof -
  have d: "(x :: nat) div 4194304 = x div 4096 div 1024" for x by (simp add: div_mult2_eq [symmetric])
  have "(x :: nat) div 1024 = y div 1024 \<and> x mod 1024 = y mod 1024 \<longleftrightarrow> x = y" for x y
    by (metis div_mult_mod_eq)
  then show ?thesis by (simp only: word_unat_eq_iff unat_pd_no unat_pt_no unat_pg_no d)
qed

lemma pd_okD:
  assumes "pd_ok g pd" "unat i < 768" "get32 (memory g) (slot pd i) \<noteq> 0"
  shows "table_ok g pd (get32 (memory g) (slot pd i))" "is_kernel_vaddr (entry_page (get32 (memory g) (slot pd i)))"
    "\<And>j. unat j < 1024 \<Longrightarrow> slot (entry_page (get32 (memory g) (slot pd i))) j \<noteq> 0"
proof -
  let ?t = "entry_page (get32 (memory g) (slot pd i))"
  show t: "table_ok g pd (get32 (memory g) (slot pd i))" using assms by (auto simp: pd_ok_def)
  then have u: "pages_ok g" "unat (pg_no ?t) \<in> pages_used g" using assms(1) by (auto simp: pd_ok_def table_ok_def)
  show "is_kernel_vaddr ?t" by (rule used_kernel [OF u entry_page_aligned])
  show "slot ?t j \<noteq> 0" if "unat j < 1024" for j
  proof
    assume "slot ?t j = 0"
    then have "pg_no ?t = pg_no 0" using slot_run(2) [OF entry_page_aligned that, of "get32 (memory g) (slot pd i)"] by simp
    then have "?t = 0" using entry_page_aligned [of "get32 (memory g) (slot pd i)"]
      unfolding page_aligned by (simp add: pg_no_def unat_eq_0)
    then show False using used_kernel(2) [OF u entry_page_aligned] by simp
  qed
qed

lemma lookup_existing:
  assumes "pd_ok (pgs s) pd" "is_user_vaddr va" "get32 (vmem s) (slot pd (pd_no va)) \<noteq> 0"
  shows "lookup_page s pd va create = Some (slot (entry_page (get32 (vmem s) (slot pd (pd_no va)))) (pt_no va), s)"
proof -
  have "table_ok (pgs s) pd (get32 (vmem s) (slot pd (pd_no va)))" using pd_okD(1) [OF assms(1) pd_no_less(2) assms(3)] assms(2) by simp
  then show ?thesis using assms
    by (simp add: lookup_page_def pd_ok_def table_ok_def pde_get_pt_def ptov_def Let_def entry_page_def slot_def)
qed

lemma lookup_missing:
  assumes "pd \<noteq> 0" "get32 (vmem s) (slot pd (pd_no va)) = 0"
  shows "lookup_page s pd va False = Some (0, s)"
  using assms by (simp add: lookup_page_def Let_def slot_def)

text \<open>Writing an entry of a page table that the directory has.\<close>

lemma pd_write:
  assumes ok: "pd_ok g pd" and va: "is_user_vaddr va" and d: "get32 (memory g) (slot pd (pd_no va)) \<noteq> 0"
    and e: "e AND PTE_P \<noteq> 0 \<longrightarrow> e AND PTE_ADDR < PHYS_BASE"
  defines "g' \<equiv> g\<lparr>memory := put32 (memory g) (slot (entry_page (get32 (memory g) (slot pd (pd_no va)))) (pt_no va)) e\<rparr>"
  shows "pd_ok g' pd"
    "is_user_vaddr v \<Longrightarrow> pd_entry g' pd v = (if pg_no v = pg_no va then Some e else pd_entry g pd v)"
proof -
  let ?d = "\<lambda>i. get32 (memory g) (slot pd i)" and ?T = "entry_page (get32 (memory g) (slot pd (pd_no va)))"
  have T: "?T \<noteq> pd" using pd_okD(1) [OF ok pd_no_less(2) [OF va] d] by (simp add: table_ok_def)
  have pd: "pg_ofs pd = 0" "pages_ok g" using ok by (auto simp: pd_ok_def)
  have dir: "get32 (memory g') (slot pd i) = ?d i" if "unat i < 1024" for i
    using put32_slot [OF entry_page_aligned pt_no_less pd(1) that] T by (simp add: g'_def)
  have tab: "get32 (memory g') (slot (entry_page x) j) = (if ?T = entry_page x \<and> pt_no va = j then e
      else get32 (memory g) (slot (entry_page x) j))" if "unat j < 1024" for x j
    using put32_slot [OF entry_page_aligned pt_no_less entry_page_aligned that] by (simp add: g'_def)
  have used: "pages_used g' = pages_used g" "pages_ok g'" using pd(2) by (auto simp: g'_def pages_used_def pages_ok_def)
  have "table_ok g' pd (?d i)" if "unat i < 768" "?d i \<noteq> 0" for i
    using pd_okD(1) [OF ok that] e by (auto simp: table_ok_def used tab Let_def)
  then show "pd_ok g' pd" using ok used unfolding pd_ok_def by (auto simp: dir)
  show "pd_entry g' pd v = (if pg_no v = pg_no va then Some e else pd_entry g pd v)" if v: "is_user_vaddr v"
  proof -
    have "?T = entry_page (?d (pd_no v)) \<longleftrightarrow> pd_no v = pd_no va" if "?d (pd_no v) \<noteq> 0"
      using ok pd_no_less(2) [OF va] pd_no_less(2) [OF v] d that unfolding pd_ok_def by metis
    then show ?thesis using same_entry [of v va] d
      by (auto simp: pd_entry_def Let_def dir pd_no_less tab pt_no_less)
  qed
qed

lemma zero_page_run:
  assumes "pages_ok g" "palloc_get_page g {PAL_ZERO} = Some (pt, g1)"
  shows "init_ram_pages g1 = init_ram_pages g" "pt = 0 \<Longrightarrow> g1 = g"
    "pt \<noteq> 0 \<Longrightarrow> pg_ofs pt = 0" "pt \<noteq> 0 \<Longrightarrow> is_kernel_vaddr pt" "pt \<noteq> 0 \<Longrightarrow> pg_no x = pg_no pt \<Longrightarrow> memory g1 x = 0"
  using palloc_get_run [OF assms(1), of 1 "{PAL_ZERO}"] assms(2) by (auto simp: palloc_get_page_def page_group_1)

text \<open>Entering a new page table into the directory.\<close>

lemma pd_add_table:
  assumes ok: "pd_ok g pd" and va: "is_user_vaddr va" and d: "get32 (memory g) (slot pd (pd_no va)) = 0"
    and get: "palloc_get_page g {PAL_ZERO} = Some (pt, g1)" "pt \<noteq> 0" and e: "pde_create pt = Some e"
  defines "g2 \<equiv> g1\<lparr>memory := put32 (memory g1) (slot pd (pd_no va)) e\<rparr>"
  shows "pd_ok g2 pd" "get32 (memory g2) (slot pd (pd_no va)) = e" "e \<noteq> 0"
    "is_user_vaddr v \<Longrightarrow> pd_entry g2 pd v = (if pd_no v = pd_no va then Some 0 else pd_entry g pd v)"
proof -
  have pd: "pg_ofs pd = 0" "pages_ok g" "unat (pg_no pd) \<in> pages_used g" using ok by (auto simp: pd_ok_def)
  note f = zero_pages.get_frame [OF pd(2) get(1)] and z = zero_page_run(3-5) [OF pd(2) get]
  have E: "e \<noteq> 0" "e AND PTE_P \<noteq> 0" "e AND PTE_ADDR < PHYS_BASE" "entry_page e = pt"
    using pde_create_run [OF z(1,2)] e by auto
  then show "e \<noteq> 0" by simp
  have frame: "get32 (memory g1) (slot p i) = get32 (memory g) (slot p i)"
    if "pg_ofs p = 0" "unat i < 1024" "unat (pg_no p) \<in> pages_used g" for p i
    using that f(3) by (intro get32_page) auto
  have npt: "pd \<noteq> pt" using pd(3) f(4) [OF get(2)] by auto
  have dir: "get32 (memory g2) (slot pd i) = (if i = pd_no va then e else get32 (memory g) (slot pd i))" if "unat i < 1024" for i
    using put32_slot [OF pd(1) pd_no_less(1) pd(1) that] frame [OF pd(1) that pd(3)] by (auto simp: g2_def)
  have new: "get32 (memory g2) (slot pt j) = 0" if "unat j < 1024" for j
    using put32_slot [OF pd(1) pd_no_less(1) z(1) that] npt get32_zero_page [OF z(1) that z(3)] by (simp add: g2_def)
  have old: "get32 (memory g2) (slot (entry_page x) j) = get32 (memory g) (slot (entry_page x) j)"
    if "table_ok g pd x" "unat j < 1024" for x j
    using put32_slot [OF pd(1) pd_no_less(1) entry_page_aligned that(2)] that frame [OF entry_page_aligned that(2)]
    by (auto simp: g2_def table_ok_def)
  have used: "pages_used g2 = pages_used g1" "pages_ok g2" using f(1) by (auto simp: g2_def pages_used_def pages_ok_def)
  have t: "table_ok g2 pd x" "entry_page x \<noteq> pt" if "table_ok g pd x" for x
    using that f(2) f(4) [OF get(2)] by (auto simp: table_ok_def used old [OF that])
  have te: "table_ok g2 pd e" using E npt f(4) [OF get(2)] by (auto simp: table_ok_def used new)
  have tab: "table_ok g pd (get32 (memory g) (slot pd i))" if "unat i < 768" "get32 (memory g) (slot pd i) \<noteq> 0" for i
    using ok that by (auto simp: pd_ok_def)
  have ne: "pt \<noteq> entry_page (get32 (memory g) (slot pd i))" if "unat i < 768" "get32 (memory g) (slot pd i) \<noteq> 0" for i
    using t(2) [OF tab [OF that]] by simp
  show "pd_ok g2 pd"
    using ok used f(2) te t(1) tab unfolding pd_ok_def by (auto simp: dir E ne ne [symmetric])
  show "get32 (memory g2) (slot pd (pd_no va)) = e" by (simp add: dir pd_no_less)
  show "pd_entry g2 pd v = (if pd_no v = pd_no va then Some 0 else pd_entry g pd v)" if "is_user_vaddr v"
    using old [OF tab [OF pd_no_less(2) [OF that]] pt_no_less]
    by (auto simp: pd_entry_def Let_def dir pd_no_less E new pt_no_less)
qed

section \<open>The operations on the map\<close>

definition same_regs :: "vm \<Rightarrow> vm \<Rightarrow> bool" where
  "same_regs s s' \<longleftrightarrow> init_page_dir s' = init_page_dir s \<and> cr3 s' = cr3 s \<and> cr3_loads s' = cr3_loads s"

lemma poke_simps [simp]: "pgs (poke s a v) = pgs s\<lparr>memory := put32 (vmem s) a v\<rparr>" "init_page_dir (poke s a v) = init_page_dir s"
    "cr3 (poke s a v) = cr3 s" "cr3_loads (poke s a v) = cr3_loads s"
  by (simp_all add: poke_def)

lemma lookup_create:
  assumes ok: "pd_ok (pgs s) pd" and va: "is_user_vaddr va"
  shows "\<exists>pte s'. lookup_page s pd va True = Some (pte, s') \<and> pd_ok (pgs s') pd \<and> same_regs s s' \<and>
    (\<forall>v. is_user_vaddr v \<longrightarrow> pd_lookup (pgs s') pd v = pd_lookup (pgs s) pd v) \<and>
    (pd_lookup (pgs s) pd va \<noteq> None \<longrightarrow> pte \<noteq> 0) \<and>
    (pte = 0 \<or> pte \<noteq> 0 \<and> get32 (vmem s') (slot pd (pd_no va)) \<noteq> 0 \<and>
       pte = slot (entry_page (get32 (vmem s') (slot pd (pd_no va)))) (pt_no va))"
proof (cases "get32 (vmem s) (slot pd (pd_no va)) = 0")
  case False
  then show ?thesis
    using lookup_existing [OF ok va False] ok pd_okD(3) [OF ok pd_no_less(2) [OF va] False pt_no_less] by (simp add: same_regs_def)
next
  case True
  have g: "pages_ok (pgs s)" and pd0: "pd \<noteq> 0" using ok by (auto simp: pd_ok_def)
  obtain pt g1 where get: "palloc_get_page (pgs s) {PAL_ZERO} = Some (pt, g1)"
    using zero_pages.get_ok [OF g] by blast
  show ?thesis
  proof (cases "pt = 0")
    case pt: True
    then have "g1 = pgs s" using zero_page_run(2) [OF g get] by simp
    moreover have "pd_lookup (pgs s) pd va = None" using True by (simp add: pd_lookup_def pd_entry_def)
    ultimately show ?thesis using ok True pt get va pd0 by (simp add: lookup_page_def Let_def slot_def same_regs_def)
  next
    case pt: False
    obtain e where e: "pde_create pt = Some e" using pde_create_run [OF zero_page_run(3,4) [OF g get pt]] by blast
    define s' where "s' = poke (s\<lparr>pgs := g1\<rparr>) (slot pd (pd_no va)) e"
    have pgs': "pgs s' = g1\<lparr>memory := put32 (memory g1) (slot pd (pd_no va)) e\<rparr>" by (simp add: s'_def)
    note add = pd_add_table [OF ok va True get pt e, folded pgs']
    have "lookup_page s' pd va True = lookup_page s pd va True"
      using True add(2,3) va pd0 get pt e by (simp add: lookup_page_def Let_def slot_def s'_def)
    moreover have d: "get32 (vmem s') (slot pd (pd_no va)) \<noteq> 0" using add(2,3) by simp
    ultimately have "lookup_page s pd va True = Some (slot (entry_page (get32 (vmem s') (slot pd (pd_no va)))) (pt_no va), s')"
      using lookup_existing [OF add(1) va d] by simp
    moreover have "pd_lookup (pgs s') pd v = pd_lookup (pgs s) pd v" if "is_user_vaddr v" for v
      using add(4) [OF that] True by (auto simp: pd_lookup_def pd_entry_def split: if_splits)
    moreover have "same_regs s s'" by (simp add: same_regs_def s'_def)
    ultimately show ?thesis using add(1) d pd_okD(3) [OF add(1) pd_no_less(2) [OF va] d pt_no_less] by auto
  qed
qed

lemma set_page_run:
  assumes ok: "pd_ok (pgs s) pd" "pd \<noteq> init_page_dir s" and up: "pg_ofs upage = 0" "is_user_vaddr upage"
    and kp: "pg_ofs kpage = 0" "is_kernel_vaddr kpage" "drop_bit PTSHIFT (kpage - PHYS_BASE) < init_ram_pages (pgs s)"
  shows "pd_lookup (pgs s) pd upage = None \<Longrightarrow> \<exists>b s'. pagedir_set_page s pd upage kpage w = Some (b, s') \<and>
      pd_ok (pgs s') pd \<and> same_regs s s' \<and> (\<forall>v. is_user_vaddr v \<longrightarrow>
        pd_lookup (pgs s') pd v = (if b \<and> pg_no v = pg_no upage then Some (kpage, w) else pd_lookup (pgs s) pd v))"
    "pd_lookup (pgs s) pd upage \<noteq> None \<Longrightarrow> pagedir_set_page s pd upage kpage w = None"
proof -
  obtain pte s1 where l: "lookup_page s pd upage True = Some (pte, s1)" "pd_ok (pgs s1) pd" "same_regs s s1"
      "\<And>v. is_user_vaddr v \<Longrightarrow> pd_lookup (pgs s1) pd v = pd_lookup (pgs s) pd v"
      "pd_lookup (pgs s) pd upage \<noteq> None \<longrightarrow> pte \<noteq> 0" "pte = 0 \<or> pte \<noteq> 0 \<and> get32 (vmem s1) (slot pd (pd_no upage)) \<noteq> 0 \<and>
         pte = slot (entry_page (get32 (vmem s1) (slot pd (pd_no upage)))) (pt_no upage)"
    using lookup_create [OF ok(1) up(2)] by blast
  obtain e where e: "pte_create_user kpage w = Some e" "e AND PTE_P \<noteq> 0" "e AND PTE_W \<noteq> 0 \<longleftrightarrow> w"
      "e AND PTE_ADDR < PHYS_BASE" "entry_page e = kpage"
    using pte_create_user_run [OF kp(1,2), of w] by blast
  have run: "pagedir_set_page s pd upage kpage w = (if pte \<noteq> 0
      then if get32 (vmem s1) pte AND PTE_P = 0 then Some (True, poke s1 pte e) else None else Some (False, s1))"
    using ok(2) up kp l(1) e(1) by (simp add: pagedir_set_page_def vtop_def ASSERT_bind)
  have free: "get32 (vmem s1) pte AND PTE_P = 0 \<longleftrightarrow> pd_lookup (pgs s) pd upage = None" if "pte \<noteq> 0"
    using l(4) [OF up(2)] l(6) that by (auto simp: pd_lookup_def pd_entry_def Let_def split: if_splits)
  show "pagedir_set_page s pd upage kpage w = None" if "pd_lookup (pgs s) pd upage \<noteq> None"
    using run free l(5) that by simp
  show "\<exists>b s'. pagedir_set_page s pd upage kpage w = Some (b, s') \<and>
      pd_ok (pgs s') pd \<and> same_regs s s' \<and> (\<forall>v. is_user_vaddr v \<longrightarrow>
        pd_lookup (pgs s') pd v = (if b \<and> pg_no v = pg_no upage then Some (kpage, w) else pd_lookup (pgs s) pd v))"
    if "pd_lookup (pgs s) pd upage = None"
  proof (cases "pte = 0")
    case True
    then show ?thesis using run l(2-4) by auto
  next
    case False
    then have t: "get32 (vmem s1) (slot pd (pd_no upage)) \<noteq> 0"
        "pte = slot (entry_page (get32 (vmem s1) (slot pd (pd_no upage)))) (pt_no upage)" using l(6) by auto
    note wr = pd_write [OF l(2) up(2) t(1) impI [OF e(4)], folded t(2)]
    have "pd_lookup (pgs (poke s1 pte e)) pd v = (if pg_no v = pg_no upage then Some (kpage, w) else pd_lookup (pgs s) pd v)"
      if "is_user_vaddr v" for v
      using wr(2) [OF that] l(4) [OF that] e(2,3,5) by (simp add: pd_lookup_def)
    moreover have "pd_ok (pgs (poke s1 pte e)) pd" "same_regs s (poke s1 pte e)" using wr(1) l(3) by (simp_all add: same_regs_def)
    ultimately show ?thesis using run free [OF False] that False by auto
  qed
qed

text \<open>An update of the entry of an address that has one; the others do not see it.\<close>

lemma lookup_update:
  assumes ok: "pd_ok (pgs s) pd" and va: "is_user_vaddr va" and "lookup_page s pd va False = Some (pte, s1)"
  shows "s1 = s" "pte = 0 \<longleftrightarrow> pd_entry (pgs s) pd va = None" "pte \<noteq> 0 \<Longrightarrow> pd_entry (pgs s) pd va = Some (get32 (vmem s) pte)"
    "pte \<noteq> 0 \<Longrightarrow> (e AND PTE_P \<noteq> 0 \<longrightarrow> e AND PTE_ADDR < PHYS_BASE) \<Longrightarrow> pd_ok (pgs (poke s pte e)) pd"
    "pte \<noteq> 0 \<Longrightarrow> (e AND PTE_P \<noteq> 0 \<longrightarrow> e AND PTE_ADDR < PHYS_BASE) \<Longrightarrow> is_user_vaddr v \<Longrightarrow>
      pd_entry (pgs (poke s pte e)) pd v = (if pg_no v = pg_no va then Some e else pd_entry (pgs s) pd v)"
    "pte \<noteq> 0 \<Longrightarrow> get32 (vmem s) pte AND PTE_P \<noteq> 0 \<Longrightarrow> get32 (vmem s) pte AND PTE_ADDR < PHYS_BASE"
proof -
  let ?d = "get32 (vmem s) (slot pd (pd_no va))"
  have pd: "pd \<noteq> 0" using ok by (simp add: pd_ok_def)
  have l: "s1 = s \<and> pte = (if ?d = 0 then 0 else slot (entry_page ?d) (pt_no va))"
    using lookup_missing [OF pd] lookup_existing [OF ok va] assms(3) by (cases "?d = 0") auto
  have t: "slot (entry_page ?d) (pt_no va) \<noteq> 0" "table_ok (pgs s) pd ?d" if "?d \<noteq> 0"
    using pd_okD [OF ok pd_no_less(2) [OF va] that] pt_no_less by auto
  show "s1 = s" "pte = 0 \<longleftrightarrow> pd_entry (pgs s) pd va = None" "pte \<noteq> 0 \<Longrightarrow> pd_entry (pgs s) pd va = Some (get32 (vmem s) pte)"
    using l t by (auto simp: pd_entry_def Let_def)
  assume p: "pte \<noteq> 0"
  then have d: "?d \<noteq> 0" "pte = slot (entry_page ?d) (pt_no va)" using l by (auto split: if_splits)
  show "get32 (vmem s) pte AND PTE_ADDR < PHYS_BASE" if "get32 (vmem s) pte AND PTE_P \<noteq> 0"
    using t(2) [OF d(1)] that d(2) pt_no_less by (auto simp: table_ok_def Let_def)
  assume e: "e AND PTE_P \<noteq> 0 \<longrightarrow> e AND PTE_ADDR < PHYS_BASE"
  note wr = pd_write [OF ok va d(1) e, folded d(2)]
  show "pd_ok (pgs (poke s pte e)) pd" using wr(1) by simp
  show "pd_entry (pgs (poke s pte e)) pd v = (if pg_no v = pg_no va then Some e else pd_entry (pgs s) pd v)" if "is_user_vaddr v"
    using wr(2) [OF that] by simp
qed

lemma pd_entry_page: "pg_no a = pg_no b \<Longrightarrow> pd_entry g pd a = pd_entry g pd b"
  using same_entry [of a b] by (simp add: pd_entry_def Let_def)

lemma lookup_total: "pd_ok (pgs s) pd \<Longrightarrow> is_user_vaddr va \<Longrightarrow> \<exists>pte. lookup_page s pd va False = Some (pte, s)"
  using lookup_existing lookup_missing by (cases "get32 (vmem s) (slot pd (pd_no va)) = 0") (auto simp: pd_ok_def)

lemma get_page_run:
  assumes "pd_ok (pgs s) pd" "is_user_vaddr va"
  shows "pagedir_get_page s pd va = Some (case pd_lookup (pgs s) pd va of None \<Rightarrow> 0 | Some (k, w) \<Rightarrow> k + pg_ofs va)"
proof -
  obtain pte where l: "lookup_page s pd va False = Some (pte, s)" using lookup_total [OF assms] by blast
  note u = lookup_update [OF assms l]
  show ?thesis
  proof (cases "pte \<noteq> 0 \<and> get32 (vmem s) pte AND PTE_P \<noteq> 0")
    case True
    then show ?thesis using u(3,6) l assms(2)
      by (simp add: pagedir_get_page_def pte_get_page_def ptov_def pd_lookup_def entry_page_def)
  next
    case False
    then show ?thesis using u(2,3) l assms(2)
      by (auto simp: pagedir_get_page_def pd_lookup_def split: option.splits)
  qed
qed

text \<open>The buffer of translations is emptied when the directory is the active one.\<close>

definition active :: "vm \<Rightarrow> u32 \<Rightarrow> bool" where
  "active s pd \<longleftrightarrow> cr3 s + PHYS_BASE = pd"

lemma invalidate_run:
  assumes "cr3 s < PHYS_BASE" "pd_ok g pd"
  shows "invalidate_pagedir s pd = Some (if active s pd then s\<lparr>cr3_loads := Suc (cr3_loads s)\<rparr> else s)"
proof -
  have pd: "is_kernel_vaddr pd" "pd \<noteq> 0" using assms(2) used_kernel by (auto simp: pd_ok_def)
  then have "vtop pd = Some (cr3 s)" if "active s pd" using that by (auto simp: active_def vtop_def)
  then show ?thesis using assms(1) pd
    by (auto simp: invalidate_pagedir_def active_pd_def ptov_def pagedir_activate_def active_def)
qed

lemma flag_bits:
  fixes e f x :: u32
  shows "f AND x = 0 \<Longrightarrow> (e OR f) AND x = e AND x" "f AND x = 0 \<Longrightarrow> (e AND NOT f) AND x = e AND x"
    "(e OR f) AND f = f" "(e AND NOT f) AND f = 0"
  by (auto simp: bit_eq_iff bit_simps)

lemma clear_page_run:
  assumes ok: "pd_ok (pgs s) pd" and up: "pg_ofs upage = 0" "is_user_vaddr upage" and c: "cr3 s < PHYS_BASE"
  shows "\<exists>s'. pagedir_clear_page s pd upage = Some s' \<and> pd_ok (pgs s') pd \<and> cr3 s' = cr3 s \<and>
    init_page_dir s' = init_page_dir s \<and>
    cr3_loads s' = cr3_loads s + (if active s pd \<and> pd_lookup (pgs s) pd upage \<noteq> None then 1 else 0) \<and>
    (\<forall>v. is_user_vaddr v \<longrightarrow> pd_lookup (pgs s') pd v = (if pg_no v = pg_no upage then None else pd_lookup (pgs s) pd v))"
proof -
  obtain pte where l: "lookup_page s pd upage False = Some (pte, s)" using lookup_total [OF ok up(2)] by blast
  note u = lookup_update [OF ok up(2) l]
  have same: "pd_lookup (pgs s) pd v = pd_lookup (pgs s) pd upage" if "pg_no v = pg_no upage" for v
    using pd_entry_page [OF that] by (simp add: pd_lookup_def)
  show ?thesis
  proof (cases "pte \<noteq> 0 \<and> get32 (vmem s) pte AND PTE_P \<noteq> 0")
    case True
    let ?e = "get32 (vmem s) pte AND NOT PTE_P"
    have e: "?e AND PTE_P = 0" by (rule flag_bits)
    then have "\<forall>v. is_user_vaddr v \<longrightarrow> pd_lookup (pgs (poke s pte ?e)) pd v = (if pg_no v = pg_no upage then None else pd_lookup (pgs s) pd v)"
      using u(5) [of ?e] True by (simp add: pd_lookup_def)
    moreover have "pd_ok (pgs (poke s pte ?e)) pd" using u(4) [of ?e] True e by simp
    moreover have "pd_lookup (pgs s) pd upage \<noteq> None" using u(3) True by (simp add: pd_lookup_def)
    moreover have "pagedir_clear_page s pd upage = invalidate_pagedir (poke s pte ?e) pd"
      using l True up by (simp add: pagedir_clear_page_def)
    moreover have "invalidate_pagedir (poke s pte ?e) pd =
        Some (if active s pd then poke s pte ?e\<lparr>cr3_loads := Suc (cr3_loads s)\<rparr> else poke s pte ?e)"
      using invalidate_run [of "poke s pte ?e", OF _ ok] c by (simp add: active_def)
    ultimately show ?thesis by (cases "active s pd") simp_all
  next
    case False
    then have "pd_lookup (pgs s) pd upage = None" using u(2,3) by (cases "pte = 0") (simp_all add: pd_lookup_def)
    then have "pd_lookup (pgs s) pd v = (if pg_no v = pg_no upage then None else pd_lookup (pgs s) pd v)" for v
      using same [of v] by simp
    moreover have "pagedir_clear_page s pd upage = Some s"
      unfolding pagedir_clear_page_def using l False up by (cases "pte = 0") simp_all
    ultimately show ?thesis using ok \<open>pd_lookup (pgs s) pd upage = None\<close> by simp
  qed
qed

section \<open>The dirty and the accessed bit\<close>

definition pd_flag :: "pages \<Rightarrow> u32 \<Rightarrow> u32 \<Rightarrow> u32 \<Rightarrow> bool" where
  "pd_flag g pd f va \<longleftrightarrow> (case pd_entry g pd va of None \<Rightarrow> False | Some e \<Rightarrow> e AND f \<noteq> 0)"

lemma flag_read:
  assumes "pd_ok (pgs s) pd" "is_user_vaddr va"
  shows "pagedir_is_dirty s pd va = Some (pd_flag (pgs s) pd PTE_D va)"
    "pagedir_is_accessed s pd va = Some (pd_flag (pgs s) pd PTE_A va)"
proof -
  obtain pte where l: "lookup_page s pd va False = Some (pte, s)" using lookup_total [OF assms] by blast
  from lookup_update(2,3) [OF assms l]
  show "pagedir_is_dirty s pd va = Some (pd_flag (pgs s) pd PTE_D va)"
    "pagedir_is_accessed s pd va = Some (pd_flag (pgs s) pd PTE_A va)"
    using l by (cases "pte = 0"; simp add: pagedir_is_dirty_def pagedir_is_accessed_def pd_flag_def)+
qed

text \<open>The routine that sets or clears the bit \<open>f\<close>, of which the code has two copies.\<close>

definition set_flag :: "u32 \<Rightarrow> vm \<Rightarrow> u32 \<Rightarrow> u32 \<Rightarrow> bool \<Rightarrow> vm option" where
  "set_flag f s pd vpage b = do {
     (pte, s) \<leftarrow> lookup_page s pd vpage False;
     if pte \<noteq> 0 then
       if b then Some (poke s pte (get32 (vmem s) pte OR f))
       else invalidate_pagedir (poke s pte (get32 (vmem s) pte AND NOT f)) pd
     else Some s
   }"

lemma set_flag_code: "pagedir_set_dirty = set_flag PTE_D" "pagedir_set_accessed = set_flag PTE_A"
  by (intro ext; simp add: pagedir_set_dirty_def pagedir_set_accessed_def set_flag_def)+

lemma set_flag_run:
  assumes ok: "pd_ok (pgs s) pd" and va: "is_user_vaddr va" and c: "cr3 s < PHYS_BASE"
    and f: "f \<noteq> 0" "f AND PTE_P = 0" "f AND PTE_W = 0" "f AND PTE_ADDR = 0"
  shows "\<exists>s'. set_flag f s pd va b = Some s' \<and> pd_ok (pgs s') pd \<and> cr3 s' = cr3 s \<and>
    cr3_loads s' = cr3_loads s + (if \<not> b \<and> active s pd \<and> pd_entry (pgs s) pd va \<noteq> None then 1 else 0) \<and>
    (\<forall>v. is_user_vaddr v \<longrightarrow> pd_lookup (pgs s') pd v = pd_lookup (pgs s) pd v) \<and>
    (\<forall>v x. is_user_vaddr v \<longrightarrow> pd_flag (pgs s') pd f v = (if pg_no v = pg_no va \<and> pd_entry (pgs s) pd va \<noteq> None then b else pd_flag (pgs s) pd f v) \<and>
       (f AND x = 0 \<longrightarrow> pd_flag (pgs s') pd x v = pd_flag (pgs s) pd x v))"
proof -
  obtain pte where l: "lookup_page s pd va False = Some (pte, s)" using lookup_total [OF ok va] by blast
  note u = lookup_update [OF ok va l]
  show ?thesis
  proof (cases "pte = 0")
    case True
    then show ?thesis using l u(2) ok by (simp add: set_flag_def)
  next
    case False
    let ?o = "get32 (vmem s) pte"
    define e where "e = (if b then ?o OR f else ?o AND NOT f)"
    have e: "e AND x = ?o AND x" if "f AND x = 0" for x using flag_bits(1,2) [OF that, of ?o] by (simp add: e_def)
    have ef: "e AND f \<noteq> 0 \<longleftrightarrow> b" using flag_bits(3,4) [of ?o f] f(1) by (simp add: e_def)
    have E: "e AND PTE_P \<noteq> 0 \<longrightarrow> e AND PTE_ADDR < PHYS_BASE" using e u(6) [OF False] f(2,4) by simp
    note w = u(4,5) [OF False E]
    have same: "pd_entry (pgs s) pd v = Some ?o" if "pg_no v = pg_no va" for v
      using u(3) [OF False] pd_entry_page [OF that] by simp
    have "pd_lookup (pgs (poke s pte e)) pd v = pd_lookup (pgs s) pd v" if "is_user_vaddr v" for v
      using w(2) [OF that] same [of v] e [OF f(2)] e [OF f(3)] e [OF f(4)] by (simp add: pd_lookup_def entry_page_def)
    moreover have "pd_flag (pgs (poke s pte e)) pd f v = (if pg_no v = pg_no va then b else pd_flag (pgs s) pd f v)"
      "f AND x = 0 \<longrightarrow> pd_flag (pgs (poke s pte e)) pd x v = pd_flag (pgs s) pd x v" if "is_user_vaddr v" for v x
      using w(2) [OF that] same [of v] ef e [of x] by (simp_all add: pd_flag_def)
    moreover have "set_flag f s pd va b = Some (if \<not> b \<and> active s pd then poke s pte e\<lparr>cr3_loads := Suc (cr3_loads s)\<rparr> else poke s pte e)"
      using l False invalidate_run [of "poke s pte e", OF _ ok] c by (cases b) (simp_all add: set_flag_def e_def active_def)
    ultimately show ?thesis using w(1) u(3) [OF False] by (cases "\<not> b \<and> active s pd") simp_all
  qed
qed

section \<open>Creation\<close>

lemma kcopy_slot:
  assumes "unat i < 1024"
  shows "get32 (kcopy m dst src PGSIZE) (slot dst i) = get32 m (slot src i)"
proof -
  have i: "unat (4 * i) = 4 * unat i" "aligned4 (4 * i)" using assms by (simp_all add: unat_word_ariths aligned4_def)
  have "4 * i + of_nat k < PGSIZE" if "k < 4" for k
    using unat_add_small [OF i(2) that] i(1) assms that by (simp add: word_less_nat_alt)
  from this [of 0] this [of 1] this [of 2] this [of 3] show ?thesis
    by (simp add: get32_def kcopy_def slot_def add.assoc algebra_simps)
qed

lemma kcopy_other: "pg_ofs dst = 0 \<Longrightarrow> pg_no x \<noteq> pg_no dst \<Longrightarrow> kcopy m dst src PGSIZE x = m x"
proof -
  assume a: "pg_ofs dst = 0" "pg_no x \<noteq> pg_no dst"
  have d: "unat dst = 4096 * unat (pg_no dst)" using a(1) by (simp only: page_aligned)
  moreover have "unat (pg_no dst) < 2 ^ 20" using d unat_lt_32 [of dst] by simp
  ultimately have "unat dst + 4096 * unat (1 :: u32) \<le> 2 ^ 32" by simp
  from in_page_group [OF a(1) this] a(2) show ?thesis by (simp add: kcopy_def page_group_1 word_unat_eq_iff)
qed

lemma create_run:
  assumes "pages_ok (pgs s)" and ini: "pg_ofs (init_page_dir s) = 0" "unat (pg_no (init_page_dir s)) \<in> pages_used (pgs s)"
    and user: "\<And>i. unat i < 768 \<Longrightarrow> get32 (vmem s) (slot (init_page_dir s) i) = 0"
  shows "\<exists>pd s'. pagedir_create s = Some (pd, s') \<and> same_regs s s' \<and>
    (pd = 0 \<and> s' = s \<or>
     pd_ok (pgs s') pd \<and> unat (pg_no pd) \<notin> pages_used (pgs s) \<and> pages_used (pgs s') = insert (unat (pg_no pd)) (pages_used (pgs s)) \<and>
     (\<forall>v. is_user_vaddr v \<longrightarrow> pd_lookup (pgs s') pd v = None) \<and>
     (\<forall>i. unat i < 1024 \<longrightarrow> get32 (vmem s') (slot pd i) = get32 (vmem s) (slot (init_page_dir s) i)) \<and>
     (\<forall>x. pg_no x \<noteq> pg_no pd \<longrightarrow> vmem s' x = vmem s x))"
proof -
  obtain pd g where g: "palloc_get_page (pgs s) {} = Some (pd, g)" "pages_ok g"
      "pd = 0 \<and> g = pgs s \<or>
       pd \<noteq> 0 \<and> pg_ofs pd = 0 \<and> is_kernel_vaddr pd \<and> unat (pg_no pd) \<notin> pages_used (pgs s) \<and>
       pages_used g = insert (unat (pg_no pd)) (pages_used (pgs s)) \<and>
       (\<forall>x. pg_no x \<noteq> pg_no pd \<longrightarrow> memory g x = vmem s x)"
    using kernel_pages.get_ok [OF assms(1)] by blast
  show ?thesis
  proof (cases "pd = 0")
    case True
    then show ?thesis using g by (auto simp: pagedir_create_def same_regs_def)
  next
    case False
    define s' where "s' = s\<lparr>pgs := g\<lparr>memory := kcopy (memory g) pd (init_page_dir s) PGSIZE\<rparr>\<rparr>"
    have new: "pg_ofs pd = 0" "unat (pg_no pd) \<notin> pages_used (pgs s)" "pages_used g = insert (unat (pg_no pd)) (pages_used (pgs s))"
      "\<And>x. pg_no x \<noteq> pg_no pd \<Longrightarrow> memory g x = vmem s x" using g(3) False by auto
    have used: "pages_used (pgs s') = insert (unat (pg_no pd)) (pages_used (pgs s))" "pages_ok (pgs s')"
      using new(3) g(2) by (auto simp: s'_def pages_used_def pages_ok_def)
    have "pg_no (init_page_dir s) \<noteq> pg_no pd" using ini(2) new(2) by auto
    then have e: "get32 (vmem s') (slot pd i) = get32 (vmem s) (slot (init_page_dir s) i)" if "unat i < 1024" for i
      using kcopy_slot [OF that] get32_page [OF ini(1) that, of "memory g" "vmem s"] new(4) by (simp add: s'_def)
    have "pd_ok (pgs s') pd" using False new(1) used e user by (simp add: pd_ok_def)
    moreover have "pd_lookup (pgs s') pd v = None" if "is_user_vaddr v" for v
      using e pd_no_less user that by (simp add: pd_lookup_def pd_entry_def)
    moreover have "vmem s' x = vmem s x" if "pg_no x \<noteq> pg_no pd" for x
      using kcopy_other [OF new(1) that] new(4) [OF that] by (simp add: s'_def)
    moreover have "pagedir_create s = Some (pd, s')" "same_regs s s'"
      using g(1) False by (simp_all add: pagedir_create_def s'_def same_regs_def)
    ultimately show ?thesis using used(1) new(2) e by (intro exI [of _ pd] exI [of _ s']) auto
  qed
qed

section \<open>Destruction\<close>

text \<open>
  The pages a directory owns, in the order in which \<open>pagedir_destroy\<close> frees them: for each page table the pages
  mapped by it and then the table, and the directory at the end.
\<close>

definition pte_pages :: "pages \<Rightarrow> u32 \<Rightarrow> nat \<Rightarrow> nat list" where
  "pte_pages g pt j = concat (map (\<lambda>j. let e = get32 (memory g) (slot pt (of_nat j)) in
     if e AND PTE_P \<noteq> 0 then [unat (pg_no (entry_page e))] else []) [0..<j])"

definition pde_pages :: "pages \<Rightarrow> u32 \<Rightarrow> nat \<Rightarrow> nat list" where
  "pde_pages g pd i = concat (map (\<lambda>i. let d = get32 (memory g) (slot pd (of_nat i)) in
     if d AND PTE_P \<noteq> 0 then pte_pages g (entry_page d) 1024 @ [unat (pg_no (entry_page d))] else []) [0..<i])"

definition owned :: "pages \<Rightarrow> u32 \<Rightarrow> nat list" where
  "owned g pd = pde_pages g pd 768 @ [unat (pg_no pd)]"

text \<open>The allocator after the pages of a set have been freed.\<close>

definition freed :: "pages \<Rightarrow> pages \<Rightarrow> nat set \<Rightarrow> bool" where
  "freed g0 g F \<longleftrightarrow> pages_ok g \<and> pages_used g = pages_used g0 - F \<and> (\<forall>x. unat (pg_no x) \<notin> F \<longrightarrow> memory g x = memory g0 x)"

lemma freed_step:
  assumes "freed g0 g F" "pg_ofs p = 0" "unat (pg_no p) \<in> pages_used g0" "unat (pg_no p) \<notin> F"
  shows "\<exists>g'. palloc_free_page g p = Some g' \<and> freed g0 g' (insert (unat (pg_no p)) F)"
proof -
  have u: "pages_ok g" "unat (pg_no p) \<in> pages_used g" using assms by (auto simp: freed_def)
  from page_put_run [OF u(1) used_kernel(2) [OF u assms(2)] assms(2) u(2)]
  obtain g' where "palloc_free_page g p = Some g'" "pages_ok g'" "pages_used g' = pages_used g - {unat (pg_no p)}"
    "\<And>x. pg_no x \<noteq> pg_no p \<Longrightarrow> memory g' x = memory g x" by blast
  then show ?thesis using assms(1) by (auto simp: freed_def simp flip: word_unat_eq_iff)
qed

lemma freed_slot:
  assumes "freed g0 g F" "pg_ofs p = 0" "unat (pg_no p) \<notin> F" "j < 1024"
  shows "get32 (memory g) (slot p (of_nat j)) = get32 (memory g0) (slot p (of_nat j))"
proof -
  have "unat (of_nat j :: u32) = j" using assms(4) by (simp add: unsigned_of_nat take_bit_nat_eq_self)
  then show ?thesis using assms by (intro get32_page) (auto simp: freed_def)
qed

lemma free_table:
  assumes f: "freed g0 g F" and pt: "pg_ofs pt = 0" "unat (pg_no pt) \<notin> F \<union> set (pte_pages g0 pt 1024)"
    and own: "distinct (pte_pages g0 pt 1024)" "set (pte_pages g0 pt 1024) \<subseteq> pages_used g0 - F"
    and addr: "\<And>j. j < 1024 \<Longrightarrow> get32 (memory g0) (slot pt (of_nat j)) AND PTE_P \<noteq> 0 \<Longrightarrow>
      get32 (memory g0) (slot pt (of_nat j)) AND PTE_ADDR < PHYS_BASE"
  shows "\<exists>g'. for_range 0 1024 (free_pte pt) g = Some g' \<and> freed g0 g' (F \<union> set (pte_pages g0 pt 1024))"
proof (rule for_range_rule [where I = "\<lambda>j g. freed g0 g (F \<union> set (pte_pages g0 pt j))"])
  fix j g assume j: "0 \<le> j" "j < 1024" and I: "freed g0 g (F \<union> set (pte_pages g0 pt j))"
  have upt: "[0..<1024] = [0..<Suc j] @ [Suc j..<1024]" using j(2) upt_add_eq_append [of 0 "Suc j" "1024 - Suc j"] by simp
  have pre: "set (pte_pages g0 pt (Suc j)) \<subseteq> set (pte_pages g0 pt 1024)" "distinct (pte_pages g0 pt (Suc j))"
    using own(1) unfolding pte_pages_def upt by auto
  have suc: "pte_pages g0 pt (Suc j) = pte_pages g0 pt j @ (let e = get32 (memory g0) (slot pt (of_nat j)) in
     if e AND PTE_P \<noteq> 0 then [unat (pg_no (entry_page e))] else [])" by (simp add: pte_pages_def)
  let ?e = "get32 (memory g0) (slot pt (of_nat j))"
  have "unat (pg_no pt) \<notin> F \<union> set (pte_pages g0 pt j)" using pt(2) pre(1) suc by auto
  then have rd: "get32 (memory g) (pt + 4 * of_nat j) = ?e" using freed_slot [OF I pt(1) _ j(2)] by (simp add: slot_def)
  show "\<exists>g'. free_pte pt j g = Some g' \<and> freed g0 g' (F \<union> set (pte_pages g0 pt (Suc j)))"
  proof (cases "?e AND PTE_P = 0")
    case True
    then show ?thesis using I by (simp add: free_pte_def rd suc)
  next
    case False
    have "unat (pg_no (entry_page ?e)) \<in> pages_used g0" "unat (pg_no (entry_page ?e)) \<notin> F \<union> set (pte_pages g0 pt j)"
      using pre own(2) suc False by (auto simp: Let_def)
    from freed_step [OF I entry_page_aligned this] show ?thesis
      using addr [OF j(2)] False by (simp add: free_pte_def rd suc pte_get_page_def ptov_def entry_page_def Let_def)
  qed
qed (use f in \<open>simp_all add: pte_pages_def\<close>)

lemma pde_pages_Suc: "pde_pages g pd (Suc i) = pde_pages g pd i @ (let d = get32 (memory g) (slot pd (of_nat i)) in
     if d AND PTE_P \<noteq> 0 then pte_pages g (entry_page d) 1024 @ [unat (pg_no (entry_page d))] else [])"
  by (simp add: pde_pages_def)

lemma free_dir_entry:
  assumes ok: "pd_ok g0 pd" and own: "distinct (owned g0 pd)" "set (owned g0 pd) \<subseteq> pages_used g0"
    and i: "i < 768" and I: "freed g0 g (set (pde_pages g0 pd i))"
  shows "\<exists>g'. free_pde pd i g = Some g' \<and> freed g0 g' (set (pde_pages g0 pd (Suc i)))"
proof -
  let ?d = "get32 (memory g0) (slot pd (of_nat i))" and ?F = "set (pde_pages g0 pd i)"
  have upt: "[0..<768] = [0..<Suc i] @ [Suc i..<768]" using i upt_add_eq_append [of 0 "Suc i" "768 - Suc i"] by simp
  have "\<exists>xs. owned g0 pd = pde_pages g0 pd (Suc i) @ xs @ [unat (pg_no pd)]"
    unfolding owned_def pde_pages_def upt map_append concat_append by auto
  then have pre: "distinct (pde_pages g0 pd (Suc i))" "set (pde_pages g0 pd (Suc i)) \<subseteq> pages_used g0"
    "unat (pg_no pd) \<notin> set (pde_pages g0 pd (Suc i))" using own by auto
  have pd: "pg_ofs pd = 0" using ok by (simp add: pd_ok_def)
  have rd: "get32 (memory g) (pd + 4 * of_nat i) = ?d"
    using freed_slot [OF I pd, of i] pre(3) i by (simp add: slot_def pde_pages_Suc)
  show ?thesis
  proof (cases "?d AND PTE_P = 0")
    case True
    then show ?thesis using I by (simp add: free_pde_def rd pde_pages_Suc)
  next
    case False
    let ?T = "entry_page ?d"
    have "unat (of_nat i :: u32) < 768" using i by (simp add: unsigned_of_nat take_bit_nat_eq_self)
    moreover have "?d \<noteq> 0" using False by auto
    ultimately have t: "table_ok g0 pd ?d" by (rule pd_okD(1) [OF ok])
    have s: "pde_pages g0 pd (Suc i) = pde_pages g0 pd i @ pte_pages g0 ?T 1024 @ [unat (pg_no ?T)]"
      using False by (simp add: pde_pages_Suc Let_def)
    have addr: "get32 (memory g0) (slot ?T (of_nat j)) AND PTE_ADDR < PHYS_BASE"
      if "j < 1024" "get32 (memory g0) (slot ?T (of_nat j)) AND PTE_P \<noteq> 0" for j
      using t that by (auto simp: table_ok_def Let_def unsigned_of_nat take_bit_nat_eq_self)
    have T: "unat (pg_no ?T) \<notin> ?F \<union> set (pte_pages g0 ?T 1024)" "distinct (pte_pages g0 ?T 1024)"
        "set (pte_pages g0 ?T 1024) \<subseteq> pages_used g0 - ?F" "unat (pg_no ?T) \<in> pages_used g0"
      using pre(1,2) unfolding s by auto
    obtain g1 where g1: "for_range 0 1024 (free_pte ?T) g = Some g1" "freed g0 g1 (?F \<union> set (pte_pages g0 ?T 1024))"
      using free_table [OF I entry_page_aligned T(1-3)] addr by blast
    from freed_step [OF g1(2) entry_page_aligned T(4,1)]
    obtain g2 where "palloc_free_page g1 ?T = Some g2" "freed g0 g2 (insert (unat (pg_no ?T)) (?F \<union> set (pte_pages g0 ?T 1024)))"
      by auto
    moreover have "pde_get_pt ?d = Some ?T" using t by (simp add: table_ok_def pde_get_pt_def ptov_def entry_page_def)
    ultimately show ?thesis using g1(1) False by (auto simp: free_pde_def rd s Un_assoc Un_commute Let_def)
  qed
qed

lemma destroy_run:
  assumes ok: "pd_ok (pgs s) pd" "pd \<noteq> init_page_dir s"
    and own: "distinct (owned (pgs s) pd)" "set (owned (pgs s) pd) \<subseteq> pages_used (pgs s)"
  shows "\<exists>s'. pagedir_destroy s pd = Some s' \<and> same_regs s s' \<and> freed (pgs s) (pgs s') (set (owned (pgs s) pd))"
proof -
  have pd: "pg_ofs pd = 0" "pd \<noteq> 0" "pages_ok (pgs s)" using ok(1) by (auto simp: pd_ok_def)
  have n: "unat (pd_no PHYS_BASE) = 768" by (simp add: unat_pd_no)
  have "\<exists>g. for_range 0 768 (free_pde pd) (pgs s) = Some g \<and> freed (pgs s) g (set (pde_pages (pgs s) pd 768))"
    by (rule for_range_rule [where I = "\<lambda>i g. freed (pgs s) g (set (pde_pages (pgs s) pd i))"])
      (use free_dir_entry [OF ok(1) own] pd(3) in \<open>simp_all add: freed_def pde_pages_def\<close>)
  then obtain g where g: "for_range 0 768 (free_pde pd) (pgs s) = Some g" "freed (pgs s) g (set (pde_pages (pgs s) pd 768))" by blast
  from freed_step [OF g(2) pd(1)] own obtain g' where "palloc_free_page g pd = Some g'"
      "freed (pgs s) g' (set (owned (pgs s) pd))" by (auto simp: owned_def)
  then show ?thesis using g(1) pd(2) ok(2) n by (simp add: pagedir_destroy_def same_regs_def)
qed

section \<open>Properties\<close>

definition demo_vm :: vm where
  "demo_vm = \<lparr>pgs = demo_pages\<lparr>memory := \<lambda>_. 0\<rparr>, init_page_dir = 0xc0107000, cr3 = 0x101000, cr3_loads = 0\<rparr>"

lemma demo_get32: "get32 (\<lambda>_. 0) a = 0"
  by (simp add: get32_def)

lemma demo_pd_ok: "pd_ok (pgs demo_vm) 0xc0101000"
proof -
  have "0 \<in> used_units (used_map (kernel_pool demo_pages))" by (simp add: used_units_def demo_pages_def bit_at_def)
  then have "unat (pg_no 0xc0101000) \<in> pages_used demo_pages" by (force simp: pages_used_def pool_used_def demo_pages_def)
  then have "unat (pg_no 0xc0101000) \<in> pages_used (pgs demo_vm)" by (simp add: demo_vm_def pages_used_def)
  moreover have "pages_ok (pgs demo_vm)" using demo_pages_ok by (simp add: demo_vm_def pages_ok_def)
  moreover have "pg_ofs 0xc0101000 = 0" by (simp add: pg_ofs_def PGMASK_def BITMASK_def)
  moreover have "vmem demo_vm = (\<lambda>_. 0)" by (simp add: demo_vm_def)
  ultimately show ?thesis by (simp add: pd_ok_def demo_get32)
qed



text \<open>
  C2.  \<open>pagedir_destroy\<close> returns, frees every page the directory owns, which are the pages mapped at
  user addresses, the page tables and the directory itself, and frees nothing else: the other pages stay in use
  with their contents.  It does not read a page after freeing it.
\<close>

theorem pagedir_destroy_frees:
  assumes "pd_ok (pgs s) pd" "pd \<noteq> init_page_dir s"
    and "distinct (owned (pgs s) pd)" "set (owned (pgs s) pd) \<subseteq> pages_used (pgs s)"
  shows "\<exists>s'. pagedir_destroy s pd = Some s' \<and> same_regs s s' \<and> pages_ok (pgs s') \<and>
    pages_used (pgs s') = pages_used (pgs s) - set (owned (pgs s) pd) \<and>
    (\<forall>x. unat (pg_no x) \<notin> set (owned (pgs s) pd) \<longrightarrow> vmem s' x = vmem s x)"
  using destroy_run [OF assms] by (auto simp: freed_def)

theorem pagedir_destroy_frees_witness:
  "\<exists>s'. pagedir_destroy demo_vm 0xc0101000 = Some s' \<and> pages_used (pgs s') = {}"
proof -
  have z: "vmem demo_vm = (\<lambda>_. 0)" by (simp add: demo_vm_def)
  have o: "owned (pgs demo_vm) 0xc0101000 = [unat (pg_no 0xc0101000)]"
    by (simp add: owned_def pde_pages_def z demo_get32)
  have "used_units \<lparr>bit_cnt = 4, bits = [1]\<rparr> = {0}" "used_units \<lparr>bit_cnt = 3, bits = [0]\<rparr> = {}"
    by (auto simp: used_units_def bit_at_def bit_1_iff)
  then have u: "pages_used (pgs demo_vm) = {unat (pg_no 0xc0101000)}"
    by (simp add: demo_vm_def demo_pages_def pages_used_def pool_used_def)
  show ?thesis using pagedir_destroy_frees [OF demo_pd_ok] o u by (auto simp: demo_vm_def)
qed

end
