(* ===== verification/Block.thy ===== *)
theory Block
  imports Prelude
begin

text \<open>
  Block devices (\<open>devices/block.c\<close>) and the partition scanner (\<open>devices/partition.c\<close>).  The
  registered devices are the list \<open>all_blocks\<close> in probe order, and a device is named by its
  position there.  Its driver operations are those of an IDE disk, whose contents is a map from
  sectors to bytes, or those of a partition of another device.  \<open>None\<close> is a panic.  Console output
  is left out.
\<close>

section \<open>Block devices\<close>

type_synonym sector_data = "u8 list"

datatype block_type = BLOCK_KERNEL | BLOCK_FILESYS | BLOCK_SCRATCH | BLOCK_SWAP | BLOCK_RAW | BLOCK_FOREIGN

text \<open>The driver operations with their auxiliary data: an IDE disk, or a \<open>struct partition\<close>.\<close>

datatype driver = Disk nat | Partition nat u32

record block =
  bname :: string
  btype :: block_type
  bsize :: u32
  ops :: driver
  read_cnt :: u64
  write_cnt :: u64

record blocks =
  all_blocks :: "block list"
  block_by_role :: "block_type \<Rightarrow> nat option"
  disks :: "nat \<Rightarrow> u32 \<Rightarrow> sector_data"

definition block_type_name :: "block_type \<Rightarrow> string" where
  "block_type_name t = (case t of BLOCK_KERNEL \<Rightarrow> ''kernel'' | BLOCK_FILESYS \<Rightarrow> ''filesys''
     | BLOCK_SCRATCH \<Rightarrow> ''scratch'' | BLOCK_SWAP \<Rightarrow> ''swap'' | BLOCK_RAW \<Rightarrow> ''raw'' | BLOCK_FOREIGN \<Rightarrow> ''foreign'')"

text \<open>\<open>role < BLOCK_ROLE_CNT\<close>.\<close>

definition is_role :: "block_type \<Rightarrow> bool" where
  "is_role t \<longleftrightarrow> t \<noteq> BLOCK_RAW \<and> t \<noteq> BLOCK_FOREIGN"

definition block_get_role :: "blocks \<Rightarrow> block_type \<Rightarrow> nat option option" where
  "block_get_role bs role = do { ASSERT (is_role role); Some (block_by_role bs role) }"

definition block_set_role :: "blocks \<Rightarrow> block_type \<Rightarrow> nat option \<Rightarrow> blocks option" where
  "block_set_role bs role b = do {
     ASSERT (is_role role);
     Some (bs\<lparr>block_by_role := (block_by_role bs)(role := b)\<rparr>)
   }"

definition list_elem_to_block :: "blocks \<Rightarrow> nat \<Rightarrow> nat option" where
  "list_elem_to_block bs e = (if e \<noteq> length (all_blocks bs) then Some e else None)"

definition block_first :: "blocks \<Rightarrow> nat option" where
  "block_first bs = list_elem_to_block bs 0"

definition block_next :: "blocks \<Rightarrow> nat \<Rightarrow> nat option" where
  "block_next bs b = list_elem_to_block bs (b + 1)"

fun block_get_by_name_loop :: "block list \<Rightarrow> nat \<Rightarrow> string \<Rightarrow> nat option" where
  "block_get_by_name_loop [] e name = None"
| "block_get_by_name_loop (b # bs) e name =
     (if name = bname b then Some e else block_get_by_name_loop bs (e + 1) name)"

definition block_get_by_name :: "blocks \<Rightarrow> string \<Rightarrow> nat option" where
  "block_get_by_name bs name = block_get_by_name_loop (all_blocks bs) 0 name"

definition check_sector :: "block \<Rightarrow> u32 \<Rightarrow> unit option" where
  "check_sector b sector = (if sector \<ge> bsize b then None else Some ())"

definition set_block :: "blocks \<Rightarrow> nat \<Rightarrow> (block \<Rightarrow> block) \<Rightarrow> blocks" where
  "set_block bs b f = bs\<lparr>all_blocks := (all_blocks bs)[b := f (all_blocks bs ! b)]\<rparr>"

text \<open>
  \<open>ide_read\<close> and \<open>ide_write\<close> transfer one sector of the disk; \<open>partition_read\<close> and \<open>partition_write\<close>
  call \<open>block_read\<close> and \<open>block_write\<close> of the underlying device with the start sector added.
\<close>

partial_function (option) block_read :: "blocks \<Rightarrow> nat \<Rightarrow> u32 \<Rightarrow> (sector_data \<times> blocks) option" where
  "block_read bs b sector = do {
     blk \<leftarrow> rd (all_blocks bs) b;
     check_sector blk sector;
     (buffer, bs) \<leftarrow> (case ops blk of
        Disk d \<Rightarrow> Some (disks bs d sector, bs)
      | Partition p start \<Rightarrow> block_read bs p (start + sector));
     Some (buffer, set_block bs b (\<lambda>x. x\<lparr>read_cnt := read_cnt x + 1\<rparr>))
   }"

partial_function (option) block_write :: "blocks \<Rightarrow> nat \<Rightarrow> u32 \<Rightarrow> sector_data \<Rightarrow> blocks option" where
  "block_write bs b sector buffer = do {
     blk \<leftarrow> rd (all_blocks bs) b;
     check_sector blk sector;
     ASSERT (btype blk \<noteq> BLOCK_FOREIGN);
     bs \<leftarrow> (case ops blk of
        Disk d \<Rightarrow> Some (bs\<lparr>disks := (disks bs)(d := (disks bs d)(sector := buffer))\<rparr>)
      | Partition p start \<Rightarrow> block_write bs p (start + sector) buffer);
     Some (set_block bs b (\<lambda>x. x\<lparr>write_cnt := write_cnt x + 1\<rparr>))
   }"

definition block_size :: "block \<Rightarrow> u32" where "block_size b = bsize b"
definition block_name :: "block \<Rightarrow> string" where "block_name b = bname b"
definition get_block_type :: "block \<Rightarrow> block_type" where "get_block_type b = btype b"

text \<open>\<open>mem\<close> tells whether \<open>malloc\<close> succeeds.  The name is cut off at 15 characters.\<close>

definition block_register ::
  "bool \<Rightarrow> blocks \<Rightarrow> string \<Rightarrow> block_type \<Rightarrow> u32 \<Rightarrow> driver \<Rightarrow> (nat \<times> blocks) option" where
  "block_register mem bs name t sz drv = do {
     ASSERT mem;
     let b = \<lparr>bname = take 15 name, btype = t, bsize = sz, ops = drv, read_cnt = 0, write_cnt = 0\<rparr>;
     Some (length (all_blocks bs), bs\<lparr>all_blocks := all_blocks bs @ [b]\<rparr>)
   }"

section \<open>Partitions\<close>

definition le16 :: "u8 list \<Rightarrow> nat \<Rightarrow> u16" where
  "le16 d i = ucast (d ! i) OR push_bit 8 (ucast (d ! (i + 1)))"

definition le32 :: "u8 list \<Rightarrow> nat \<Rightarrow> u32" where
  "le32 d i = ucast (d ! i) OR push_bit 8 (ucast (d ! (i + 1))) OR push_bit 16 (ucast (d ! (i + 2))) OR
     push_bit 24 (ucast (d ! (i + 3)))"

record partition_table_entry =
  pe_type :: u8
  pe_offset :: u32
  pe_size :: u32

text \<open>The fields of entry \<open>i\<close> of a partition table sector that the scanner uses, and its signature.\<close>

definition pt_entry :: "sector_data \<Rightarrow> nat \<Rightarrow> partition_table_entry" where
  "pt_entry pt i = (let e = 446 + 16 * i in
     \<lparr>pe_type = pt ! (e + 4), pe_offset = le32 pt (e + 8), pe_size = le32 pt (e + 12)\<rparr>)"

definition pt_signature :: "sector_data \<Rightarrow> u16" where
  "pt_signature pt = le16 pt 510"

definition dec_string :: "nat \<Rightarrow> string" where
  "dec_string n = map (\<lambda>d. char_of (48 + d)) (rev (if n = 0 then [0] else
     map (\<lambda>i. n div 10 ^ i mod 10) (filter (\<lambda>i. 10 ^ i \<le> n) [0..<10])))"

definition partition_block_type :: "u8 \<Rightarrow> block_type" where
  "partition_block_type t = (if t = 0x20 then BLOCK_KERNEL else if t = 0x21 then BLOCK_FILESYS
     else if t = 0x22 then BLOCK_SCRATCH else if t = 0x23 then BLOCK_SWAP else BLOCK_FOREIGN)"

definition found_partition ::
  "bool \<Rightarrow> blocks \<Rightarrow> nat \<Rightarrow> u8 \<Rightarrow> u32 \<Rightarrow> u32 \<Rightarrow> nat \<Rightarrow> blocks option" where
  "found_partition mem bs b part_type start sz part_nr = do {
     blk \<leftarrow> rd (all_blocks bs) b;
     if start \<ge> block_size blk then Some bs
     else if start + sz < start \<or> start + sz > block_size blk then Some bs
     else do {
       ASSERT mem;
       (_, bs) \<leftarrow> block_register mem bs (take 15 (block_name blk @ dec_string part_nr))
         (partition_block_type part_type) sz (Partition b start);
       Some bs
     }
   }"

definition type_names :: "(u8 \<times> string) list" where
  "type_names = [
     (0x00, ''Empty''), (0x01, ''FAT12''), (0x02, ''XENIX root''), (0x03, ''XENIX usr''),
     (0x04, ''FAT16 <32M''), (0x05, ''Extended''), (0x06, ''FAT16''), (0x07, ''HPFS/NTFS''),
     (0x08, ''AIX''), (0x09, ''AIX bootable''), (0x0a, ''OS/2 Boot Manager''), (0x0b, ''W95 FAT32''),
     (0x0c, ''W95 FAT32 (LBA)''), (0x0e, ''W95 FAT16 (LBA)''), (0x0f, ''W95 Ext'd (LBA)''),
     (0x10, ''OPUS''), (0x11, ''Hidden FAT12''), (0x12, ''Compaq diagnostics''),
     (0x14, ''Hidden FAT16 <32M''), (0x16, ''Hidden FAT16''), (0x17, ''Hidden HPFS/NTFS''),
     (0x18, ''AST SmartSleep''), (0x1b, ''Hidden W95 FAT32''), (0x1c, ''Hidden W95 FAT32 (LBA)''),
     (0x1e, ''Hidden W95 FAT16 (LBA)''), (0x20, ''Pintos OS kernel''), (0x21, ''Pintos file system''),
     (0x22, ''Pintos scratch''), (0x23, ''Pintos swap''), (0x24, ''NEC DOS''), (0x39, ''Plan 9''),
     (0x3c, ''PartitionMagic recovery''), (0x40, ''Venix 80286''), (0x41, ''PPC PReP Boot''),
     (0x42, ''SFS''), (0x4d, ''QNX4.x''), (0x4e, ''QNX4.x 2nd part''), (0x4f, ''QNX4.x 3rd part''),
     (0x50, ''OnTrack DM''), (0x51, ''OnTrack DM6 Aux1''), (0x52, ''CP/M''), (0x53, ''OnTrack DM6 Aux3''),
     (0x54, ''OnTrackDM6''), (0x55, ''EZ-Drive''), (0x56, ''Golden Bow''), (0x5c, ''Priam Edisk''),
     (0x61, ''SpeedStor''), (0x63, ''GNU HURD or SysV''), (0x64, ''Novell Netware 286''),
     (0x65, ''Novell Netware 386''), (0x70, ''DiskSecure Multi-Boot''), (0x75, ''PC/IX''),
     (0x80, ''Old Minix''), (0x81, ''Minix / old Linux''), (0x82, ''Linux swap / Solaris''),
     (0x83, ''Linux''), (0x84, ''OS/2 hidden C: drive''), (0x85, ''Linux extended''),
     (0x86, ''NTFS volume set''), (0x87, ''NTFS volume set''), (0x88, ''Linux plaintext''),
     (0x8e, ''Linux LVM''), (0x93, ''Amoeba''), (0x94, ''Amoeba BBT''), (0x9f, ''BSD/OS''),
     (0xa0, ''IBM Thinkpad hibernation''), (0xa5, ''FreeBSD''), (0xa6, ''OpenBSD''), (0xa7, ''NeXTSTEP''),
     (0xa8, ''Darwin UFS''), (0xa9, ''NetBSD''), (0xab, ''Darwin boot''), (0xb7, ''BSDI fs''),
     (0xb8, ''BSDI swap''), (0xbb, ''Boot Wizard hidden''), (0xbe, ''Solaris boot''), (0xbf, ''Solaris''),
     (0xc1, ''DRDOS/sec (FAT-12)''), (0xc4, ''DRDOS/sec (FAT-16 < 32M)''), (0xc6, ''DRDOS/sec (FAT-16)''),
     (0xc7, ''Syrinx''), (0xda, ''Non-FS data''), (0xdb, ''CP/M / CTOS / ...''), (0xde, ''Dell Utility''),
     (0xdf, ''BootIt''), (0xe1, ''DOS access''), (0xe3, ''DOS R/O''), (0xe4, ''SpeedStor''),
     (0xeb, ''BeOS fs''), (0xee, ''EFI GPT''), (0xef, ''EFI (FAT-12/16/32)''),
     (0xf0, ''Linux/PA-RISC boot''), (0xf1, ''SpeedStor''), (0xf4, ''SpeedStor''),
     (0xf2, ''DOS secondary''), (0xfd, ''Linux raid autodetect''), (0xfe, ''LANstep''), (0xff, ''BBT'')]"

definition partition_type_name :: "u8 \<Rightarrow> string" where
  "partition_type_name t = (case map_of type_names t of Some n \<Rightarrow> n | None \<Rightarrow> ''Unknown'')"

definition is_extended :: "u8 \<Rightarrow> bool" where
  "is_extended t \<longleftrightarrow> t = 0x05 \<or> t = 0x0f \<or> t = 0x85 \<or> t = 0xc5"

text \<open>
  \<open>read_partition_table\<close> recurses on extended partitions.  The fuel bounds the depth of the
  recursion: \<open>None\<close> is fuel exhausted, \<open>Some None\<close> a panic, and \<open>Some (Some (bs, part_nr))\<close> a return.
  The sector is checked, but the table is read from sector 0, as in the code.
\<close>

fun read_partition_table ::
  "nat \<Rightarrow> bool \<Rightarrow> blocks \<Rightarrow> nat \<Rightarrow> u32 \<Rightarrow> u32 \<Rightarrow> nat \<Rightarrow> (blocks \<times> nat) option option"
and read_partition_entries ::
  "nat \<Rightarrow> bool \<Rightarrow> blocks \<Rightarrow> nat \<Rightarrow> u32 \<Rightarrow> u32 \<Rightarrow> nat \<Rightarrow> partition_table_entry list \<Rightarrow> (blocks \<times> nat) option option"
where
  "read_partition_table 0 mem bs b sector primary part_nr = None"
| "read_partition_table (Suc fuel) mem bs b sector primary part_nr =
     (case rd (all_blocks bs) b of
        None \<Rightarrow> Some None
      | Some blk \<Rightarrow>
          if sector \<ge> block_size blk then Some (Some (bs, part_nr))
          else if \<not> mem then Some None
          else (case block_read bs b 0 of
                  None \<Rightarrow> Some None
                | Some (pt, bs) \<Rightarrow>
                    if pt_signature pt \<noteq> 0xaa55 then Some (Some (bs, part_nr))
                    else read_partition_entries fuel mem bs b sector primary part_nr
                           (map (pt_entry pt) [0..<4])))"
| "read_partition_entries fuel mem bs b sector primary part_nr [] = Some (Some (bs, part_nr))"
| "read_partition_entries fuel mem bs b sector primary part_nr (e # es) =
     (if pe_size e = 0 \<or> pe_type e = 0
      then read_partition_entries fuel mem bs b sector primary part_nr es
      else if is_extended (pe_type e) then
        (case (if sector = 0 then read_partition_table fuel mem bs b (pe_offset e) (pe_offset e) part_nr
               else read_partition_table fuel mem bs b (pe_offset e + primary) primary part_nr) of
           None \<Rightarrow> None
         | Some None \<Rightarrow> Some None
         | Some (Some (bs, part_nr)) \<Rightarrow> read_partition_entries fuel mem bs b sector primary part_nr es)
      else
        (case found_partition mem bs b (pe_type e) (pe_offset e + sector) (pe_size e) (part_nr + 1) of
           None \<Rightarrow> Some None
         | Some bs \<Rightarrow> read_partition_entries fuel mem bs b sector primary (part_nr + 1) es))"

definition partition_scan :: "nat \<Rightarrow> bool \<Rightarrow> blocks \<Rightarrow> nat \<Rightarrow> (blocks \<times> nat) option option" where
  "partition_scan fuel mem bs b = read_partition_table fuel mem bs b 0 0 0"

section \<open>Well-formed devices\<close>

text \<open>Every partition lies inside the device it is a partition of, which was registered before it.\<close>

definition blocks_ok :: "blocks \<Rightarrow> bool" where
  "blocks_ok bs \<longleftrightarrow> (\<forall>b < length (all_blocks bs). \<forall>p start. ops (all_blocks bs ! b) = Partition p start \<longrightarrow>
     p < b \<and> unat start + unat (bsize (all_blocks bs ! b)) \<le> unat (bsize (all_blocks bs ! p)))"

text \<open>The same devices, except for the counters.\<close>

definition same_block :: "block \<Rightarrow> block \<Rightarrow> bool" where
  "same_block x y \<longleftrightarrow> bname x = bname y \<and> btype x = btype y \<and> bsize x = bsize y \<and> ops x = ops y"

definition same_devices :: "blocks \<Rightarrow> blocks \<Rightarrow> bool" where
  "same_devices bs bs' \<longleftrightarrow> list_all2 same_block (all_blocks bs) (all_blocks bs') \<and>
     block_by_role bs' = block_by_role bs"

lemma same_block_refl [simp]: "same_block x x"
  by (simp add: same_block_def)

lemma same_devices_refl [simp]: "same_devices bs bs"
  by (simp add: same_devices_def list_all2_refl)

lemma same_devices_trans: "same_devices a b \<Longrightarrow> same_devices b c \<Longrightarrow> same_devices a c"
  unfolding same_devices_def by (auto simp: list_all2_conv_all_nth same_block_def)

lemma same_devices_length: "same_devices a b \<Longrightarrow> length (all_blocks b) = length (all_blocks a)"
  by (auto simp: same_devices_def dest: list_all2_lengthD)

lemma same_devices_nth:
  "same_devices a b \<Longrightarrow> i < length (all_blocks a) \<Longrightarrow> same_block (all_blocks a ! i) (all_blocks b ! i)"
  by (auto simp: same_devices_def dest: list_all2_nthD)

lemma same_block_trans: "same_block x y \<Longrightarrow> same_block y z \<Longrightarrow> same_block x z"
  by (simp add: same_block_def)

lemma same_devices_set_block:
  assumes s: "same_devices a b" and f: "\<And>x. same_block x (f x)"
  shows "same_devices a (set_block b i f)"
proof -
  have "same_block (all_blocks a ! j) ((all_blocks b)[i := f (all_blocks b ! i)] ! j)"
    if "j < length (all_blocks a)" for j
    using same_devices_nth [OF s that] f that same_devices_length [OF s]
    by (cases "j = i") (auto intro: same_block_trans)
  then show ?thesis
    using s same_devices_length [OF s] by (auto simp: same_devices_def set_block_def list_all2_conv_all_nth)
qed

lemma same_devices_disks [simp]: "same_devices a (b\<lparr>disks := d\<rparr>) \<longleftrightarrow> same_devices a b"
  by (simp add: same_devices_def)

lemma disks_set_block [simp]: "disks (set_block bs b f) = disks bs"
  by (simp add: set_block_def)

lemma blocks_ok_same: "blocks_ok a \<Longrightarrow> same_devices a b \<Longrightarrow> blocks_ok b"
  using same_devices_length [of a b] same_devices_nth [of a b]
  by (fastforce simp: blocks_ok_def same_block_def)

text \<open>Where a sector of a device is stored.\<close>

inductive resolves :: "blocks \<Rightarrow> nat \<Rightarrow> u32 \<Rightarrow> nat \<Rightarrow> u32 \<Rightarrow> bool" for bs where
  disk: "b < length (all_blocks bs) \<Longrightarrow> ops (all_blocks bs ! b) = Disk d \<Longrightarrow> s < bsize (all_blocks bs ! b) \<Longrightarrow>
     resolves bs b s d s"
| part: "b < length (all_blocks bs) \<Longrightarrow> ops (all_blocks bs ! b) = Partition p start \<Longrightarrow>
     s < bsize (all_blocks bs ! b) \<Longrightarrow> resolves bs p (start + s) d t \<Longrightarrow> resolves bs b s d t"

lemma part_sector:
  assumes "blocks_ok bs" "b < length (all_blocks bs)" "ops (all_blocks bs ! b) = Partition p start"
    "s < bsize (all_blocks bs ! b)"
  shows "unat (start + s) = unat start + unat s" "start + s < bsize (all_blocks bs ! p)" "p < b"
proof -
  have h: "p < b" "unat start + unat (bsize (all_blocks bs ! b)) \<le> unat (bsize (all_blocks bs ! p))"
    using assms unfolding blocks_ok_def by blast+
  then show "p < b" by simp
  have l: "unat start + unat s < unat (bsize (all_blocks bs ! p))"
    using h assms(4) by (simp add: word_less_nat_alt)
  then show u: "unat (start + s) = unat start + unat s"
    using unat_lt_32 [of "bsize (all_blocks bs ! p)"] by (simp add: unat_word_ariths)
  show "start + s < bsize (all_blocks bs ! p)" using l u by (simp add: word_less_nat_alt)
qed

text \<open>Sectors of a well-formed device are always found.\<close>

lemma resolves_total:
  assumes ok: "blocks_ok bs"
  shows "b < length (all_blocks bs) \<Longrightarrow> s < bsize (all_blocks bs ! b) \<Longrightarrow> \<exists>d t. resolves bs b s d t"
proof (induction b arbitrary: s rule: less_induct)
  case (less b)
  show ?case
  proof (cases "ops (all_blocks bs ! b)")
    case (Disk d)
    then show ?thesis using less.prems resolves.disk by blast
  next
    case (Partition p start)
    note h = part_sector [OF ok less.prems(1) Partition less.prems(2)]
    then obtain d t where "resolves bs p (start + s) d t" using less.IH [of p "start + s"] less.prems(1) by auto
    then show ?thesis using less.prems Partition resolves.part by blast
  qed
qed

lemma resolves_inj: "resolves bs b s d t \<Longrightarrow> resolves bs b s d' t' \<Longrightarrow> d' = d \<and> t' = t"
proof (induction arbitrary: d' t' rule: resolves.induct)
  case (disk b d s)
  from disk.prems show ?case using disk.hyps by cases auto
next
  case (part b p start s d t)
  note o = part.hyps(2) and ih = part.IH
  from part.prems show ?case
  proof cases
    case disk
    then show ?thesis using o by simp
  next
    case (part q st)
    then have "q = p" "st = start" using o by simp_all
    then show ?thesis using ih part(4) by blast
  qed
qed

lemma resolves_same:
  "resolves a b s d t \<Longrightarrow> same_devices a a' \<Longrightarrow> resolves a' b s d t"
proof (induction rule: resolves.induct)
  case (disk b d s)
  then show ?case
    using same_devices_length [of a a'] same_devices_nth [of a a' b]
    by (intro resolves.disk) (auto simp: same_block_def)
next
  case (part b p start s d t)
  then show ?case
    using same_devices_length [of a a'] same_devices_nth [of a a' b]
    by (intro resolves.part [of b a' p start]) (auto simp: same_block_def)
qed

lemma block_read_run:
  "resolves bs b s d t \<Longrightarrow> \<exists>bs'. block_read bs b s = Some (disks bs d t, bs') \<and> same_devices bs bs' \<and> disks bs' = disks bs"
proof (induction rule: resolves.induct)
  case (disk b d s)
  then show ?case
    by (subst block_read.simps) (auto simp: check_sector_def same_block_def intro!: same_devices_set_block)
next
  case (part b p start s d t)
  then obtain bs' where "block_read bs p (start + s) = Some (disks bs d t, bs')" "same_devices bs bs'" "disks bs' = disks bs"
    by blast
  then show ?case using part
    by (subst block_read.simps) (auto simp: check_sector_def same_block_def intro!: same_devices_set_block)
qed

text \<open>A device that can be written: neither it nor what it is a partition of is foreign.\<close>

inductive writable :: "blocks \<Rightarrow> nat \<Rightarrow> bool" for bs where
  disk: "ops (all_blocks bs ! b) = Disk d \<Longrightarrow> btype (all_blocks bs ! b) \<noteq> BLOCK_FOREIGN \<Longrightarrow> writable bs b"
| part: "ops (all_blocks bs ! b) = Partition p start \<Longrightarrow> btype (all_blocks bs ! b) \<noteq> BLOCK_FOREIGN \<Longrightarrow>
     writable bs p \<Longrightarrow> writable bs b"

lemma block_write_run:
  "resolves bs b s d t \<Longrightarrow> writable bs b \<Longrightarrow>
     \<exists>bs'. block_write bs b s x = Some bs' \<and> same_devices bs bs' \<and>
       disks bs' = (disks bs)(d := (disks bs d)(t := x))"
proof (induction rule: resolves.induct)
  case (disk b d s)
  have "btype (all_blocks bs ! b) \<noteq> BLOCK_FOREIGN" using disk.prems disk.hyps by cases auto
  then show ?case using disk
    by (subst block_write.simps) (auto simp: check_sector_def same_block_def intro!: same_devices_set_block)
next
  case (part b p start s d t)
  have w: "btype (all_blocks bs ! b) \<noteq> BLOCK_FOREIGN" "writable bs p"
    using part.prems part.hyps(2) by (cases; auto)+
  then obtain bs' where "block_write bs p (start + s) x = Some bs'" "same_devices bs bs'"
      "disks bs' = (disks bs)(d := (disks bs d)(t := x))"
    using part.IH by blast
  then show ?case using part.hyps w
    by (subst block_write.simps) (auto simp: check_sector_def same_block_def intro!: same_devices_set_block)
qed

lemma block_write_panics:
  "b < length (all_blocks bs) \<Longrightarrow> bsize (all_blocks bs ! b) \<le> s \<Longrightarrow> block_write bs b s x = None \<and> block_read bs b s = None"
  by (subst block_write.simps, subst block_read.simps) (simp add: check_sector_def)

section \<open>A device as an array of sectors\<close>

definition contents :: "blocks \<Rightarrow> nat \<Rightarrow> u32 \<Rightarrow> sector_data" where
  "contents bs b s = (case block_read bs b s of Some (x, _) \<Rightarrow> x | None \<Rightarrow> [])"

definition device_size :: "blocks \<Rightarrow> nat \<Rightarrow> u32" where
  "device_size bs b = bsize (all_blocks bs ! b)"

definition device_ok :: "nat \<Rightarrow> blocks \<Rightarrow> bool" where
  "device_ok b bs \<longleftrightarrow> blocks_ok bs \<and> b < length (all_blocks bs) \<and> writable bs b"

text \<open>
  The interface a file system relies on: a store of numbered sectors whose reads return what was
  written last, and whose writes change one sector.
\<close>

locale sector_store =
  fixes read :: "'s \<Rightarrow> u32 \<Rightarrow> (sector_data \<times> 's) option"
    and put :: "'s \<Rightarrow> u32 \<Rightarrow> sector_data \<Rightarrow> 's option"
    and get :: "'s \<Rightarrow> u32 \<Rightarrow> sector_data"
    and sectors :: "'s \<Rightarrow> u32"
    and ok :: "'s \<Rightarrow> bool"
  assumes read_ok: "ok s \<Longrightarrow> i < sectors s \<Longrightarrow>
      \<exists>s'. read s i = Some (get s i, s') \<and> ok s' \<and> sectors s' = sectors s \<and> (\<forall>j < sectors s. get s' j = get s j)"
    and put_ok: "ok s \<Longrightarrow> i < sectors s \<Longrightarrow>
      \<exists>s'. put s i x = Some s' \<and> ok s' \<and> sectors s' = sectors s \<and> (\<forall>j < sectors s. get s' j = (if j = i then x else get s j))"
    and past_end: "ok s \<Longrightarrow> sectors s \<le> i \<Longrightarrow> read s i = None \<and> put s i x = None"
begin

lemma put_read:
  assumes "ok s" "i < sectors s" "j < sectors s"
  shows "\<exists>s' s''. put s i x = Some s' \<and> read s' j = Some (if j = i then x else get s j, s'') \<and> ok s''"
proof -
  obtain s' where s': "put s i x = Some s'" "ok s'" "sectors s' = sectors s"
      "\<forall>j < sectors s. get s' j = (if j = i then x else get s j)"
    using put_ok [OF assms(1,2)] by blast
  then show ?thesis using read_ok [of s' j] assms(3) by fastforce
qed

end

lemma resolves_offset:
  assumes ok: "blocks_ok bs"
  shows "b < length (all_blocks bs) \<Longrightarrow>
     \<exists>d off. \<forall>s. s < bsize (all_blocks bs ! b) \<longrightarrow> resolves bs b s d (off + s)"
proof (induction b rule: less_induct)
  case (less b)
  show ?case
  proof (cases "ops (all_blocks bs ! b)")
    case (Disk d)
    then have "\<forall>s. s < bsize (all_blocks bs ! b) \<longrightarrow> resolves bs b s d (0 + s)"
      using less.prems resolves.disk by simp
    then show ?thesis by blast
  next
    case (Partition p start)
    note h = part_sector [OF ok less.prems Partition]
    show ?thesis
    proof (cases "bsize (all_blocks bs ! b) = 0")
      case False
      then have "p < b" using h(3) [of 0] by (simp add: word_gt_0)
      then obtain d off where o: "\<forall>s. s < bsize (all_blocks bs ! p) \<longrightarrow> resolves bs p s d (off + s)"
        using less.IH [OF \<open>p < b\<close>] less.prems less_trans by blast
      have "resolves bs b s d ((off + start) + s)" if "s < bsize (all_blocks bs ! b)" for s
        using resolves.part [OF less.prems Partition that] o h(2) [OF that] by (simp add: add.assoc)
      then show ?thesis by blast
    qed simp
  qed
qed

lemma resolvesD: "resolves bs b s d t \<Longrightarrow> b < length (all_blocks bs) \<and> s < bsize (all_blocks bs ! b)"
  by (induction rule: resolves.induct) auto

lemma resolves_distinct:
  assumes "blocks_ok bs" "resolves bs b s d t" "resolves bs b s' d' t'" "s \<noteq> s'"
  shows "t \<noteq> t' \<and> d' = d"
proof -
  have b: "b < length (all_blocks bs)" "s < bsize (all_blocks bs ! b)" "s' < bsize (all_blocks bs ! b)"
    using resolvesD [OF assms(2)] resolvesD [OF assms(3)] by auto
  obtain e off where o: "\<forall>s. s < bsize (all_blocks bs ! b) \<longrightarrow> resolves bs b s e (off + s)"
    using resolves_offset [OF assms(1) b(1)] by blast
  have r: "resolves bs b s e (off + s)" "resolves bs b s' e (off + s')" using o b by blast+
  show ?thesis using resolves_inj [OF r(1) assms(2)] resolves_inj [OF r(2) assms(3)] assms(4) by simp
qed

lemma contents_resolves: "resolves bs b s d t \<Longrightarrow> contents bs b s = disks bs d t"
  using block_read_run [of bs b s d t] by (auto simp: contents_def)

lemma writable_same: "writable a b \<Longrightarrow> same_devices a a' \<Longrightarrow> blocks_ok a \<Longrightarrow> b < length (all_blocks a) \<Longrightarrow> writable a' b"
proof (induction rule: writable.induct)
  case (disk b d)
  then show ?case using same_devices_nth [of a a' b] by (intro writable.disk [of a' b d]) (auto simp: same_block_def)
next
  case (part b p start)
  then have "p < length (all_blocks a)" unfolding blocks_ok_def by force
  then show ?case
    using part same_devices_nth [of a a' b] by (intro writable.part [of a' b p start]) (auto simp: same_block_def)
qed

lemma device_ok_same:
  "device_ok b a \<Longrightarrow> same_devices a a' \<Longrightarrow> device_ok b a' \<and> device_size a' b = device_size a b"
  using blocks_ok_same [of a a'] writable_same [of a b a'] same_devices_length [of a a'] same_devices_nth [of a a' b]
  by (auto simp: device_ok_def device_size_def same_block_def)

lemma device_read:
  assumes ok: "device_ok b bs" and s: "s < device_size bs b"
  shows "\<exists>bs'. block_read bs b s = Some (contents bs b s, bs') \<and> device_ok b bs' \<and> device_size bs' b = device_size bs b \<and>
     (\<forall>j<device_size bs b. contents bs' b j = contents bs b j)"
proof -
  have o: "blocks_ok bs" "b < length (all_blocks bs)" using ok by (auto simp: device_ok_def)
  obtain d t where r: "resolves bs b s d t"
    using resolves_total [OF o] s unfolding device_size_def by blast
  obtain bs' where b: "block_read bs b s = Some (disks bs d t, bs')" "same_devices bs bs'" "disks bs' = disks bs"
    using block_read_run [OF r] by blast
  have "contents bs' b j = contents bs b j" if j: "j < device_size bs b" for j
  proof -
    obtain d' t' where "resolves bs b j d' t'"
      using resolves_total [OF o] j unfolding device_size_def by blast
    then show ?thesis using contents_resolves resolves_same [OF _ b(2)] b(3) by metis
  qed
  then show ?thesis using b contents_resolves [OF r] device_ok_same [OF ok b(2)] by auto
qed

lemma device_write:
  assumes ok: "device_ok b bs" and s: "s < device_size bs b"
  shows "\<exists>bs'. block_write bs b s x = Some bs' \<and> device_ok b bs' \<and> device_size bs' b = device_size bs b \<and>
     (\<forall>j<device_size bs b. contents bs' b j = (if j = s then x else contents bs b j))"
proof -
  have o: "blocks_ok bs" "b < length (all_blocks bs)" "writable bs b" using ok by (auto simp: device_ok_def)
  obtain d t where r: "resolves bs b s d t"
    using resolves_total [OF o(1,2)] s unfolding device_size_def by blast
  obtain bs' where b: "block_write bs b s x = Some bs'" "same_devices bs bs'"
      "disks bs' = (disks bs)(d := (disks bs d)(t := x))"
    using block_write_run [OF r o(3)] by blast
  have "contents bs' b j = (if j = s then x else contents bs b j)" if j: "j < device_size bs b" for j
  proof -
    obtain d' t' where r': "resolves bs b j d' t'"
      using resolves_total [OF o(1,2)] j unfolding device_size_def by blast
    have c: "contents bs' b j = disks bs' d' t'" "contents bs b j = disks bs d' t'"
      using contents_resolves r' resolves_same [OF r' b(2)] by auto
    show ?thesis
    proof (cases "j = s")
      case True
      then show ?thesis using c resolves_inj [OF r] r' b(3) by auto
    next
      case False
      then show ?thesis using c resolves_distinct [OF o(1) r r'] b(3) by auto
    qed
  qed
  then show ?thesis using b device_ok_same [OF ok b(2)] by blast
qed

interpretation dev: sector_store "\<lambda>bs. block_read bs b" "\<lambda>bs. block_write bs b" "\<lambda>bs. contents bs b"
    "\<lambda>bs. device_size bs b" "device_ok b" for b
proof
  show "device_size s b \<le> i \<Longrightarrow> device_ok b s \<Longrightarrow> block_read s b i = None \<and> block_write s b i x = None" for s i x
    using block_write_panics [of b s i] by (auto simp: device_ok_def device_size_def)
qed (erule (1) device_read, erule (1) device_write)

section \<open>The partition scanner\<close>

lemma blocks_ok_append:
  assumes ok: "blocks_ok bs" and p: "b < length (all_blocks bs)" and o: "ops x = Partition b start"
    and f: "unat start + unat (bsize x) \<le> unat (bsize (all_blocks bs ! b))"
  shows "blocks_ok (bs\<lparr>all_blocks := all_blocks bs @ [x]\<rparr>)"
  using assms unfolding blocks_ok_def by (auto simp: nth_append less_Suc_eq)

lemma found_partition_ok:
  assumes ok: "blocks_ok bs" and b: "b < length (all_blocks bs)"
    and f: "found_partition mem bs b ty start sz nr = Some bs'"
  shows "blocks_ok bs' \<and> length (all_blocks bs) \<le> length (all_blocks bs')"
proof (cases "start \<ge> bsize (all_blocks bs ! b) \<or> start + sz < start \<or> start + sz > bsize (all_blocks bs ! b)")
  case True
  then show ?thesis using assms by (auto simp: found_partition_def block_size_def split: if_splits)
next
  case False
  then have "unat (start + sz) = unat start + unat sz" "start + sz \<le> bsize (all_blocks bs ! b)"
    using unat_plus_simple [of start sz] by auto
  then have "unat start + unat sz \<le> unat (bsize (all_blocks bs ! b))" by (simp add: word_le_nat_alt)
  then show ?thesis
    using False f b blocks_ok_append [OF ok b]
    by (auto simp: found_partition_def block_size_def block_register_def Let_def)
qed

lemma scan_ok:
  "read_partition_table fuel mem bs b sector primary nr = Some (Some (bs', nr')) \<Longrightarrow>
     blocks_ok bs \<Longrightarrow> b < length (all_blocks bs) \<Longrightarrow> blocks_ok bs' \<and> length (all_blocks bs) \<le> length (all_blocks bs')"
  "read_partition_entries fuel mem bs b sector primary nr es = Some (Some (bs', nr')) \<Longrightarrow>
     blocks_ok bs \<Longrightarrow> b < length (all_blocks bs) \<Longrightarrow> blocks_ok bs' \<and> length (all_blocks bs) \<le> length (all_blocks bs')"
proof (induction fuel mem bs b sector primary nr and fuel mem bs b sector primary nr es
    arbitrary: bs' nr' and bs' nr' rule: read_partition_table_read_partition_entries.induct)
  case (2 fuel mem bs b sector primary nr)
  show ?case
  proof (cases "sector \<ge> block_size (all_blocks bs ! b)")
    case True
    then show ?thesis using 2 by simp
  next
    case False
    then obtain pt bs1 where r: "block_read bs b 0 = Some (pt, bs1)"
      using 2(2,4) by (auto split: if_splits option.splits)
    have "0 < bsize (all_blocks bs ! b)" using False by (simp add: block_size_def word_gt_0 not_le) (metis word_not_simps(1))
    then obtain d t where "resolves bs b 0 d t" using resolves_total [OF 2(3,4)] by blast
    then have s: "same_devices bs bs1" using block_read_run r by fastforce
    note ok = blocks_ok_same [OF 2(3) s] same_devices_length [OF s]
    show ?thesis
      using 2 False r ok by (auto split: if_splits)
  qed
next
  case (4 fuel mem bs b sector primary nr e es)
  consider "pe_size e = 0 \<or> pe_type e = 0" | "\<not> (pe_size e = 0 \<or> pe_type e = 0)" "is_extended (pe_type e)"
    | "\<not> (pe_size e = 0 \<or> pe_type e = 0)" "\<not> is_extended (pe_type e)" by blast
  then show ?case
  proof cases
    case 1
    then show ?thesis using 4 by auto
  next
    case 2
    then show ?thesis using "4.IH"(2-4) "4.prems" by (fastforce split: option.splits prod.splits if_splits)
  next
    case 3
    then obtain bs1 where f: "found_partition mem bs b (pe_type e) (pe_offset e + sector) (pe_size e) (nr + 1) = Some bs1"
      using "4.prems"(1) by (auto split: option.splits)
    note g = found_partition_ok [OF "4.prems"(2,3) f]
    then show ?thesis using "4.IH"(5) [OF 3 f] "4.prems" 3 f by fastforce
  qed
qed auto

lemma extended_loops:
  assumes "b < length (all_blocks bs)" "ops (all_blocks bs ! b) = Disk d" "pt_signature (disks bs d 0) = 0xaa55"
    and e: "is_extended (pe_type (pt_entry (disks bs d 0) 0))" "pe_size (pt_entry (disks bs d 0) 0) \<noteq> 0"
      "pe_offset (pt_entry (disks bs d 0) 0) = off"
    and n: "0 < bsize (all_blocks bs ! b)" "off < bsize (all_blocks bs ! b)" "off + off < bsize (all_blocks bs ! b)"
    and s: "sector = 0 \<or> (sector = off \<or> sector = off + off) \<and> primary = off"
  shows "read_partition_table fuel True bs b sector primary nr = None"
  using assms
proof (induction fuel arbitrary: bs sector primary)
  case (Suc fuel)
  have lt: "sector < bsize (all_blocks bs ! b)" using Suc.prems(7-10) by auto
  have "resolves bs b 0 d 0" by (rule resolves.disk [OF Suc.prems(1,2,7)])
  then obtain bs1 where r: "block_read bs b 0 = Some (disks bs d 0, bs1)" "same_devices bs bs1" "disks bs1 = disks bs"
    using block_read_run by blast
  have b1: "b < length (all_blocks bs1)" "ops (all_blocks bs1 ! b) = Disk d"
      "bsize (all_blocks bs1 ! b) = bsize (all_blocks bs ! b)"
    using same_devices_length [OF r(2)] same_devices_nth [OF r(2) Suc.prems(1)] Suc.prems(1,2)
    by (auto simp: same_block_def)
  have ty: "pe_type (pt_entry (disks bs d 0) 0) \<noteq> 0" using Suc.prems(4) by (auto simp: is_extended_def)
  have "(if sector = 0 then read_partition_table fuel True bs1 b off off nr
         else read_partition_table fuel True bs1 b (off + primary) primary nr) = None"
    using Suc.IH [OF b1(1,2), of off off] Suc.IH [OF b1(1,2), of "off + off" off] Suc.prems(3-10) r(3) b1(3) by auto
  then show ?case
    using lt Suc.prems(1,3-7) r(1) ty
    by (cases "sector = 0") (simp_all add: block_size_def upt_rec not_le [symmetric])
qed simp

section \<open>Properties\<close>

text \<open>
  C27.  A partition keeps to its own sectors: a write to one partition of a disk is read back from it,
  and does not change what is read from a partition whose range of sectors is disjoint from it.
\<close>

theorem partition_isolated:
  assumes ok: "blocks_ok bs" and a: "device_ok a bs" "ops (all_blocks bs ! a) = Partition p sa" "i < device_size bs a"
    and b: "b < length (all_blocks bs)" "ops (all_blocks bs ! b) = Partition p sb" "j < device_size bs b"
    and d: "ops (all_blocks bs ! p) = Disk d"
    and dis: "unat sa + unat (device_size bs a) \<le> unat sb \<or> unat sb + unat (device_size bs b) \<le> unat sa"
  shows "\<exists>bs'. block_write bs a i x = Some bs' \<and> map_option fst (block_read bs' a i) = Some x \<and>
     map_option fst (block_read bs' b j) = map_option fst (block_read bs b j)"
proof -
  have al: "a < length (all_blocks bs)" "writable bs a" using a(1) by (auto simp: device_ok_def)
  note ha = part_sector [OF ok al(1) a(2) a(3) [unfolded device_size_def]]
    and hb = part_sector [OF ok b(1,2) b(3) [unfolded device_size_def]]
  have p: "p < length (all_blocks bs)" using ha(3) al(1) by simp
  have ra: "resolves bs a i d (sa + i)"
    using resolves.part [OF al(1) a(2) _ resolves.disk [OF p d ha(2)]] a(3) by (simp add: device_size_def)
  have rb: "resolves bs b j d (sb + j)"
    using resolves.part [OF b(1,2) _ resolves.disk [OF p d hb(2)]] b(3) by (simp add: device_size_def)
  obtain bs' where w: "block_write bs a i x = Some bs'" "same_devices bs bs'"
      "disks bs' = (disks bs)(d := (disks bs d)(sa + i := x))"
    using block_write_run [OF ra al(2)] by blast
  have "sa + i \<noteq> sb + j"
    using dis ha(1) hb(1) a(3) b(3) by (auto simp: word_less_nat_alt dest: arg_cong [of _ _ unat])
  then show ?thesis
    using w block_read_run [OF resolves_same [OF ra w(2)]] block_read_run [OF resolves_same [OF rb w(2)]]
      block_read_run [OF rb] by auto
qed

definition demo_block :: "string \<Rightarrow> driver \<Rightarrow> u32 \<Rightarrow> block" where
  "demo_block name drv sz = \<lparr>bname = name, btype = BLOCK_RAW, bsize = sz, ops = drv, read_cnt = 0, write_cnt = 0\<rparr>"

text \<open>A disk whose partition table has one entry: an extended partition at sector 1.\<close>

definition demo_pt :: sector_data where
  "demo_pt = replicate 446 0 @ [0, 0, 0, 0, 0x05, 0, 0, 0, 1, 0, 0, 0, 9, 0, 0, 0] @ replicate 48 0 @ [0x55, 0xaa]"

definition demo_blocks :: blocks where
  "demo_blocks = \<lparr>all_blocks = [demo_block ''hda'' (Disk 0) 100, demo_block ''hda1'' (Partition 0 10) 20,
       demo_block ''hda2'' (Partition 0 30) 20],
     block_by_role = (\<lambda>_. None), disks = (\<lambda>_ _. demo_pt)\<rparr>"

lemma demo_blocks_ok: "blocks_ok demo_blocks" "device_ok 1 demo_blocks"
proof -
  show ok: "blocks_ok demo_blocks"
    by (auto simp: blocks_ok_def demo_blocks_def demo_block_def less_Suc_eq)
  have "writable demo_blocks 0" by (rule writable.disk [of _ _ 0]) (simp_all add: demo_blocks_def demo_block_def)
  then have "writable demo_blocks 1"
    by (rule writable.part [of _ _ 0 10, rotated 2]) (simp_all add: demo_blocks_def demo_block_def)
  then show "device_ok 1 demo_blocks" using ok by (simp add: device_ok_def demo_blocks_def)
qed

theorem partition_isolated_witness:
  "\<exists>bs'. block_write demo_blocks 1 5 [1, 2] = Some bs' \<and> map_option fst (block_read bs' 1 5) = Some [1, 2] \<and>
     map_option fst (block_read bs' 2 5) = map_option fst (block_read demo_blocks 2 5)"
  using partition_isolated [OF demo_blocks_ok, of 0 10 5 2 30 5 0 "[1, 2]"]
  by (simp add: demo_blocks_def demo_block_def device_size_def)



text \<open>
  C29.  The scan of a disk with an extended partition does not return: the recursive call reads
  the partition table of sector 0 again instead of the one in the sector it was given.  When the
  first entry of the table describes an extended partition at \<open>off\<close>, and \<open>off\<close> and \<open>2 off\<close> lie on the disk,
  no depth of recursion is enough.
\<close>

theorem extended_partition_diverges:
  assumes "b < length (all_blocks bs)" "ops (all_blocks bs ! b) = Disk d" "pt_signature (disks bs d 0) = 0xaa55"
    "is_extended (pe_type (pt_entry (disks bs d 0) 0))" "pe_size (pt_entry (disks bs d 0) 0) \<noteq> 0"
    "pe_offset (pt_entry (disks bs d 0) 0) = off" "0 < bsize (all_blocks bs ! b)"
    "off < bsize (all_blocks bs ! b)" "off + off < bsize (all_blocks bs ! b)"
  shows "partition_scan fuel True bs b = None"
  using extended_loops [OF assms, of 0] by (simp add: partition_scan_def)

theorem extended_partition_diverges_witness:
  "\<forall>fuel. partition_scan fuel True demo_blocks 0 = None"
proof
  have n: "demo_pt ! 450 = 5" "demo_pt ! 454 = 1" "demo_pt ! 455 = 0" "demo_pt ! 456 = 0" "demo_pt ! 457 = 0"
      "demo_pt ! 458 = 9" "demo_pt ! 459 = 0" "demo_pt ! 460 = 0" "demo_pt ! 461 = 0"
      "demo_pt ! 510 = 0x55" "demo_pt ! 511 = 0xaa"
    by (simp_all add: demo_pt_def nth_append)
  show "partition_scan fuel True demo_blocks 0 = None" for fuel
    using extended_partition_diverges [of 0 demo_blocks 0 1 fuel] n
    by (simp add: demo_blocks_def demo_block_def pt_signature_def pt_entry_def le16_def le32_def is_extended_def)
qed

end
