(* ===== verification/Inode.thy ===== *)
theory Inode
  imports Block Bitmap "HOL-Library.Signed_Division"
begin

text \<open>
  Inodes, open files and the free map: \<open>filesys/inode.c\<close>, \<open>filesys/file.c\<close>, \<open>filesys/free-map.c\<close> and
  the file operations of \<open>lib/kernel/bitmap.c\<close>.  The file system state holds the block devices, the
  in-memory inodes by address, the list of open inodes, the free map, and the file it is stored
  in.  An on-disk inode is the 512 bytes of its sector.  Offsets are C integers, so that division
  and remainder truncate toward zero.  A \<open>struct file\<close> is a value.  Whether the \<open>n\<close>-th memory
  allocation succeeds is a function of \<open>n\<close> in the state.
\<close>

section \<open>State\<close>

record inode =
  isector :: u32
  open_cnt :: int
  removed :: bool
  deny_write_cnt :: int
  idata :: sector_data

record open_file =
  finode :: nat
  fpos :: int
  fdeny :: bool

record fs =
  blks :: blocks
  fs_device :: nat
  inodes :: "nat \<Rightarrow> inode option"
  open_inodes :: "nat list"
  free_map :: bitmap
  free_map_file :: "open_file option"
  allocs :: nat
  alloc_ok :: "nat \<Rightarrow> bool"

abbreviation INODE_MAGIC :: u32 where "INODE_MAGIC \<equiv> 0x494e4f44"
abbreviation FREE_MAP_SECTOR :: u32 where "FREE_MAP_SECTOR \<equiv> 0"
abbreviation ROOT_DIR_SECTOR :: u32 where "ROOT_DIR_SECTOR \<equiv> 1"

text \<open>\<open>malloc\<close> and \<open>calloc\<close>: a new address, or \<open>NULL\<close>.\<close>

definition fs_malloc :: "fs \<Rightarrow> nat \<times> fs" where
  "fs_malloc f = (if alloc_ok f (allocs f) then allocs f + 1 else NULL, f\<lparr>allocs := allocs f + 1\<rparr>)"

definition bytes32 :: "u32 \<Rightarrow> u8 list" where
  "bytes32 v = [ucast v, ucast (drop_bit 8 v), ucast (drop_bit 16 v), ucast (drop_bit 24 v)]"

text \<open>The fields of an on-disk inode.\<close>

definition d_start :: "sector_data \<Rightarrow> u32" where "d_start d = le32 d 0"
definition d_length :: "sector_data \<Rightarrow> int" where "d_length d = sint (le32 d 4)"
definition d_symlink :: "sector_data \<Rightarrow> bool" where "d_symlink d \<longleftrightarrow> d ! 12 \<noteq> 0"

definition mk_inode_disk :: "u32 \<Rightarrow> int \<Rightarrow> sector_data" where
  "mk_inode_disk start len =
     bytes32 start @ bytes32 (word_of_int len) @ bytes32 INODE_MAGIC @ replicate 500 0"

section \<open>Reading and writing inodes\<close>

text \<open>\<open>DIV_ROUND_UP\<close> on a signed size; the sum must not overflow.\<close>

definition bytes_to_sectors :: "int \<Rightarrow> u32 option" where
  "bytes_to_sectors sz = do {
     ASSERT (sz + 512 - 1 < 2 ^ 31);
     Some (word_of_int ((sz + 512 - 1) sdiv 512))
   }"

definition byte_to_sector :: "inode \<Rightarrow> int \<Rightarrow> u32" where
  "byte_to_sector ino pos =
     (if pos < d_length (idata ino) then d_start (idata ino) + word_of_int (pos sdiv 512) else - 1)"

definition inode_length :: "inode \<Rightarrow> int" where
  "inode_length ino = d_length (idata ino)"

definition dev_read :: "fs \<Rightarrow> u32 \<Rightarrow> (sector_data \<times> fs) option" where
  "dev_read f s = do { (d, bs) \<leftarrow> block_read (blks f) (fs_device f) s; Some (d, f\<lparr>blks := bs\<rparr>) }"

definition dev_write :: "fs \<Rightarrow> u32 \<Rightarrow> sector_data \<Rightarrow> fs option" where
  "dev_write f s d = do { bs \<leftarrow> block_write (blks f) (fs_device f) s d; Some (f\<lparr>blks := bs\<rparr>) }"

text \<open>\<open>n\<close> bytes of a buffer from \<open>ofs\<close> on.\<close>

definition slice :: "u8 list \<Rightarrow> int \<Rightarrow> int \<Rightarrow> u8 list option" where
  "slice d ofs n = (if 0 \<le> ofs \<and> 0 \<le> n \<and> ofs + n \<le> int (length d) then Some (take (nat n) (drop (nat ofs) d)) else None)"

definition splice :: "u8 list \<Rightarrow> int \<Rightarrow> u8 list \<Rightarrow> u8 list option" where
  "splice d ofs x = (if 0 \<le> ofs \<and> ofs + int (length x) \<le> int (length d)
     then Some (take (nat ofs) d @ x @ drop (nat ofs + length x) d) else None)"

text \<open>The bytes of this sector to copy: the least of what is asked, what is left in the inode, and in the sector.\<close>

definition chunk_size :: "inode \<Rightarrow> int \<Rightarrow> int \<Rightarrow> int" where
  "chunk_size ino sz offset =
     (let sector_ofs = offset smod 512;
          inode_left = inode_length ino - offset;
          sector_left = 512 - sector_ofs;
          min_left = (if inode_left < sector_left then inode_left else sector_left)
      in if sz < min_left then sz else min_left)"

text \<open>\<open>bounce\<close> tells whether the bounce buffer has been allocated; \<open>acc\<close> is what the caller's buffer holds so far.\<close>

function inode_read_loop :: "fs \<Rightarrow> inode \<Rightarrow> int \<Rightarrow> int \<Rightarrow> bool \<Rightarrow> u8 list \<Rightarrow> (u8 list \<times> fs) option" where
  "inode_read_loop f ino sz offset bounce acc =
     (if 0 < sz then
        let sector_idx = byte_to_sector ino offset;
            sector_ofs = offset smod 512;
            chunk = chunk_size ino sz offset
        in if chunk \<le> 0 then Some (acc, f)
           else if sector_ofs = 0 \<and> chunk = 512 then
             Option.bind (dev_read f sector_idx) (\<lambda>(d, f).
               inode_read_loop f ino (sz - chunk) (offset + chunk) bounce (acc @ d))
           else
             let (p, f) = (if bounce then (1, f) else fs_malloc f)
             in if p = NULL then Some (acc, f)
                else Option.bind (dev_read f sector_idx) (\<lambda>(d, f).
                  Option.bind (slice d sector_ofs chunk) (\<lambda>x.
                    inode_read_loop f ino (sz - chunk) (offset + chunk) True (acc @ x)))
      else Some (acc, f))"
  by pat_completeness auto
termination by (relation "measure (\<lambda>(f, ino, sz, offset, bounce, acc). nat sz)") auto

declare inode_read_loop.simps [simp del]

definition inode_read_at :: "fs \<Rightarrow> nat \<Rightarrow> int \<Rightarrow> int \<Rightarrow> (u8 list \<times> fs) option" where
  "inode_read_at f i sz offset = do {
     ino \<leftarrow> inodes f i;
     inode_read_loop f ino sz offset False []
   }"

text \<open>\<open>w\<close> is the number of bytes written so far.\<close>

function inode_write_loop :: "fs \<Rightarrow> inode \<Rightarrow> u8 list \<Rightarrow> int \<Rightarrow> int \<Rightarrow> bool \<Rightarrow> int \<Rightarrow> (int \<times> fs) option" where
  "inode_write_loop f ino buf sz offset bounce w =
     (if 0 < sz then
        let sector_idx = byte_to_sector ino offset;
            sector_ofs = offset smod 512;
            sector_left = 512 - sector_ofs;
            chunk = chunk_size ino sz offset
        in if chunk \<le> 0 then Some (w, f)
           else if sector_ofs = 0 \<and> chunk = 512 then
             Option.bind (slice buf w chunk) (\<lambda>x.
               Option.bind (dev_write f sector_idx x) (\<lambda>f.
                 inode_write_loop f ino buf (sz - chunk) (offset + chunk) bounce (w + chunk)))
           else
             let (p, f) = (if bounce then (1, f) else fs_malloc f)
             in if p = NULL then Some (w, f)
                else Option.bind (if sector_ofs > 0 \<or> chunk < sector_left then dev_read f sector_idx
                             else Some (replicate 512 0, f)) (\<lambda>(d, f).
                  Option.bind (slice buf w chunk) (\<lambda>x.
                    Option.bind (splice d sector_ofs x) (\<lambda>d.
                      Option.bind (dev_write f sector_idx d) (\<lambda>f.
                        inode_write_loop f ino buf (sz - chunk) (offset + chunk) True (w + chunk)))))
      else Some (w, f))"
  by pat_completeness auto
termination by (relation "measure (\<lambda>(f, ino, buf, sz, offset, bounce, w). nat sz)") auto

declare inode_write_loop.simps [simp del]

definition inode_write_at :: "fs \<Rightarrow> nat \<Rightarrow> u8 list \<Rightarrow> int \<Rightarrow> int \<Rightarrow> (int \<times> fs) option" where
  "inode_write_at f i buf sz offset = do {
     ino \<leftarrow> inodes f i;
     if deny_write_cnt ino \<noteq> 0 then Some (0, f)
     else inode_write_loop f ino buf sz offset False 0
   }"

section \<open>The free map\<close>

definition file_read_at :: "fs \<Rightarrow> open_file \<Rightarrow> int \<Rightarrow> int \<Rightarrow> (u8 list \<times> fs) option" where
  "file_read_at f fl sz ofs = inode_read_at f (finode fl) sz ofs"

definition file_write_at :: "fs \<Rightarrow> open_file \<Rightarrow> u8 list \<Rightarrow> int \<Rightarrow> int \<Rightarrow> (int \<times> fs) option" where
  "file_write_at f fl buf sz ofs = inode_write_at f (finode fl) buf sz ofs"

text \<open>The words of a bitmap as they lie in memory.\<close>

definition word_bytes :: "u32 list \<Rightarrow> u8 list" where
  "word_bytes ws = concat (map bytes32 ws)"

definition bitmap_write :: "fs \<Rightarrow> bitmap \<Rightarrow> open_file \<Rightarrow> (bool \<times> fs) option" where
  "bitmap_write f b fl = do {
     let sz = sint (byte_cnt (bit_cnt b));
     (n, f) \<leftarrow> file_write_at f fl (word_bytes (bits b)) sz 0;
     Some (n = sz, f)
   }"

text \<open>The words that \<open>n\<close> bytes read over the words \<open>ws\<close> leave.\<close>

definition overwrite_words :: "u32 list \<Rightarrow> u8 list \<Rightarrow> u32 list" where
  "overwrite_words ws bs =
     (let all = bs @ drop (length bs) (word_bytes ws) in map (\<lambda>i. le32 all (4 * i)) [0..<length ws])"

definition bitmap_read :: "fs \<Rightarrow> bitmap \<Rightarrow> open_file \<Rightarrow> (bool \<times> bitmap \<times> fs) option" where
  "bitmap_read f b fl =
     (if bit_cnt b > 0 then do {
        let sz = sint (byte_cnt (bit_cnt b));
        (bs, f) \<leftarrow> file_read_at f fl sz 0;
        ASSERT (length bs \<le> 4 * length (bits b));
        let ws = overwrite_words (bits b) bs;
        let i = unat (elem_cnt (bit_cnt b) - 1);
        w \<leftarrow> rd ws i;
        ws \<leftarrow> wr ws i (w AND last_mask b);
        Some (int (length bs) = sz, b\<lparr>bits := ws\<rparr>, f)
      } else Some (True, b, f))"

definition free_map_allocate :: "fs \<Rightarrow> u32 \<Rightarrow> (u32 option \<times> fs) option" where
  "free_map_allocate f cnt = do {
     (sector, fm) \<leftarrow> bitmap_scan_and_flip (free_map f) 0 cnt False;
     let f = f\<lparr>free_map := fm\<rparr>;
     (ok, f) \<leftarrow> (if sector \<noteq> BITMAP_ERROR then
        (case free_map_file f of Some fl \<Rightarrow> bitmap_write f fm fl | None \<Rightarrow> Some (True, f)) else Some (True, f));
     if \<not> ok then do {
       fm \<leftarrow> bitmap_set_multiple (free_map f) sector cnt False;
       Some (None, f\<lparr>free_map := fm\<rparr>)
     } else Some (if sector \<noteq> BITMAP_ERROR then Some sector else None, f)
   }"

definition free_map_release :: "fs \<Rightarrow> u32 \<Rightarrow> u32 \<Rightarrow> fs option" where
  "free_map_release f sector cnt = do {
     a \<leftarrow> bitmap_all (free_map f) sector cnt;
     ASSERT a;
     fm \<leftarrow> bitmap_set_multiple (free_map f) sector cnt False;
     let f = f\<lparr>free_map := fm\<rparr>;
     fl \<leftarrow> free_map_file f;
     (_, f) \<leftarrow> bitmap_write f fm fl;
     Some f
   }"

section \<open>Inodes\<close>

definition inode_init :: "fs \<Rightarrow> fs" where
  "inode_init f = f\<lparr>open_inodes := []\<rparr>"

definition inode_create :: "fs \<Rightarrow> u32 \<Rightarrow> int \<Rightarrow> (bool \<times> fs) option" where
  "inode_create f sector len = do {
     ASSERT (len \<ge> 0);
     let (disk_inode, f) = fs_malloc f;
     if disk_inode \<noteq> NULL then do {
       sectors \<leftarrow> bytes_to_sectors len;
       (start, f) \<leftarrow> free_map_allocate f sectors;
       case start of
         None \<Rightarrow> Some (False, f)
       | Some start \<Rightarrow> do {
           f \<leftarrow> dev_write f sector (mk_inode_disk start len);
           f \<leftarrow> for_range 0 (unat sectors) (\<lambda>i f. dev_write f (start + of_nat i) (replicate 512 0)) f;
           Some (True, f)
         }
     } else Some (False, f)
   }"

definition set_inode :: "fs \<Rightarrow> nat \<Rightarrow> (inode \<Rightarrow> inode) \<Rightarrow> fs" where
  "set_inode f i g = f\<lparr>inodes := (inodes f)(i := map_option g (inodes f i))\<rparr>"

text \<open>A null pointer is returned unchanged.\<close>

definition inode_reopen :: "fs \<Rightarrow> nat \<Rightarrow> nat \<times> fs" where
  "inode_reopen f i = (i, if i \<noteq> NULL then set_inode f i (\<lambda>x. x\<lparr>open_cnt := open_cnt x + 1\<rparr>) else f)"

fun find_open :: "fs \<Rightarrow> nat list \<Rightarrow> u32 \<Rightarrow> nat option option" where
  "find_open f [] sector = Some None"
| "find_open f (i # is) sector = do {
     ino \<leftarrow> inodes f i;
     if isector ino = sector then Some (Some i) else find_open f is sector
   }"

definition inode_open :: "fs \<Rightarrow> u32 \<Rightarrow> (nat \<times> fs) option" where
  "inode_open f sector = do {
     e \<leftarrow> find_open f (open_inodes f) sector;
     case e of
       Some i \<Rightarrow> Some (inode_reopen f i)
     | None \<Rightarrow> do {
         let (i, f) = fs_malloc f;
         if i = NULL then Some (NULL, f)
         else do {
           let f = f\<lparr>open_inodes := i # open_inodes f\<rparr>;
           (d, f) \<leftarrow> dev_read f sector;
           Some (i, f\<lparr>inodes := (inodes f)(i \<mapsto>
             \<lparr>isector = sector, open_cnt = 1, removed = False, deny_write_cnt = 0, idata = d\<rparr>)\<rparr>)
         }
       }
   }"

definition inode_get_inumber :: "fs \<Rightarrow> nat \<Rightarrow> u32 option" where
  "inode_get_inumber f i = map_option isector (inodes f i)"

definition inode_close :: "fs \<Rightarrow> nat \<Rightarrow> fs option" where
  "inode_close f i =
     (if i = NULL then Some f
      else do {
        let f = set_inode f i (\<lambda>x. x\<lparr>open_cnt := open_cnt x - 1\<rparr>);
        ino \<leftarrow> inodes f i;
        if open_cnt ino = 0 then do {
          let f = f\<lparr>open_inodes := remove1 i (open_inodes f)\<rparr>;
          f \<leftarrow> (if removed ino then do {
                 f \<leftarrow> free_map_release f (isector ino) 1;
                 n \<leftarrow> bytes_to_sectors (d_length (idata ino));
                 free_map_release f (d_start (idata ino)) n
               } else Some f);
          Some (f\<lparr>inodes := (inodes f)(i := None)\<rparr>)
        } else Some f
      })"

definition inode_remove :: "fs \<Rightarrow> nat \<Rightarrow> fs option" where
  "inode_remove f i = do {
     ASSERT (i \<noteq> NULL);
     _ \<leftarrow> inodes f i;
     Some (set_inode f i (\<lambda>x. x\<lparr>removed := True\<rparr>))
   }"

definition inode_deny_write :: "fs \<Rightarrow> nat \<Rightarrow> fs option" where
  "inode_deny_write f i = do {
     ino \<leftarrow> inodes f i;
     ASSERT (deny_write_cnt ino + 1 \<le> open_cnt ino);
     Some (set_inode f i (\<lambda>x. x\<lparr>deny_write_cnt := deny_write_cnt x + 1\<rparr>))
   }"

definition inode_allow_write :: "fs \<Rightarrow> nat \<Rightarrow> fs option" where
  "inode_allow_write f i = do {
     ino \<leftarrow> inodes f i;
     ASSERT (deny_write_cnt ino > 0);
     ASSERT (deny_write_cnt ino \<le> open_cnt ino);
     Some (set_inode f i (\<lambda>x. x\<lparr>deny_write_cnt := deny_write_cnt x - 1\<rparr>))
   }"

definition inode_get_symlink :: "fs \<Rightarrow> nat \<Rightarrow> bool option" where
  "inode_get_symlink f i = do { ASSERT (i \<noteq> NULL); ino \<leftarrow> inodes f i; Some (d_symlink (idata ino)) }"

definition inode_set_symlink :: "fs \<Rightarrow> nat \<Rightarrow> bool \<Rightarrow> fs option" where
  "inode_set_symlink f i b = do {
     let f = set_inode f i (\<lambda>x. x\<lparr>idata := (idata x)[12 := if b then 1 else 0]\<rparr>);
     ino \<leftarrow> inodes f i;
     dev_write f (isector ino) (idata ino)
   }"

section \<open>Files\<close>

definition file_open :: "fs \<Rightarrow> nat \<Rightarrow> (open_file option \<times> fs) option" where
  "file_open f i = do {
     let (p, f) = fs_malloc f;
     if i \<noteq> NULL \<and> p \<noteq> NULL then Some (Some \<lparr>finode = i, fpos = 0, fdeny = False\<rparr>, f)
     else do { f \<leftarrow> inode_close f i; Some (None, f) }
   }"

definition file_reopen :: "fs \<Rightarrow> open_file \<Rightarrow> (open_file option \<times> fs) option" where
  "file_reopen f fl = (let (i, f) = inode_reopen f (finode fl) in file_open f i)"

definition file_allow_write :: "fs \<Rightarrow> open_file \<Rightarrow> (open_file \<times> fs) option" where
  "file_allow_write f fl =
     (if fdeny fl then do { f \<leftarrow> inode_allow_write f (finode fl); Some (fl\<lparr>fdeny := False\<rparr>, f) }
      else Some (fl, f))"

definition file_deny_write :: "fs \<Rightarrow> open_file \<Rightarrow> (open_file \<times> fs) option" where
  "file_deny_write f fl =
     (if \<not> fdeny fl then do { f \<leftarrow> inode_deny_write f (finode fl); Some (fl\<lparr>fdeny := True\<rparr>, f) }
      else Some (fl, f))"

definition file_close :: "fs \<Rightarrow> open_file option \<Rightarrow> fs option" where
  "file_close f fo =
     (case fo of
        None \<Rightarrow> Some f
      | Some fl \<Rightarrow> do { (fl, f) \<leftarrow> file_allow_write f fl; inode_close f (finode fl) })"

definition file_get_inode :: "open_file \<Rightarrow> nat" where
  "file_get_inode fl = finode fl"

definition file_read :: "fs \<Rightarrow> open_file \<Rightarrow> int \<Rightarrow> (u8 list \<times> open_file \<times> fs) option" where
  "file_read f fl sz = do {
     (bs, f) \<leftarrow> inode_read_at f (finode fl) sz (fpos fl);
     Some (bs, fl\<lparr>fpos := fpos fl + int (length bs)\<rparr>, f)
   }"

definition file_write :: "fs \<Rightarrow> open_file \<Rightarrow> u8 list \<Rightarrow> int \<Rightarrow> (int \<times> open_file \<times> fs) option" where
  "file_write f fl buf sz = do {
     (n, f) \<leftarrow> inode_write_at f (finode fl) buf sz (fpos fl);
     Some (n, fl\<lparr>fpos := fpos fl + n\<rparr>, f)
   }"

definition file_length :: "fs \<Rightarrow> open_file \<Rightarrow> int option" where
  "file_length f fl = map_option inode_length (inodes f (finode fl))"

definition file_seek :: "open_file \<Rightarrow> int \<Rightarrow> open_file option" where
  "file_seek fl new_pos = do { ASSERT (new_pos \<ge> 0); Some (fl\<lparr>fpos := new_pos\<rparr>) }"

definition file_tell :: "open_file \<Rightarrow> int" where
  "file_tell fl = fpos fl"

section \<open>Initializing the free map\<close>

text \<open>\<open>junk\<close> is what the memory of the new bitmap holds.\<close>

definition free_map_init :: "fs \<Rightarrow> u32 list \<Rightarrow> fs option" where
  "free_map_init f junk = do {
     blk \<leftarrow> rd (all_blocks (blks f)) (fs_device f);
     let (p, f) = fs_malloc f;
     let (q, f) = (if p \<noteq> NULL then fs_malloc f else (NULL, f));
     r \<leftarrow> bitmap_create (p \<noteq> NULL) (\<lambda>n. if q \<noteq> NULL then Some junk else None) (block_size blk);
     fm \<leftarrow> r;
     fm \<leftarrow> bitmap_mark fm FREE_MAP_SECTOR;
     fm \<leftarrow> bitmap_mark fm ROOT_DIR_SECTOR;
     Some (f\<lparr>free_map := fm\<rparr>)
   }"

definition free_map_open :: "fs \<Rightarrow> fs option" where
  "free_map_open f = do {
     (i, f) \<leftarrow> inode_open f FREE_MAP_SECTOR;
     (fo, f) \<leftarrow> file_open f i;
     let f = f\<lparr>free_map_file := fo\<rparr>;
     fl \<leftarrow> fo;
     (ok, fm, f) \<leftarrow> bitmap_read f (free_map f) fl;
     ASSERT ok;
     Some (f\<lparr>free_map := fm\<rparr>)
   }"

definition free_map_close :: "fs \<Rightarrow> fs option" where
  "free_map_close f = file_close f (free_map_file f)"

definition free_map_create :: "fs \<Rightarrow> fs option" where
  "free_map_create f = do {
     (ok, f) \<leftarrow> inode_create f FREE_MAP_SECTOR (sint (bitmap_file_size (free_map f)));
     ASSERT ok;
     (i, f) \<leftarrow> inode_open f FREE_MAP_SECTOR;
     (fo, f) \<leftarrow> file_open f i;
     let f = f\<lparr>free_map_file := fo\<rparr>;
     fl \<leftarrow> fo;
     (ok, f) \<leftarrow> bitmap_write f (free_map f) fl;
     ASSERT ok;
     Some f
   }"

section \<open>The disk seen through the file system\<close>

definition sec :: "fs \<Rightarrow> u32 \<Rightarrow> sector_data" where
  "sec f s = contents (blks f) (fs_device f) s"

definition dsize :: "fs \<Rightarrow> nat" where
  "dsize f = unat (device_size (blks f) (fs_device f))"

definition disk_ok :: "fs \<Rightarrow> bool" where
  "disk_ok f \<longleftrightarrow> device_ok (fs_device f) (blks f) \<and> (\<forall>s. unat s < dsize f \<longrightarrow> length (sec f s) = 512)"

text \<open>\<open>f'\<close> differs from \<open>f\<close> in the disk, whose sectors are now \<open>g\<close>, and in the number of allocations made.\<close>

definition disk_to :: "fs \<Rightarrow> (u32 \<Rightarrow> sector_data) \<Rightarrow> fs \<Rightarrow> bool" where
  "disk_to f g f' \<longleftrightarrow> f' = f\<lparr>blks := blks f', allocs := allocs f'\<rparr> \<and> allocs f \<le> allocs f' \<and> disk_ok f' \<and> dsize f' = dsize f \<and>
     (\<forall>s. unat s < dsize f \<longrightarrow> sec f' s = g s)"

lemma disk_to_refl [simp]: "disk_ok f \<Longrightarrow> disk_to f (sec f) f"
  by (simp add: disk_to_def)

lemma disk_toD:
  assumes "disk_to f g f'"
  shows "disk_ok f'" "dsize f' = dsize f" "unat s < dsize f \<Longrightarrow> sec f' s = g s" "inodes f' = inodes f"
    "open_inodes f' = open_inodes f" "free_map f' = free_map f" "free_map_file f' = free_map_file f"
    "alloc_ok f' = alloc_ok f" "fs_device f' = fs_device f" "allocs f \<le> allocs f'"
proof -
  have u: "f' = f\<lparr>blks := blks f', allocs := allocs f'\<rparr>" using assms unfolding disk_to_def by blast
  show "disk_ok f'" "dsize f' = dsize f" "unat s < dsize f \<Longrightarrow> sec f' s = g s" "allocs f \<le> allocs f'"
    using assms unfolding disk_to_def by blast+
  show "inodes f' = inodes f" by (subst u) simp
  show "open_inodes f' = open_inodes f" by (subst u) simp
  show "free_map f' = free_map f" by (subst u) simp
  show "free_map_file f' = free_map_file f" by (subst u) simp
  show "alloc_ok f' = alloc_ok f" by (subst u) simp
  show "fs_device f' = fs_device f" by (subst u) simp
qed

lemma disk_to_trans:
  assumes "disk_to f g f'" "disk_to f' h f''" "\<And>s. unat s < dsize f \<Longrightarrow> h s = k s"
  shows "disk_to f k f''"
proof -
  have "f'' = f'\<lparr>blks := blks f'', allocs := allocs f''\<rparr>" "f' = f\<lparr>blks := blks f', allocs := allocs f'\<rparr>"
    using assms(1,2) unfolding disk_to_def by blast+
  then have "f'' = f\<lparr>blks := blks f'', allocs := allocs f''\<rparr>" by (cases f; cases f'; cases f''; simp)
  then show ?thesis using assms unfolding disk_to_def by auto
qed

lemma disk_to_malloc: "disk_ok f \<Longrightarrow> disk_to f (sec f) (snd (fs_malloc f))"
  by (simp add: disk_to_def fs_malloc_def disk_ok_def dsize_def sec_def)

lemma dev_read_run:
  assumes ok: "disk_ok f" and s: "unat s < dsize f"
  shows "\<exists>f'. dev_read f s = Some (sec f s, f') \<and> disk_to f (sec f) f'"
proof -
  have "s < device_size (blks f) (fs_device f)" using s by (simp add: dsize_def word_less_nat_alt)
  then obtain bs where b: "block_read (blks f) (fs_device f) s = Some (sec f s, bs)" "device_ok (fs_device f) bs"
      "device_size bs (fs_device f) = device_size (blks f) (fs_device f)"
      "\<forall>j<device_size (blks f) (fs_device f). contents bs (fs_device f) j = contents (blks f) (fs_device f) j"
    using dev.read_ok [of "fs_device f" "blks f" s] ok by (auto simp: disk_ok_def sec_def)
  then have "disk_to f (sec f) (f\<lparr>blks := bs\<rparr>)"
    using ok by (simp add: disk_to_def disk_ok_def dsize_def sec_def word_less_nat_alt)
  then show ?thesis using b(1) by (auto simp: dev_read_def)
qed

lemma dev_write_run:
  assumes ok: "disk_ok f" and s: "unat s < dsize f" and x: "length x = 512"
  shows "\<exists>f'. dev_write f s x = Some f' \<and> disk_to f ((sec f)(s := x)) f'"
proof -
  have "s < device_size (blks f) (fs_device f)" using s by (simp add: dsize_def word_less_nat_alt)
  then obtain bs where b: "block_write (blks f) (fs_device f) s x = Some bs" "device_ok (fs_device f) bs"
      "device_size bs (fs_device f) = device_size (blks f) (fs_device f)"
      "\<forall>j<device_size (blks f) (fs_device f). contents bs (fs_device f) j = (if j = s then x else contents (blks f) (fs_device f) j)"
    using dev.put_ok [of "fs_device f" "blks f" s x] ok by (auto simp: disk_ok_def)
  then have "disk_to f ((sec f)(s := x)) (f\<lparr>blks := bs\<rparr>)"
    using ok x by (simp add: disk_to_def disk_ok_def dsize_def sec_def word_less_nat_alt)
  then show ?thesis using b(1) by (auto simp: dev_write_def)
qed

lemma dev_write_past_end:
  "disk_ok f \<Longrightarrow> dsize f \<le> unat s \<Longrightarrow> dev_write f s x = None \<and> dev_read f s = None"
  using dev.past_end [of "fs_device f" "blks f" s x]
  by (simp add: dev_write_def dev_read_def disk_ok_def dsize_def word_le_nat_alt)

section \<open>The bytes of an inode\<close>

definition flen :: "inode \<Rightarrow> nat" where
  "flen ino = nat (d_length (idata ino))"

definition fstart :: "inode \<Rightarrow> nat" where
  "fstart ino = unat (d_start (idata ino))"

text \<open>The length is not negative, and the data sectors lie on the device.\<close>

definition inode_ok :: "fs \<Rightarrow> inode \<Rightarrow> bool" where
  "inode_ok f ino \<longleftrightarrow> 0 \<le> d_length (idata ino) \<and> fstart ino + (flen ino + 511) div 512 \<le> dsize f"

definition fsector :: "inode \<Rightarrow> nat \<Rightarrow> u32" where
  "fsector ino k = d_start (idata ino) + of_nat (k div 512)"

definition fbyte :: "fs \<Rightarrow> inode \<Rightarrow> nat \<Rightarrow> u8" where
  "fbyte f ino k = sec f (fsector ino k) ! (k mod 512)"

definition file_bytes :: "fs \<Rightarrow> inode \<Rightarrow> u8 list" where
  "file_bytes f ino = map (fbyte f ino) [0..<flen ino]"

lemma length_file_bytes [simp]: "length (file_bytes f ino) = flen ino"
  by (simp add: file_bytes_def)

lemma sdiv_smod_nat: "int a sdiv 512 = int (a div 512)" "int a smod 512 = int (a mod 512)"
proof -
  have "a = 0 \<or> sgn (int a) = 1" by (cases a) simp_all
  then show "int a sdiv 512 = int (a div 512)" "int a smod 512 = int (a mod 512)"
    by (elim disjE; simp add: signed_divide_int_def signed_modulo_int_def zdiv_int zmod_int)+
qed

lemma dsize_lt: "dsize f < 2 ^ 32"
  by (simp only: dsize_def unat_lt_32)

lemma fsector_in:
  assumes "inode_ok f ino" "k < flen ino"
  shows "unat (fsector ino k) = fstart ino + k div 512" "unat (fsector ino k) < dsize f"
proof -
  have "k div 512 < (flen ino + 511) div 512" using assms(2) by linarith
  then have l: "fstart ino + k div 512 < dsize f" using assms(1) by (simp add: inode_ok_def)
  have k: "k div 512 < 2 ^ 32" using l dsize_lt [of f] by linarith
  have "unat (fsector ino k) = (fstart ino + k div 512) mod 2 ^ 32"
    using k by (simp add: fsector_def fstart_def unat_word_ariths unat_of_nat)
  then show "unat (fsector ino k) = fstart ino + k div 512" using l dsize_lt [of f] by simp
  then show "unat (fsector ino k) < dsize f" using l by simp
qed

lemma byte_to_sector_in:
  "inode_ok f ino \<Longrightarrow> k < flen ino \<Longrightarrow> byte_to_sector ino (int k) = fsector ino k"
  by (simp add: byte_to_sector_def flen_def fsector_def sdiv_smod_nat zless_nat_eq_int_zless)

lemma sector_split: "r < 512 \<Longrightarrow> (q * 512 + r) div 512 = q" "r < 512 \<Longrightarrow> (q * 512 + r) mod 512 = r"
  for q r :: nat
  by simp_all

text \<open>The bytes of a sector that belong to one step.\<close>

lemma chunk_bytes:
  assumes "disk_ok f" "inode_ok f ino" "k + c \<le> flen ino" "c \<le> 512 - k mod 512" "0 < c"
  shows "take c (drop (k mod 512) (sec f (fsector ino k))) = map (fbyte f ino) [k..<k + c]"
proof (rule nth_equalityI)
  have l: "length (sec f (fsector ino k)) = 512"
    using assms(1) fsector_in(2) [OF assms(2), of k] assms(3,5) by (simp add: disk_ok_def)
  have m: "k mod 512 < 512" by simp
  show "length (take c (drop (k mod 512) (sec f (fsector ino k)))) = length (map (fbyte f ino) [k..<k + c])"
    using l assms(4) m by simp
  fix i assume "i < length (take c (drop (k mod 512) (sec f (fsector ino k))))"
  then have i: "i < c" by simp
  have d: "(k + i) div 512 = k div 512" "(k + i) mod 512 = k mod 512 + i"
  proof -
    have s: "k mod 512 + i < 512" using i assms(4) m by linarith
    have e: "k + i = k div 512 * 512 + (k mod 512 + i)" by simp
    show "(k + i) div 512 = k div 512" "(k + i) mod 512 = k mod 512 + i"
      using s sector_split [of "k mod 512 + i" "k div 512"] by (subst e, simp)+
  qed
  show "take c (drop (k mod 512) (sec f (fsector ino k))) ! i = map (fbyte f ino) [k..<k + c] ! i"
    using i l assms(4) m d by (simp add: fbyte_def fsector_def)
qed

text \<open>The number of bytes the loops move, in all and in one step.\<close>

definition moved :: "inode \<Rightarrow> nat \<Rightarrow> nat \<Rightarrow> nat" where
  "moved ino z a = min z (flen ino - a)"

definition step :: "inode \<Rightarrow> nat \<Rightarrow> nat \<Rightarrow> nat" where
  "step ino z a = min z (min (flen ino - a) (512 - a mod 512))"

lemma chunk_size_nat:
  assumes "0 \<le> d_length (idata ino)"
  shows "0 < z \<Longrightarrow> a < flen ino \<Longrightarrow> chunk_size ino (int z) (int a) = int (step ino z a)"
    and "flen ino \<le> a \<Longrightarrow> chunk_size ino (int z) (int a) \<le> 0"
proof -
  define r where "r = a mod 512"
  have m: "r < 512" by (simp add: r_def)
  have l: "d_length (idata ino) = int (flen ino)" using assms by (simp add: flen_def)
  show "0 < z \<Longrightarrow> a < flen ino \<Longrightarrow> chunk_size ino (int z) (int a) = int (step ino z a)"
    unfolding chunk_size_def step_def inode_length_def sdiv_smod_nat l Let_def r_def [symmetric] using m
    by (simp split: if_split)
  show "flen ino \<le> a \<Longrightarrow> chunk_size ino (int z) (int a) \<le> 0"
    using m by (simp add: chunk_size_def inode_length_def sdiv_smod_nat l Let_def flip: r_def)
qed

lemma step_bounds:
  assumes "0 < z" "a < flen ino"
  shows "0 < step ino z a" "step ino z a \<le> z" "a + step ino z a \<le> flen ino" "a mod 512 + step ino z a \<le> 512"
    "step ino z a + moved ino (z - step ino z a) (a + step ino z a) = moved ino z a"
proof -
  define r where "r = a mod 512"
  have m: "r < 512" by (simp add: r_def)
  show "0 < step ino z a" "step ino z a \<le> z" "a + step ino z a \<le> flen ino" "a mod 512 + step ino z a \<le> 512"
    "step ino z a + moved ino (z - step ino z a) (a + step ino z a) = moved ino z a"
    unfolding step_def moved_def r_def [symmetric] min_def using assms m by auto
qed

lemma inode_ok_disk_to: "disk_to f g f' \<Longrightarrow> inode_ok f ino \<Longrightarrow> inode_ok f' ino"
  using disk_toD(2) [of f g f'] by (simp add: inode_ok_def)

lemma fbyte_disk_to:
  assumes "disk_to f (sec f) f'" "inode_ok f ino" "k < flen ino"
  shows "fbyte f' ino k = fbyte f ino k"
  using disk_toD(3) [OF assms(1) fsector_in(2) [OF assms(2,3)]] by (simp add: fbyte_def)

text \<open>Allocating the bounce buffer, unless it has been allocated.\<close>

lemma bounce_run:
  assumes "disk_ok f" "\<forall>n. alloc_ok f n"
  shows "\<exists>f' p. (if bounce then (1, f) else fs_malloc f) = (p, f') \<and> p \<noteq> NULL \<and> disk_to f (sec f) f'"
  using assms disk_to_malloc [OF assms(1)] by (simp add: fs_malloc_def)

section \<open>Reading\<close>

lemma inode_read_loop_stop:
  assumes "0 \<le> d_length (idata ino)" "\<not> (0 < z \<and> a < flen ino)"
  shows "inode_read_loop f ino (int z) (int a) bounce acc = Some (acc, f)" "moved ino z a = 0"
  using assms(2) chunk_size_nat(2) [OF assms(1), of a z]
  by (subst inode_read_loop.simps, auto simp: Let_def moved_def)

lemma inode_read_step:
  assumes f: "disk_ok f" and ino: "inode_ok f ino" and mem: "\<forall>n. alloc_ok f n" and z: "0 < z" "a < flen ino" and c: "c = step ino z a"
  shows "\<exists>g bn. inode_read_loop f ino (int z) (int a) bounce acc =
      inode_read_loop g ino (int (z - c)) (int (a + c)) bn (acc @ map (fbyte f ino) [a..<a + c]) \<and> disk_to f (sec f) g"
proof -
  have l: "0 \<le> d_length (idata ino)" using ino by (simp add: inode_ok_def)
  have cz: "0 < c" "c \<le> z" "a + c \<le> flen ino" "a mod 512 + c \<le> 512" using step_bounds [OF z] by (simp_all add: c)
  have ch: "chunk_size ino (int z) (int a) = int c" using chunk_size_nat(1) [OF l z] by (simp add: c)
  have sx: "byte_to_sector ino (int a) = fsector ino a" using byte_to_sector_in [OF ino z(2)] .
  have sl: "unat (fsector ino a) < dsize f" using fsector_in(2) [OF ino z(2)] .
  have cb: "take c (drop (a mod 512) (sec f (fsector ino a))) = map (fbyte f ino) [a..<a + c]"
    using chunk_bytes [OF f ino] cz by simp
  have len: "length (sec f (fsector ino a)) = 512" using f sl by (simp add: disk_ok_def)
  show ?thesis
  proof (cases "a mod 512 = 0 \<and> c = 512")
    case True
    obtain g where g: "dev_read f (fsector ino a) = Some (sec f (fsector ino a), g)" "disk_to f (sec f) g"
      using dev_read_run [OF f sl] by blast
    have "inode_read_loop f ino (int z) (int a) bounce acc =
        inode_read_loop g ino (int (z - c)) (int (a + c)) bounce (acc @ map (fbyte f ino) [a..<a + c])"
      using True z cz cb len g(1) by (subst inode_read_loop.simps) (simp add: Let_def ch sx sdiv_smod_nat of_nat_diff)
    then show ?thesis using g(2) by blast
  next
    case False
    obtain f1 p where b: "(if bounce then (1, f) else fs_malloc f) = (p, f1)" "p \<noteq> NULL" "disk_to f (sec f) f1"
      using bounce_run [OF f mem, of bounce] by blast
    obtain g where g: "dev_read f1 (fsector ino a) = Some (sec f1 (fsector ino a), g)" "disk_to f1 (sec f1) g"
      using dev_read_run [OF disk_toD(1) [OF b(3)]] disk_toD(2) [OF b(3)] sl by metis
    have "slice (sec f1 (fsector ino a)) (int (a mod 512)) (int c) = Some (map (fbyte f ino) [a..<a + c])"
      using cb len cz(4) disk_toD(3) [OF b(3) sl] by (simp add: slice_def)
    then have "inode_read_loop f ino (int z) (int a) bounce acc =
        inode_read_loop g ino (int (z - c)) (int (a + c)) True (acc @ map (fbyte f ino) [a..<a + c])"
      using False z cz(1,2) b(1,2) g(1) by (subst inode_read_loop.simps) (auto simp: Let_def ch sx sdiv_smod_nat of_nat_diff)
    then show ?thesis using disk_to_trans [OF b(3) g(2) disk_toD(3) [OF b(3)]] by blast
  qed
qed

lemma inode_read_loop_run:
  assumes "disk_ok f" "inode_ok f ino" "\<forall>n. alloc_ok f n"
  shows "\<exists>f'. inode_read_loop f ino (int z) (int a) bounce acc =
      Some (acc @ map (fbyte f ino) [a..<a + moved ino z a], f') \<and> disk_to f (sec f) f'"
  using assms
proof (induction z arbitrary: f a bounce acc rule: less_induct)
  case (less z)
  show ?case
  proof (cases "0 < z \<and> a < flen ino")
    case False
    then show ?thesis using inode_read_loop_stop [of ino z a] less.prems(1,2) by (auto simp: inode_ok_def)
  next
    case True
    define c where "c = step ino z a"
    have c: "0 < c" "c \<le> z" "c + moved ino (z - c) (a + c) = moved ino z a"
      using step_bounds [of z a ino] True by (simp_all add: c_def)
    obtain g bn where g: "inode_read_loop f ino (int z) (int a) bounce acc =
        inode_read_loop g ino (int (z - c)) (int (a + c)) bn (acc @ map (fbyte f ino) [a..<a + c])" "disk_to f (sec f) g"
      using inode_read_step [OF less.prems _ _ c_def] True by blast
    have "\<exists>f'. inode_read_loop g ino (int (z - c)) (int (a + c)) bn (acc @ map (fbyte f ino) [a..<a + c]) =
        Some ((acc @ map (fbyte f ino) [a..<a + c]) @ map (fbyte g ino) [a + c..<a + c + moved ino (z - c) (a + c)], f') \<and>
        disk_to g (sec g) f'"
    proof (rule less.IH)
      show "z - c < z" using c(1,2) by simp
      show "\<forall>n. alloc_ok g n" using disk_toD(8) [OF g(2)] less.prems(3) by simp
    qed (use disk_toD(1) [OF g(2)] inode_ok_disk_to [OF g(2) less.prems(2)] in simp_all)
    moreover have "map (fbyte g ino) [a + c..<a + c + moved ino (z - c) (a + c)] = map (fbyte f ino) [a + c..<a + moved ino z a]"
    proof (rule map_cong)
      show "[a + c..<a + c + moved ino (z - c) (a + c)] = [a + c..<a + moved ino z a]" using c(3) by (simp add: add.assoc)
      have "a + moved ino z a \<le> flen ino" using True by (auto simp: moved_def)
      then show "fbyte g ino k = fbyte f ino k" if "k \<in> set [a + c..<a + moved ino z a]" for k
        using that fbyte_disk_to [OF g(2) less.prems(2), of k] by simp
    qed
    moreover have "map (fbyte f ino) [a..<a + c] @ map (fbyte f ino) [a + c..<a + moved ino z a] = map (fbyte f ino) [a..<a + moved ino z a]"
      using c(3) upt_add_eq_append [of a "a + c" "moved ino (z - c) (a + c)"] by (simp add: add.assoc flip: map_append)
    ultimately show ?thesis using disk_to_trans [OF g(2) _ disk_toD(3) [OF g(2)]] g(1) by auto
  qed
qed

section \<open>Writing\<close>

text \<open>The sectors after the bytes \<open>bs\<close> have been put at offset \<open>a\<close> of the inode.\<close>

definition written :: "fs \<Rightarrow> inode \<Rightarrow> nat \<Rightarrow> u8 list \<Rightarrow> u32 \<Rightarrow> sector_data" where
  "written f ino a bs s = map (\<lambda>j.
     let p = 512 * (unat s - fstart ino) + j
     in if fstart ino \<le> unat s \<and> a \<le> p \<and> p < a + length bs then bs ! (p - a) else sec f s ! j) [0..<512]"

lemma length_written [simp]: "length (written f ino a bs s) = 512"
  by (simp add: written_def)

lemma written_nth:
  assumes "j < 512" "p = 512 * (unat s - fstart ino) + j"
  shows "written f ino a bs s ! j = (if fstart ino \<le> unat s \<and> a \<le> p \<and> p < a + length bs then bs ! (p - a) else sec f s ! j)"
proof -
  have "[0..<512] ! j = j" using assms(1) by (simp del: upt_conv_Cons)
  then show ?thesis using assms by (simp add: written_def Let_def del: upt_conv_Cons)
qed

lemma written_nil: "disk_ok f \<Longrightarrow> unat s < dsize f \<Longrightarrow> written f ino a [] s = sec f s"
  by (rule nth_equalityI) (auto simp: written_nth disk_ok_def)

lemma written_append:
  assumes "disk_to f (written f ino a xs) g" "unat s < dsize f"
  shows "written g ino (a + length xs) ys s = written f ino a (xs @ ys) s"
  by (rule nth_equalityI) (auto simp: written_nth nth_append disk_toD(3) [OF assms])

lemma sector_pos:
  fixes j r n d q :: nat
  assumes "j < 512" "r + n \<le> 512" "a = 512 * d + r"
  shows "a \<le> 512 * q + j \<and> 512 * q + j < a + n \<longleftrightarrow> q = d \<and> r \<le> j \<and> j < r + n" "q = d \<Longrightarrow> 512 * q + j - a = j - r"
proof
  assume "a \<le> 512 * q + j \<and> 512 * q + j < a + n"
  then have h: "a \<le> 512 * q + j" "512 * q + j < a + n" by blast+
  then have "q < d + 1" "d < q + 1" using assms by linarith+
  with h show "q = d \<and> r \<le> j \<and> j < r + n" using assms(3) by auto
qed (use assms in auto)

lemma written_sector:
  assumes f: "disk_ok f" and ino: "inode_ok f ino" and a: "a + length bs \<le> flen ino" "a mod 512 + length bs \<le> 512" "bs \<noteq> []"
    and s: "unat s < dsize f"
  shows "written f ino a bs s = (if s = fsector ino a
     then take (a mod 512) (sec f s) @ bs @ drop (a mod 512 + length bs) (sec f s) else sec f s)"
proof -
  have u: "unat (fsector ino a) = fstart ino + a div 512" using fsector_in(1) [OF ino] a(1,3) by (cases bs) simp_all
  have len: "length (sec f s) = 512" using f s by (simp add: disk_ok_def)
  have w: "written f ino a bs s ! j = (if s = fsector ino a \<and> a mod 512 \<le> j \<and> j < a mod 512 + length bs then bs ! (j - a mod 512) else sec f s ! j)"
    if j: "j < 512" for j
  proof -
    let ?q = "unat s - fstart ino"
    have s: "s = fsector ino a \<longleftrightarrow> fstart ino \<le> unat s \<and> ?q = a div 512" using u by (auto simp: word_unat_eq_iff)
    have "a = 512 * (a div 512) + a mod 512" by simp
    note sector_pos [OF j a(2) this, of ?q]
    then show ?thesis using written_nth [OF j refl, of f ino a bs s] s by (auto cong: if_cong)
  qed
  show ?thesis
  proof (rule nth_equalityI)
    show "length (written f ino a bs s) = length (if s = fsector ino a
       then take (a mod 512) (sec f s) @ bs @ drop (a mod 512 + length bs) (sec f s) else sec f s)"
      using len a(2) by (cases "s = fsector ino a") simp_all
    show "written f ino a bs s ! j = (if s = fsector ino a
       then take (a mod 512) (sec f s) @ bs @ drop (a mod 512 + length bs) (sec f s) else sec f s) ! j"
      if "j < length (written f ino a bs s)" for j
      using that len a(2) w [of j] by (auto simp: nth_append)
  qed
qed

lemma inode_write_loop_stop:
  assumes "0 \<le> d_length (idata ino)" "\<not> (0 < z \<and> a < flen ino)"
  shows "inode_write_loop f ino buf (int z) (int a) bounce w = Some (w, f)" "moved ino z a = 0"
  using assms(2) chunk_size_nat(2) [OF assms(1), of a z]
  by (subst inode_write_loop.simps, auto simp: Let_def moved_def)

lemma inode_write_step:
  assumes f: "disk_ok f" and ino: "inode_ok f ino" and mem: "\<forall>n. alloc_ok f n" and z: "0 < z" "a < flen ino"
    and c: "c = step ino z a" and w: "w + z \<le> length buf"
  shows "\<exists>g bn. inode_write_loop f ino buf (int z) (int a) bounce (int w) =
      inode_write_loop g ino buf (int (z - c)) (int (a + c)) bn (int (w + c)) \<and>
      disk_to f (written f ino a (take c (drop w buf))) g"
proof -
  let ?s = "fsector ino a" and ?x = "take c (drop w buf)"
  have l: "0 \<le> d_length (idata ino)" using ino by (simp add: inode_ok_def)
  have cz: "0 < c" "c \<le> z" "a + c \<le> flen ino" "a mod 512 + c \<le> 512" using step_bounds [OF z] by (simp_all add: c)
  have ch: "chunk_size ino (int z) (int a) = int c" using chunk_size_nat(1) [OF l z] by (simp add: c)
  have sx: "byte_to_sector ino (int a) = ?s" using byte_to_sector_in [OF ino z(2)] .
  have sl: "unat ?s < dsize f" using fsector_in(2) [OF ino z(2)] .
  have x: "slice buf (int w) (int c) = Some ?x" "length ?x = c" using w cz(2) by (simp_all add: slice_def)
  have ws: "written f ino a ?x s = (if s = ?s then take (a mod 512) (sec f s) @ ?x @ drop (a mod 512 + c) (sec f s) else sec f s)"
    if "unat s < dsize f" for s
    using written_sector [OF f ino _ _ _ that, of a ?x] cz x(2) by (cases "?x = []") auto
  have len: "length (sec f ?s) = 512" using f sl by (simp add: disk_ok_def)
  show ?thesis
  proof (cases "a mod 512 = 0 \<and> c = 512")
    case True
    then obtain g where g: "dev_write f ?s ?x = Some g" "disk_to f ((sec f)(?s := ?x)) g"
      using dev_write_run [OF f sl] x(2) by blast
    have "inode_write_loop f ino buf (int z) (int a) bounce (int w) =
        inode_write_loop g ino buf (int (z - c)) (int (a + c)) bounce (int (w + c))"
      using True z cz x g(1) by (subst inode_write_loop.simps) (simp add: Let_def ch sx sdiv_smod_nat of_nat_diff)
    moreover have "disk_to f (written f ino a ?x) g"
      using g(2) ws True len by (auto simp: disk_to_def)
    ultimately show ?thesis by blast
  next
    case False
    let ?d = "take (a mod 512) (sec f ?s) @ ?x @ drop (a mod 512 + c) (sec f ?s)"
    obtain f1 p where b: "(if bounce then (1, f) else fs_malloc f) = (p, f1)" "p \<noteq> NULL" "disk_to f (sec f) f1"
      using bounce_run [OF f mem, of bounce] by blast
    obtain f2 where r: "dev_read f1 ?s = Some (sec f ?s, f2)" "disk_to f (sec f) f2"
      using dev_read_run [OF disk_toD(1) [OF b(3)], of ?s] disk_toD(2,3) [OF b(3)] sl disk_to_trans [OF b(3)] by metis
    obtain g where g: "dev_write f2 ?s ?d = Some g" "disk_to f2 ((sec f2)(?s := ?d)) g"
      using dev_write_run [OF disk_toD(1) [OF r(2)], of ?s ?d] disk_toD(2) [OF r(2)] sl len cz(4) x(2) by auto
    have "splice (sec f ?s) (int (a mod 512)) ?x = Some ?d" using len cz(4) x(2) by (simp add: splice_def)
    moreover have "0 < a mod 512 \<or> int c < 512 - int (a mod 512)" using False cz(4) by auto
    ultimately have "inode_write_loop f ino buf (int z) (int a) bounce (int w) =
        inode_write_loop g ino buf (int (z - c)) (int (a + c)) True (int (w + c))"
      using False z cz(1,2) x b(1,2) r(1) g(1)
      by (subst inode_write_loop.simps) (auto simp: Let_def ch sx sdiv_smod_nat of_nat_diff)
    moreover have "disk_to f (written f ino a ?x) g"
      using disk_to_trans [OF r(2) g(2)] ws disk_toD(3) [OF r(2)] by simp
    ultimately show ?thesis by blast
  qed
qed

lemma inode_write_loop_run:
  assumes "disk_ok f" "inode_ok f ino" "\<forall>n. alloc_ok f n" "w + z \<le> length buf"
  shows "\<exists>f'. inode_write_loop f ino buf (int z) (int a) bounce (int w) = Some (int (w + moved ino z a), f') \<and>
      disk_to f (written f ino a (take (moved ino z a) (drop w buf))) f'"
  using assms
proof (induction z arbitrary: f a bounce w rule: less_induct)
  case (less z)
  show ?case
  proof (cases "0 < z \<and> a < flen ino")
    case False
    then show ?thesis
      using inode_write_loop_stop [of ino z a] less.prems(1,2) written_nil [OF less.prems(1)] by (auto simp: inode_ok_def disk_to_def)
  next
    case True
    define c where "c = step ino z a"
    define n where "n = moved ino (z - c) (a + c)"
    have c: "0 < c" "c \<le> z" "c + n = moved ino z a"
      using step_bounds [of z a ino] True by (simp_all add: c_def n_def)
    obtain g bn where g: "inode_write_loop f ino buf (int z) (int a) bounce (int w) =
        inode_write_loop g ino buf (int (z - c)) (int (a + c)) bn (int (w + c))"
        "disk_to f (written f ino a (take c (drop w buf))) g"
      using inode_write_step [OF less.prems(1-3) _ _ c_def less.prems(4)] True by blast
    have "\<exists>f'. inode_write_loop g ino buf (int (z - c)) (int (a + c)) bn (int (w + c)) = Some (int (w + c + n), f') \<and>
        disk_to g (written g ino (a + c) (take n (drop (w + c) buf))) f'"
      unfolding n_def
    proof (rule less.IH)
      show "z - c < z" "w + c + (z - c) \<le> length buf" using c(1,2) less.prems(4) by simp_all
      show "\<forall>n. alloc_ok g n" using disk_toD(8) [OF g(2)] less.prems(3) by simp
    qed (use disk_toD(1) [OF g(2)] inode_ok_disk_to [OF g(2) less.prems(2)] in simp_all)
    then obtain f' where f': "inode_write_loop g ino buf (int (z - c)) (int (a + c)) bn (int (w + c)) = Some (int (w + c + n), f')"
        "disk_to g (written g ino (a + c) (take n (drop (w + c) buf))) f'" by blast
    have t: "take (c + n) (drop w buf) = take c (drop w buf) @ take n (drop (w + c) buf)"
      by (simp add: take_add add.commute)
    have "length (take c (drop w buf)) = c" using less.prems(4) c(2) by simp
    then have "disk_to f (written f ino a (take (c + n) (drop w buf))) f'"
      using disk_to_trans [OF g(2) f'(2)] written_append [OF g(2)] by (simp add: t)
    then show ?thesis using g(1) f'(1) c(3) by (simp add: add.assoc)
  qed
qed

definition sectors_of :: "inode \<Rightarrow> nat set" where
  "sectors_of ino = {fstart ino..<fstart ino + (flen ino + 511) div 512}"

lemma fsector_in_sectors: "inode_ok f ino \<Longrightarrow> k < flen ino \<Longrightarrow> unat (fsector ino k) \<in> sectors_of ino"
  using fsector_in(1) [of f ino k] by (simp add: sectors_of_def)

lemma fbyte_written:
  assumes "disk_to f (written f ino a bs) f'" "inode_ok f ino" "k < flen ino"
  shows "fbyte f' ino k = (if a \<le> k \<and> k < a + length bs then bs ! (k - a) else fbyte f ino k)"
proof -
  have u: "unat (fsector ino k) = fstart ino + k div 512" "unat (fsector ino k) < dsize f" using fsector_in [OF assms(2,3)] .
  have "fbyte f' ino k = written f ino a bs (fsector ino k) ! (k mod 512)"
    using disk_toD(3) [OF assms(1) u(2)] by (simp add: fbyte_def)
  then show ?thesis using u(1) by (simp add: written_nth [OF _ refl] fbyte_def)
qed

lemma fbyte_written_other:
  assumes "disk_to f (written f ino a bs) f'" "inode_ok f other" "k < flen other" "a + length bs \<le> flen ino"
    "sectors_of ino \<inter> sectors_of other = {}"
  shows "fbyte f' other k = fbyte f other k"
proof -
  let ?s = "fsector other k"
  have u: "unat ?s < dsize f" using fsector_in(2) [OF assms(2,3)] .
  have "unat ?s \<notin> sectors_of ino" using fsector_in_sectors [OF assms(2,3)] assms(5) by blast
  then have "\<not> (fstart ino \<le> unat ?s \<and> 512 * (unat ?s - fstart ino) + k mod 512 < a + length bs)"
    using assms(4) by (auto simp: sectors_of_def)
  then show ?thesis using disk_toD(3) [OF assms(1) u] by (auto simp: fbyte_def written_nth [OF _ refl])
qed

lemma moved_le: "a + moved ino z a \<le> max a (flen ino)"
  by (auto simp: moved_def)

lemma file_bytes_read: "map (fbyte f ino) [a..<a + moved ino z a] = take z (drop a (file_bytes f ino))"
  by (rule nth_equalityI) (auto simp: moved_def file_bytes_def)

lemma file_bytes_written:
  assumes "disk_to f (written f ino a bs) f'" "inode_ok f ino" "a + length bs \<le> flen ino \<or> bs = []"
  shows "file_bytes f' ino = take a (file_bytes f ino) @ bs @ drop (a + length bs) (file_bytes f ino)"
proof -
  have e: "bs = []" if "flen ino \<le> a" using that assms(3) by (cases bs) auto
  show ?thesis
    by (rule nth_equalityI) (use assms(3) e in \<open>auto simp: file_bytes_def fbyte_written [OF assms(1,2)] nth_append min_def\<close>)
qed

lemma inode_read_at_run:
  assumes "disk_ok f" "inodes f i = Some ino" "inode_ok f ino" "\<forall>n. alloc_ok f n"
  shows "\<exists>f'. inode_read_at f i (int z) (int a) = Some (take z (drop a (file_bytes f ino)), f') \<and> disk_to f (sec f) f'"
  using inode_read_loop_run [OF assms(1,3,4), of z a False "[]"] assms(2) by (auto simp: inode_read_at_def file_bytes_read)

lemma inode_write_at_run:
  assumes "disk_ok f" "inodes f i = Some ino" "inode_ok f ino" "\<forall>n. alloc_ok f n" "deny_write_cnt ino = 0" "z \<le> length buf"
  shows "\<exists>f'. inode_write_at f i buf (int z) (int a) = Some (int (moved ino z a), f') \<and>
      disk_to f (written f ino a (take (moved ino z a) buf)) f'"
  using inode_write_loop_run [OF assms(1,3,4), of 0 z buf a False] assms(2,5,6) by (auto simp: inode_write_at_def)

lemma file_bytes_disk_to: "disk_to f (sec f) f' \<Longrightarrow> inode_ok f ino \<Longrightarrow> file_bytes f' ino = file_bytes f ino"
  using fbyte_disk_to by (simp add: file_bytes_def)

text \<open>A disk of zeros with an open file of 700 bytes in its sectors 2 and 3.\<close>

definition demo_disk :: blocks where
  "demo_disk = \<lparr>all_blocks = [demo_block ''hda'' (Disk 0) 16], block_by_role = (\<lambda>_. None), disks = (\<lambda>_ _. replicate 512 0)\<rparr>"

definition demo_inode :: inode where
  "demo_inode = \<lparr>isector = 5, open_cnt = 1, removed = False, deny_write_cnt = 0, idata = mk_inode_disk 2 700\<rparr>"

definition demo_fs :: fs where
  "demo_fs = \<lparr>blks = demo_disk, fs_device = 0, inodes = [9 \<mapsto> demo_inode], open_inodes = [9],
     free_map = \<lparr>bit_cnt = 16, bits = [0x2f]\<rparr>, free_map_file = None, allocs = 10, alloc_ok = (\<lambda>_. True)\<rparr>"

lemma demo_inode_data: "flen demo_inode = 700" "fstart demo_inode = 2"
  by (simp_all add: flen_def fstart_def demo_inode_def mk_inode_disk_def d_length_def d_start_def le32_def bytes32_def)

lemma demo_fs_ok: "disk_ok demo_fs" "inode_ok demo_fs demo_inode" "unat s < 16 \<Longrightarrow> sec demo_fs s = replicate 512 0"
proof -
  have w: "writable demo_disk 0" by (rule writable.disk [of _ _ 0]) (simp_all add: demo_disk_def demo_block_def)
  have r: "resolves demo_disk 0 s 0 s" if "s < 16" for s
    by (rule resolves.disk) (use that in \<open>simp_all add: demo_disk_def demo_block_def\<close>)
  have c: "contents demo_disk 0 s = replicate 512 0" if "s < 16" for s
    using block_read_run [OF r [OF that]] by (auto simp: contents_def demo_disk_def)
  then show "sec demo_fs s = replicate 512 0" if "unat s < 16" for s
    using that by (simp add: sec_def demo_fs_def word_less_nat_alt)
  show d: "disk_ok demo_fs"
    using w c by (auto simp: disk_ok_def demo_fs_def device_ok_def sec_def dsize_def device_size_def blocks_ok_def demo_disk_def
      demo_block_def word_less_nat_alt)
  show "inode_ok demo_fs demo_inode"
    using demo_inode_data by (simp add: inode_ok_def flen_def dsize_def demo_fs_def device_size_def demo_disk_def demo_block_def)
qed





section \<open>Opening and closing inodes\<close>

text \<open>
  The open inodes are the inodes in memory, one for each sector, each with a positive count of
  openers; addresses not handed out yet are free.
\<close>

definition open_ok :: "fs \<Rightarrow> bool" where
  "open_ok f \<longleftrightarrow> distinct (open_inodes f) \<and> dom (inodes f) = set (open_inodes f) \<and>
     (\<forall>i\<in>set (open_inodes f). i \<noteq> NULL \<and> i \<le> allocs f) \<and>
     (\<forall>i ino. inodes f i = Some ino \<longrightarrow> 1 \<le> open_cnt ino) \<and>
     (\<forall>i j x y. inodes f i = Some x \<longrightarrow> inodes f j = Some y \<longrightarrow> isector x = isector y \<longrightarrow> i = j)"

lemma find_open_run:
  assumes "set is \<subseteq> dom (inodes f)"
  shows "\<exists>r. find_open f is s = Some r \<and> (case r of None \<Rightarrow> \<forall>i\<in>set is. \<forall>x. inodes f i = Some x \<longrightarrow> isector x \<noteq> s
     | Some i \<Rightarrow> i \<in> set is \<and> (\<exists>x. inodes f i = Some x \<and> isector x = s))"
  using assms
proof (induction "is")
  case (Cons i "is")
  then obtain x where "inodes f i = Some x" by auto
  then show ?case using Cons by (auto split: option.splits)
qed simp

lemma inode_open_shared:
  assumes ok: "open_ok f" and i: "inodes f i = Some x" "isector x = s"
  shows "inode_open f s = Some (i, set_inode f i (\<lambda>x. x\<lparr>open_cnt := open_cnt x + 1\<rparr>))"
proof -
  obtain r where r: "find_open f (open_inodes f) s = Some r"
      "case r of None \<Rightarrow> \<forall>i\<in>set (open_inodes f). \<forall>x. inodes f i = Some x \<longrightarrow> isector x \<noteq> s
       | Some i \<Rightarrow> i \<in> set (open_inodes f) \<and> (\<exists>x. inodes f i = Some x \<and> isector x = s)"
    using find_open_run [of "open_inodes f" f s] ok by (auto simp: open_ok_def)
  have m: "i \<in> set (open_inodes f)" "i \<noteq> NULL" using ok i(1) by (auto simp: open_ok_def)
  then have "r = Some i" using r(2) i ok by (cases r) (auto simp: open_ok_def)
  then show ?thesis using r(1) m(2) by (simp add: inode_open_def inode_reopen_def)
qed

text \<open>The states have the same disk, whatever their inode tables are.\<close>

definition same_disk :: "fs \<Rightarrow> fs \<Rightarrow> bool" where
  "same_disk f g \<longleftrightarrow> disk_ok g \<and> dsize g = dsize f \<and> (\<forall>t. unat t < dsize f \<longrightarrow> sec g t = sec f t) \<and> alloc_ok g = alloc_ok f"

lemma same_disk_trans: "same_disk f g \<Longrightarrow> same_disk g h \<Longrightarrow> same_disk f h"
  by (simp add: same_disk_def)

lemma same_disk_disk_to: "disk_to f (sec f) g \<Longrightarrow> same_disk f g"
  using disk_toD [of f "sec f" g] by (simp add: same_disk_def)

lemma same_disk_tables:
  assumes "disk_ok f" "blks g = blks f" "fs_device g = fs_device f" "alloc_ok g = alloc_ok f"
  shows "same_disk f g"
  using assms by (simp add: same_disk_def disk_ok_def dsize_def sec_def)

lemma inode_open_new:
  assumes ok: "open_ok f" "disk_ok f" "alloc_ok f (allocs f)" "unat s < dsize f" and new: "\<forall>i x. inodes f i = Some x \<longrightarrow> isector x \<noteq> s"
  shows "\<exists>g. inode_open f s = Some (allocs f + 1, g) \<and> open_inodes g = (allocs f + 1) # open_inodes f \<and> allocs g = allocs f + 1 \<and>
     inodes g = (inodes f)(allocs f + 1 \<mapsto> \<lparr>isector = s, open_cnt = 1, removed = False, deny_write_cnt = 0, idata = sec f s\<rparr>) \<and>
     same_disk f g"
proof -
  obtain r where r: "find_open f (open_inodes f) s = Some r"
      "case r of None \<Rightarrow> \<forall>i\<in>set (open_inodes f). \<forall>x. inodes f i = Some x \<longrightarrow> isector x \<noteq> s
       | Some i \<Rightarrow> i \<in> set (open_inodes f) \<and> (\<exists>x. inodes f i = Some x \<and> isector x = s)"
    using find_open_run [of "open_inodes f" f s] ok(1) by (auto simp: open_ok_def)
  then have n: "r = None" using new by (cases r) auto
  let ?f = "f\<lparr>allocs := allocs f + 1, open_inodes := (allocs f + 1) # open_inodes f\<rparr>"
  have f: "disk_ok ?f" "dsize ?f = dsize f" "sec ?f = sec f" using ok(2) by (simp_all add: disk_ok_def dsize_def sec_def [abs_def])
  then obtain g where g: "dev_read ?f s = Some (sec f s, g)" "disk_to ?f (sec ?f) g" using dev_read_run [of ?f s] ok(4) by auto
  then obtain bs where b: "g = ?f\<lparr>blks := bs\<rparr>" by (auto simp: dev_read_def bind_eq_Some_conv)
  have "same_disk f g" using same_disk_disk_to [OF g(2)] f by (simp add: same_disk_def)
  moreover have "same_disk g (g\<lparr>inodes := t\<rparr>)" for t using calculation by (intro same_disk_tables) (simp_all add: same_disk_def)
  ultimately have "same_disk f (g\<lparr>inodes := t\<rparr>)" for t using same_disk_trans by blast
  then show ?thesis using g(1) b r(1) n ok(3) by (simp add: inode_open_def fs_malloc_def)
qed

lemma open_ok_unique: "open_ok f \<Longrightarrow> inodes f i = Some x \<Longrightarrow> inodes f j = Some y \<Longrightarrow> isector x = isector y \<Longrightarrow> i = j"
  unfolding open_ok_def by blast

lemma open_ok_update:
  assumes "open_ok f" "inodes f i = Some x" "1 \<le> c"
    "inodes g = (inodes f)(i \<mapsto> x\<lparr>open_cnt := c\<rparr>)" "open_inodes g = open_inodes f" "allocs f \<le> allocs g"
  shows "open_ok g"
  using assms unfolding open_ok_def by (auto split: if_splits intro: order_trans)

lemma open_ok_insert:
  assumes "open_ok f" "i \<notin> set (open_inodes f)" "\<not> (\<exists>i x. inodes f i = Some x \<and> isector x = isector y)"
    "open_inodes g = i # open_inodes f" "i \<le> allocs g" "inodes g = (inodes f)(i \<mapsto> y)" "allocs f \<le> allocs g" "i \<noteq> NULL" "1 \<le> open_cnt y"
  shows "open_ok g"
  using assms unfolding open_ok_def by (auto split: if_splits intro: order_trans; blast)

text \<open>
  C32.  Opening the inode of a sector and closing it again gives back the same open inodes,
  whether the inode was open before, in which case the two openers share it, or not.  While it is
  open there is one inode for each sector, with a positive count of openers.
\<close>

theorem inode_open_close:
  assumes "open_ok f" "disk_ok f" "\<forall>n. alloc_ok f n" "unat s < dsize f"
  shows "\<exists>i g h ino. inode_open f s = Some (i, g) \<and> open_ok g \<and> inodes g i = Some ino \<and> isector ino = s \<and>
     (\<forall>j x. inodes f j = Some x \<longrightarrow> isector x = s \<longrightarrow> j = i \<and> open_cnt ino = open_cnt x + 1) \<and>
     inode_close g i = Some h \<and> inodes h = inodes f \<and> open_inodes h = open_inodes f"
proof (cases "\<exists>i x. inodes f i = Some x \<and> isector x = s")
  case True
  then obtain i x where i: "inodes f i = Some x" "isector x = s" by blast
  define g where "g = set_inode f i (\<lambda>x. x\<lparr>open_cnt := open_cnt x + 1\<rparr>)"
  have o: "inode_open f s = Some (i, g)" using inode_open_shared [OF assms(1) i] by (simp add: g_def)
  have gi: "inodes g = (inodes f)(i \<mapsto> x\<lparr>open_cnt := open_cnt x + 1\<rparr>)" "open_inodes g = open_inodes f" "allocs g = allocs f"
    using i by (simp_all add: g_def set_inode_def)
  have n: "i \<noteq> NULL" "1 \<le> open_cnt x" using assms(1) i(1) by (auto simp: open_ok_def)
  have "open_ok g" using open_ok_update [OF assms(1) i(1) _ gi(1,2)] gi(3) n(2) by simp
  moreover have "inode_close g i = Some (g\<lparr>inodes := inodes f\<rparr>)"
    using n gi(1) i(1) by (simp add: inode_close_def set_inode_def fun_upd_idem)
  moreover have "j = i \<and> y = x" if "inodes f j = Some y" "isector y = s" for j y
  proof -
    have "isector y = isector x" using that i by simp
    then have "j = i" using open_ok_unique [OF assms(1) that(1) i(1)] by blast
    then show ?thesis using that i by simp
  qed
  moreover have "inodes g i = Some (x\<lparr>open_cnt := open_cnt x + 1\<rparr>)" "isector (x\<lparr>open_cnt := open_cnt x + 1\<rparr>) = s"
    "inodes (g\<lparr>inodes := inodes f\<rparr>) = inodes f" "open_inodes (g\<lparr>inodes := inodes f\<rparr>) = open_inodes f"
    "open_cnt (x\<lparr>open_cnt := open_cnt x + 1\<rparr>) = open_cnt x + 1"
    using gi i(2) by simp_all
  ultimately show ?thesis using o by blast
next
  case False
  let ?i = "allocs f + 1" and ?x = "\<lparr>isector = s, open_cnt = 1, removed = False, deny_write_cnt = 0, idata = sec f s\<rparr>"
  obtain g where g: "inode_open f s = Some (?i, g)" "open_inodes g = ?i # open_inodes f" "allocs g = ?i" "inodes g = (inodes f)(?i \<mapsto> ?x)"
    using inode_open_new [OF assms(1,2) _ assms(4)] assms(3) False by blast
  have n: "?i \<notin> set (open_inodes f)" using assms(1) by (auto simp: open_ok_def)
  then have "inodes f ?i = None" using assms(1) by (auto simp: open_ok_def simp flip: domIff)
  note n = n this
  have "open_ok g" using open_ok_insert [OF assms(1) n(1) _ g(2) _ g(4)] g(3) False by simp
  moreover have "inode_close g ?i = Some (g\<lparr>inodes := inodes f, open_inodes := open_inodes f\<rparr>)"
    using n g(2,4) by (simp add: inode_close_def set_inode_def fun_upd_idem)
  moreover have "inodes g ?i = Some ?x" "isector ?x = s" "inodes (g\<lparr>inodes := inodes f, open_inodes := open_inodes f\<rparr>) = inodes f"
    "open_inodes (g\<lparr>inodes := inodes f, open_inodes := open_inodes f\<rparr>) = open_inodes f"
    using g(4) by simp_all
  ultimately show ?thesis using g(1) False by blast
qed

theorem inode_open_close_witness:
  "\<exists>i g h. inode_open demo_fs 5 = Some (i, g) \<and> inodes g i \<noteq> None \<and> inode_close g i = Some h \<and> open_inodes h = [9]"
proof -
  have "open_ok demo_fs" "\<forall>n. alloc_ok demo_fs n" "unat (5 :: u32) < dsize demo_fs"
    by (simp_all add: open_ok_def demo_fs_def demo_inode_def dsize_def device_size_def demo_disk_def demo_block_def)
  then obtain i g h ino where "inode_open demo_fs 5 = Some (i, g)" "inodes g i = Some ino" "inode_close g i = Some h"
      "open_inodes h = open_inodes demo_fs"
    using inode_open_close [OF _ demo_fs_ok(1), of 5] by blast
  then show ?thesis by (simp add: demo_fs_def)
qed

end
