(* ===== verification/Directory.thy ===== *)
theory Directory
  imports Inode
begin

text \<open>
  Directories: \<open>filesys/directory.c\<close>.  A directory is a file of entries of 20 bytes: the sector of an
  inode, a name of at most 14 characters with its terminator, and a byte that tells whether the
  entry is in use.  A file name is the buffer it lies in, its terminator included; a loop that
  runs off a buffer is undefined.  What an uninitialized variable holds is a parameter.
\<close>

section \<open>Entries and names\<close>

record dir =
  dinode :: nat
  dpos :: int

abbreviation NAME_MAX :: nat where "NAME_MAX \<equiv> 14"

definition e_sector :: "u8 list \<Rightarrow> u32" where "e_sector e = le32 e 0"
definition e_in_use :: "u8 list \<Rightarrow> bool" where "e_in_use e \<longleftrightarrow> e ! 19 \<noteq> 0"

text \<open>Whether \<open>strcmp\<close> returns 0 on two buffers.\<close>

fun buf_streq :: "u8 list \<Rightarrow> u8 list \<Rightarrow> bool option" where
  "buf_streq (a # as) (b # bs) = (if a \<noteq> 0 \<and> a = b then buf_streq as bs else Some (a = b))"
| "buf_streq _ _ = None"

fun buf_strlen :: "u8 list \<Rightarrow> nat option" where
  "buf_strlen [] = None"
| "buf_strlen (a # as) = (if a = 0 then Some 0 else map_option Suc (buf_strlen as))"

text \<open>An entry after its three fields have been assigned; \<open>strlcpy\<close> leaves what follows the terminator.\<close>

definition put_entry :: "u8 list \<Rightarrow> u8 list \<Rightarrow> nat \<Rightarrow> u32 \<Rightarrow> u8 list" where
  "put_entry e name n sector =
     bytes32 sector @ take n name @ [0] @ take (NAME_MAX - n) (drop (n + 5) e) @ [1]"

section \<open>Operations\<close>

definition dir_create :: "fs \<Rightarrow> u32 \<Rightarrow> u32 \<Rightarrow> (bool \<times> fs) option" where
  "dir_create f sector entry_cnt = inode_create f sector (sint (entry_cnt * 20))"

definition dir_open :: "fs \<Rightarrow> nat \<Rightarrow> (dir option \<times> fs) option" where
  "dir_open f i = do {
     let (p, f) = fs_malloc f;
     if i \<noteq> NULL \<and> p \<noteq> NULL then Some (Some \<lparr>dinode = i, dpos = 0\<rparr>, f)
     else do { f \<leftarrow> inode_close f i; Some (None, f) }
   }"

definition dir_open_root :: "fs \<Rightarrow> (dir option \<times> fs) option" where
  "dir_open_root f = do { (i, f) \<leftarrow> inode_open f ROOT_DIR_SECTOR; dir_open f i }"

definition dir_reopen :: "fs \<Rightarrow> dir \<Rightarrow> (dir option \<times> fs) option" where
  "dir_reopen f d = (let (i, f) = inode_reopen f (dinode d) in dir_open f i)"

definition dir_close :: "fs \<Rightarrow> dir option \<Rightarrow> fs option" where
  "dir_close f d = (case d of None \<Rightarrow> Some f | Some d \<Rightarrow> inode_close f (dinode d))"

definition dir_get_inode :: "dir \<Rightarrow> nat" where
  "dir_get_inode d = dinode d"

partial_function (option) lookup_loop ::
  "fs \<Rightarrow> nat \<Rightarrow> u8 list \<Rightarrow> int \<Rightarrow> ((u8 list \<times> int) option \<times> fs) option" where
  "lookup_loop f i name ofs =
     Option.bind (inode_read_at f i 20 ofs) (\<lambda>(e, f).
       if length e = 20 then
         Option.bind (if e_in_use e then buf_streq name (drop 4 e) else Some False) (\<lambda>eq.
           if eq then Some (Some (e, ofs), f) else lookup_loop f i name (ofs + 20))
       else Some (None, f))"

definition lookup :: "fs \<Rightarrow> nat \<Rightarrow> u8 list \<Rightarrow> ((u8 list \<times> int) option \<times> fs) option" where
  "lookup f i name = lookup_loop f i name 0"

definition dir_lookup :: "fs \<Rightarrow> dir \<Rightarrow> u8 list \<Rightarrow> (nat \<times> fs) option" where
  "dir_lookup f d name = do {
     (r, f) \<leftarrow> lookup f (dinode d) name;
     case r of Some (e, _) \<Rightarrow> inode_open f (e_sector e) | None \<Rightarrow> Some (NULL, f)
   }"

text \<open>The search for a free slot; a short read overwrites only part of the variable \<open>e\<close>.\<close>

partial_function (option) free_slot :: "fs \<Rightarrow> nat \<Rightarrow> u8 list \<Rightarrow> int \<Rightarrow> (int \<times> u8 list \<times> fs) option" where
  "free_slot f i e ofs =
     Option.bind (inode_read_at f i 20 ofs) (\<lambda>(b, f).
       let e = b @ drop (length b) e
       in if length b = 20 \<and> e_in_use e then free_slot f i e (ofs + 20) else Some (ofs, e, f))"

definition dir_add :: "fs \<Rightarrow> dir \<Rightarrow> u8 list \<Rightarrow> u32 \<Rightarrow> u8 list \<Rightarrow> (bool \<times> fs) option" where
  "dir_add f d name inode_sector junk = do {
     n \<leftarrow> buf_strlen name;
     if n = 0 \<or> n > NAME_MAX then Some (False, f)
     else do {
       (r, f) \<leftarrow> lookup f (dinode d) name;
       case r of
         Some _ \<Rightarrow> Some (False, f)
       | None \<Rightarrow> do {
           (ofs, e, f) \<leftarrow> free_slot f (dinode d) junk 0;
           (w, f) \<leftarrow> inode_write_at f (dinode d) (put_entry e name n inode_sector) 20 ofs;
           Some (w = 20, f)
         }
     }
   }"

definition dir_remove :: "fs \<Rightarrow> dir \<Rightarrow> u8 list \<Rightarrow> (bool \<times> fs) option" where
  "dir_remove f d name = do {
     (r, f) \<leftarrow> lookup f (dinode d) name;
     case r of
       None \<Rightarrow> do { f \<leftarrow> inode_close f NULL; Some (False, f) }
     | Some (e, ofs) \<Rightarrow> do {
         (i, f) \<leftarrow> inode_open f (e_sector e);
         if i = NULL then do { f \<leftarrow> inode_close f i; Some (False, f) }
         else do {
           (w, f) \<leftarrow> inode_write_at f (dinode d) (e[19 := 0]) 20 ofs;
           if w \<noteq> 20 then do { f \<leftarrow> inode_close f i; Some (False, f) }
           else do {
             f \<leftarrow> inode_remove f i;
             f \<leftarrow> inode_close f i;
             Some (True, f)
           }
         }
       }
   }"

partial_function (option) dir_readdir :: "fs \<Rightarrow> dir \<Rightarrow> (u8 list option \<times> dir \<times> fs) option" where
  "dir_readdir f d =
     Option.bind (inode_read_at f (dinode d) 20 (dpos d)) (\<lambda>(e, f).
       if length e = 20 then
         let d = d\<lparr>dpos := dpos d + 20\<rparr>
         in if e_in_use e then
              Option.bind (buf_strlen (drop 4 e)) (\<lambda>n.
                Some (Some (take (min n NAME_MAX) (drop 4 e) @ [0]), d, f))
            else dir_readdir f d
       else Some (None, d, f))"

section \<open>Directories as finite maps\<close>

definition nslots :: "inode \<Rightarrow> nat" where
  "nslots ino = flen ino div 20"

definition entry :: "fs \<Rightarrow> inode \<Rightarrow> nat \<Rightarrow> u8 list" where
  "entry f ino k = take 20 (drop (20 * k) (file_bytes f ino))"

definition ename :: "u8 list \<Rightarrow> u8 list" where
  "ename e = takeWhile (\<lambda>c. c \<noteq> 0) (take 15 (drop 4 e))"

definition has_name :: "u8 list \<Rightarrow> u8 list \<Rightarrow> bool" where
  "has_name n e \<longleftrightarrow> e_in_use e \<and> ename e = n"

text \<open>The entries in use have a terminated name, and no two of them the same name.\<close>

definition dir_ok :: "fs \<Rightarrow> inode \<Rightarrow> bool" where
  "dir_ok f ino \<longleftrightarrow> flen ino = 20 * nslots ino \<and>
     (\<forall>k < nslots ino. e_in_use (entry f ino k) \<longrightarrow> 0 \<in> set (take 15 (drop 4 (entry f ino k)))) \<and>
     (\<forall>j k. j < nslots ino \<longrightarrow> k < nslots ino \<longrightarrow> e_in_use (entry f ino j) \<longrightarrow> has_name (ename (entry f ino j)) (entry f ino k) \<longrightarrow> j = k)"

text \<open>The sector that a directory gives to a name.\<close>

definition dmap :: "fs \<Rightarrow> inode \<Rightarrow> u8 list \<rightharpoonup> u32" where
  "dmap f ino n = map_option e_sector (find (has_name n) (map (entry f ino) [0..<nslots ino]))"

lemma buf_streq_run:
  "0 \<notin> set n \<Longrightarrow> 0 \<in> set xs \<Longrightarrow> buf_streq (n @ 0 # rest) (xs @ ys) = Some (takeWhile (\<lambda>c. c \<noteq> 0) xs = n)"
proof (induction n arbitrary: xs)
  case Nil
  then show ?case by (cases xs) auto
next
  case (Cons a n)
  then show ?case by (cases xs) auto
qed

lemma buf_strlen_run: "0 \<notin> set n \<Longrightarrow> buf_strlen (n @ 0 # rest) = Some (length n)"
  by (induction n) auto

lemma length_entry: "flen ino = 20 * nslots ino \<Longrightarrow> k < nslots ino \<Longrightarrow> length (entry f ino k) = 20"
  by (simp add: entry_def)

lemma length_bytes32 [simp]: "length (bytes32 v) = 4"
  by (simp add: bytes32_def)

lemma le32_bytes32: "le32 (bytes32 v @ xs) 0 = v"
proof (rule bit_word_eqI)
  fix i assume "i < LENGTH(32)"
  then consider "i < 8" | "8 \<le> i" "i < 16" | "16 \<le> i" "i < 24" | "24 \<le> i" "i < 32" by fastforce
  then show "bit (le32 (bytes32 v @ xs) 0) i = bit v i"
    by cases (auto simp: le32_def bytes32_def bit_simps numeral_2_eq_2 numeral_3_eq_3)
qed

section \<open>Searching\<close>

text \<open>What the operations of a directory rely on.\<close>

definition dir_at :: "fs \<Rightarrow> nat \<Rightarrow> inode \<Rightarrow> bool" where
  "dir_at f i ino \<longleftrightarrow> disk_ok f \<and> inodes f i = Some ino \<and> inode_ok f ino \<and> (\<forall>n. alloc_ok f n) \<and>
     dir_ok f ino"

lemma entry_disk_to: "disk_to f (sec f) g \<Longrightarrow> inode_ok f ino \<Longrightarrow> entry g ino k = entry f ino k"
  using file_bytes_disk_to [of f g ino] by (simp add: entry_def)

lemma dir_at_disk_to:
  assumes g: "disk_to f (sec f) g" and f: "dir_at f i ino"
  shows "dir_at g i ino"
proof -
  have "inode_ok f ino" using f by (simp add: dir_at_def)
  then show ?thesis
    using f disk_toD(1,4,8) [OF g] inode_ok_disk_to [OF g] entry_disk_to [OF g] by (simp add: dir_at_def dir_ok_def)
qed

lemma read_entry:
  assumes "dir_at f i ino"
  shows "\<exists>g. inode_read_at f i 20 (int (20 * k)) = Some (entry f ino k, g) \<and> disk_to f (sec f) g"
    "length (entry f ino k) = 20 \<longleftrightarrow> k < nslots ino"
  using assms inode_read_at_run [of f i ino 20 "20 * k"] by (auto simp: dir_at_def entry_def dir_ok_def)

lemma streq_entry:
  assumes "dir_at f i ino" "0 \<notin> set n" "k < nslots ino" "e_in_use (entry f ino k)"
  shows "buf_streq (n @ 0 # rest) (drop 4 (entry f ino k)) = Some (ename (entry f ino k) = n)"
proof -
  have "drop 4 (entry f ino k) = take 15 (drop 4 (entry f ino k)) @ drop 15 (drop 4 (entry f ino k))"
    by (rule append_take_drop_id [symmetric])
  then show ?thesis
    using buf_streq_run [of n "take 15 (drop 4 (entry f ino k))" rest "drop 15 (drop 4 (entry f ino k))"] assms
    by (simp add: ename_def dir_at_def dir_ok_def)
qed

lemma lookup_loop_run:
  assumes "dir_at f i ino" "0 \<notin> set n" "k \<le> nslots ino"
  shows "\<exists>r g. lookup_loop f i (n @ 0 # rest) (int (20 * k)) = Some (r, g) \<and> disk_to f (sec f) g \<and>
     (case r of None \<Rightarrow> \<forall>j. k \<le> j \<longrightarrow> j < nslots ino \<longrightarrow> \<not> has_name n (entry f ino j)
      | Some (e, ofs) \<Rightarrow> \<exists>j < nslots ino. ofs = int (20 * j) \<and> e = entry f ino j \<and> has_name n e)"
  using assms(1,3)
proof (induction "nslots ino - k" arbitrary: k f)
  case 0
  obtain g where g: "inode_read_at f i 20 (int (20 * k)) = Some (entry f ino k, g)" "disk_to f (sec f) g"
    using read_entry(1) [OF 0(2), of k] by blast
  have k: "k = nslots ino" using 0(1,3) by simp
  then have "length (entry f ino k) \<noteq> 20" using read_entry(2) [OF 0(2), of k] by blast
  then have "lookup_loop f i (n @ 0 # rest) (int (20 * k)) = Some (None, g)"
    using g(1) by (subst lookup_loop.simps) simp
  then show ?case using g(2) k by auto
next
  case (Suc x)
  have k: "k < nslots ino" using Suc(2) by simp
  obtain g where g: "inode_read_at f i 20 (int (20 * k)) = Some (entry f ino k, g)" "disk_to f (sec f) g"
    using read_entry(1) [OF Suc(3), of k] by blast
  have l: "length (entry f ino k) = 20" using read_entry(2) [OF Suc(3), of k] k by blast
  have c: "(if e_in_use (entry f ino k) then buf_streq (n @ 0 # rest) (drop 4 (entry f ino k)) else Some False) =
      Some (has_name n (entry f ino k))"
    using streq_entry [OF Suc(3) assms(2) k] by (simp add: has_name_def)
  show ?case
  proof (cases "has_name n (entry f ino k)")
    case True
    then have "lookup_loop f i (n @ 0 # rest) (int (20 * k)) = Some (Some (entry f ino k, int (20 * k)), g)"
      using g(1) c l by (subst lookup_loop.simps) simp
    then show ?thesis using g(2) k True by auto
  next
    case False
    have e: "entry g ino j = entry f ino j" for j using entry_disk_to [OF g(2)] Suc(3) by (simp add: dir_at_def)
    have "lookup_loop f i (n @ 0 # rest) (int (20 * k)) = lookup_loop g i (n @ 0 # rest) (int (20 * Suc k))"
      using g(1) c l False by (subst lookup_loop.simps) (simp add: add.commute)
    moreover obtain r h where h: "lookup_loop g i (n @ 0 # rest) (int (20 * Suc k)) = Some (r, h)" "disk_to g (sec g) h"
      "case r of None \<Rightarrow> \<forall>j. Suc k \<le> j \<longrightarrow> j < nslots ino \<longrightarrow> \<not> has_name n (entry f ino j)
      | Some (e, ofs) \<Rightarrow> \<exists>j < nslots ino. ofs = int (20 * j) \<and> e = entry f ino j \<and> has_name n e"
    proof -
      have "x = nslots ino - Suc k" "Suc k \<le> nslots ino" using Suc(2) k by simp_all
      from Suc(1) [OF this(1) dir_at_disk_to [OF g(2) Suc(3)] this(2)] show thesis unfolding e using that by blast
    qed
    moreover have "disk_to f (sec f) h" using disk_to_trans [OF g(2) h(2) disk_toD(3) [OF g(2)]] .
    moreover have "\<forall>j. k \<le> j \<longrightarrow> j < nslots ino \<longrightarrow> \<not> has_name n (entry f ino j)"
      if "\<forall>j. Suc k \<le> j \<longrightarrow> j < nslots ino \<longrightarrow> \<not> has_name n (entry f ino j)"
      using that False by (metis Suc_leI le_neq_implies_less)
    ultimately show ?thesis by (cases r) auto
  qed
qed

lemma dmap_Some:
  assumes "dir_ok f ino"
  shows "dmap f ino n = Some s \<longleftrightarrow> (\<exists>k. k < nslots ino \<and> has_name n (entry f ino k) \<and> s = e_sector (entry f ino k))"
proof
  assume "dmap f ino n = Some s"
  then show "\<exists>k. k < nslots ino \<and> has_name n (entry f ino k) \<and> s = e_sector (entry f ino k)"
    by (auto simp: dmap_def find_Some_iff)
next
  assume "\<exists>k. k < nslots ino \<and> has_name n (entry f ino k) \<and> s = e_sector (entry f ino k)"
  then obtain k where k: "k < nslots ino" "has_name n (entry f ino k)" "s = e_sector (entry f ino k)" by blast
  have u: "j = k" if "j < nslots ino" "has_name n (entry f ino j)" for j
    using assms that k unfolding dir_ok_def has_name_def by blast
  have "find (has_name n) (map (entry f ino) [0..<nslots ino]) = Some (entry f ino k)"
    unfolding find_Some_iff
  proof (intro exI [of _ k] conjI allI impI)
    show "\<not> has_name n (map (entry f ino) [0..<nslots ino] ! j)" if "j < k" for j
      using that k(1) u [of j] by auto
  qed (use k in simp_all)
  then show "dmap f ino n = Some s" using k(3) by (simp add: dmap_def)
qed

lemma same_entries:
  assumes "\<And>k. entry g ino k = entry f ino k"
  shows "dir_ok g ino = dir_ok f ino" "dmap g ino = dmap f ino"
  using assms by (simp_all add: dir_ok_def dmap_def [abs_def] cong: map_cong)

lemma dmap_None: "dmap f ino n = None \<longleftrightarrow> (\<forall>k. k < nslots ino \<longrightarrow> \<not> has_name n (entry f ino k))"
  by (auto simp: dmap_def find_None_iff)

lemma lookup_run:
  assumes "dir_at f i ino" "0 \<notin> set n"
  shows "\<exists>r g. lookup f i (n @ 0 # rest) = Some (r, g) \<and> disk_to f (sec f) g \<and> map_option (e_sector \<circ> fst) r = dmap f ino n \<and>
     (\<forall>e ofs. r = Some (e, ofs) \<longrightarrow> (\<exists>j. j < nslots ino \<and> ofs = int (20 * j) \<and> e = entry f ino j \<and> has_name n e))"
proof -
  obtain r g where r: "lookup f i (n @ 0 # rest) = Some (r, g)" "disk_to f (sec f) g"
      "case r of None \<Rightarrow> \<forall>j. 0 \<le> j \<longrightarrow> j < nslots ino \<longrightarrow> \<not> has_name n (entry f ino j)
      | Some (e, ofs) \<Rightarrow> \<exists>j < nslots ino. ofs = int (20 * j) \<and> e = entry f ino j \<and> has_name n e"
    using lookup_loop_run [OF assms, of 0 rest] by (auto simp: lookup_def)
  have ok: "dir_ok f ino" using assms(1) by (simp add: dir_at_def)
  have "map_option (e_sector \<circ> fst) r = dmap f ino n"
  proof (cases r)
    case None
    then show ?thesis using r(3) dmap_None [of f ino n] by simp
  next
    case (Some x)
    then obtain j where "j < nslots ino" "fst x = entry f ino j" "has_name n (fst x)" using r(3) by (cases x) auto
    then have "dmap f ino n = Some (e_sector (fst x))" using dmap_Some [OF ok] by auto
    then show ?thesis using Some by simp
  qed
  then show ?thesis using r by (cases r) auto
qed

lemma free_slot_run:
  assumes "dir_at f i ino" "length e = 20" "k \<le> nslots ino"
  shows "\<exists>j e' g. free_slot f i e (int (20 * k)) = Some (int (20 * j), e', g) \<and> disk_to f (sec f) g \<and> length e' = 20 \<and>
     j \<le> nslots ino \<and> (j < nslots ino \<longrightarrow> \<not> e_in_use (entry f ino j)) \<and>
     (\<forall>l. k \<le> l \<longrightarrow> l < j \<longrightarrow> e_in_use (entry f ino l))"
  using assms
proof (induction "nslots ino - k" arbitrary: k f e)
  case 0
  obtain g where g: "inode_read_at f i 20 (int (20 * k)) = Some (entry f ino k, g)" "disk_to f (sec f) g"
    using read_entry(1) [OF 0(2), of k] by blast
  have k: "k = nslots ino" using 0(1,4) by simp
  have "entry f ino k = []" using 0(2) k by (simp add: entry_def dir_at_def dir_ok_def)
  then have "free_slot f i e (int (20 * k)) = Some (int (20 * k), e, g)"
    using g(1) by (subst free_slot.simps) simp
  then show ?case using g(2) k 0(3) by (intro exI [of _ k]) auto
next
  case (Suc x)
  have k: "k < nslots ino" using Suc(2) by simp
  obtain g where g: "inode_read_at f i 20 (int (20 * k)) = Some (entry f ino k, g)" "disk_to f (sec f) g"
    using read_entry(1) [OF Suc(3), of k] by blast
  have l: "length (entry f ino k) = 20" using read_entry(2) [OF Suc(3), of k] k by blast
  show ?case
  proof (cases "e_in_use (entry f ino k)")
    case False
    then have "free_slot f i e (int (20 * k)) = Some (int (20 * k), entry f ino k, g)"
      using g(1) l Suc(4) by (subst free_slot.simps) (simp add: Let_def)
    then show ?thesis using g(2) k False l by (intro exI [of _ k]) auto
  next
    case True
    have e: "entry g ino j = entry f ino j" for j using entry_disk_to [OF g(2)] Suc(3) by (simp add: dir_at_def)
    have "free_slot f i e (int (20 * k)) = free_slot g i (entry f ino k) (int (20 * Suc k))"
      using g(1) l True Suc(4) by (subst free_slot.simps) (simp add: Let_def add.commute)
    moreover obtain j e' h where h: "free_slot g i (entry f ino k) (int (20 * Suc k)) = Some (int (20 * j), e', h)" "disk_to g (sec g) h"
      "length e' = 20" "j \<le> nslots ino" "j < nslots ino \<longrightarrow> \<not> e_in_use (entry f ino j)"
      "\<forall>l. Suc k \<le> l \<longrightarrow> l < j \<longrightarrow> e_in_use (entry f ino l)"
    proof -
      have "x = nslots ino - Suc k" "Suc k \<le> nslots ino" using Suc(2) k by simp_all
      from Suc(1) [OF this(1) dir_at_disk_to [OF g(2) Suc(3)] l this(2)] show thesis unfolding e using that by blast
    qed
    moreover have "\<forall>l. k \<le> l \<longrightarrow> l < j \<longrightarrow> e_in_use (entry f ino l)"
      using h(6) True by (metis Suc_leI le_neq_implies_less)
    ultimately show ?thesis using disk_to_trans [OF g(2) h(2) disk_toD(3) [OF g(2)]] by auto
  qed
qed

section \<open>Adding an entry\<close>

lemma put_entry_props:
  assumes "length e = 20" "0 \<notin> set n" "length n \<le> 14"
  shows "length (put_entry e (n @ rest) (length n) s) = 20" "e_in_use (put_entry e (n @ rest) (length n) s)"
    "ename (put_entry e (n @ rest) (length n) s) = n" "e_sector (put_entry e (n @ rest) (length n) s) = s"
    "0 \<in> set (take 15 (drop 4 (put_entry e (n @ rest) (length n) s)))"
proof -
  let ?p = "put_entry e (n @ rest) (length n) s"
  define t where "t = take (14 - length n) (drop (length n + 5) e)"
  have p: "?p = bytes32 s @ n @ 0 # t @ [1]" by (simp add: put_entry_def t_def)
  have lt: "length t = 14 - length n" using assms(1,3) by (simp add: t_def)
  show "length ?p = 20" using lt assms(3) by (simp add: p)
  have "length (bytes32 s @ n @ 0 # t) = 19" using lt assms(3) by simp
  then have "?p ! 19 = 1" using nth_append_length [of "bytes32 s @ n @ 0 # t" 1 "[]"] by (simp add: p)
  then show "e_in_use ?p" by (simp add: e_in_use_def)
  have "15 - length n = Suc (length t)" using lt assms(3) by simp
  then have d: "take 15 (drop 4 ?p) = n @ 0 # t" using lt assms(3) by (simp add: p)
  have "takeWhile (\<lambda>c. c \<noteq> 0) (n @ 0 # t) = n" using assms(2) by (subst takeWhile_append2) auto
  then show "ename ?p = n" "0 \<in> set (take 15 (drop 4 ?p))" using d by (simp_all add: ename_def)
  show "e_sector ?p = s" by (simp add: p e_sector_def le32_bytes32)
qed

lemma entry_written:
  assumes "file_bytes g ino = take (20 * j) (file_bytes f ino) @ p @ drop (20 * j + 20) (file_bytes f ino)"
    "length p = 20" "j < nslots ino" "flen ino = 20 * nslots ino"
  shows "entry g ino k = (if k = j then p else entry f ino k)"
proof -
  let ?b = "file_bytes f ino"
  have l: "length (take (20 * j) ?b) = 20 * j" using assms(3,4) by simp
  consider "k = j" | "k < j" | "j < k" by linarith
  then show ?thesis
  proof cases
    case 1
    then show ?thesis using l assms(2) by (simp add: entry_def assms(1))
  next
    case 2
    then have "20 * k + 20 \<le> 20 * j" by simp
    then have "take 20 (drop (20 * k) (take (20 * j) ?b @ p @ drop (20 * j + 20) ?b)) = take 20 (drop (20 * k) ?b)"
      using l by (simp add: take_drop)
    then show ?thesis using 2 by (simp add: entry_def assms(1))
  next
    case 3
    then have "drop (20 * k) (take (20 * j) ?b @ p @ drop (20 * j + 20) ?b) = drop (20 * k) ?b"
      using l assms(2) by (simp add: drop_append)
    then show ?thesis using 3 by (simp add: entry_def assms(1))
  qed
qed

lemma write_slot:
  assumes f: "dir_at f i ino" "deny_write_cnt ino = 0" and j: "j \<le> nslots ino" and p: "length p = 20"
  shows "\<exists>g. inode_write_at f i p 20 (int (20 * j)) = Some (if j < nslots ino then 20 else 0, g) \<and>
     disk_ok g \<and> inode_ok g ino \<and> inodes g = inodes f \<and> alloc_ok g = alloc_ok f \<and>
     (\<forall>k. entry g ino k = (if j < nslots ino \<and> k = j then p else entry f ino k))"
proof -
  have ino: "disk_ok f" "inode_ok f ino" "flen ino = 20 * nslots ino" using f by (simp_all add: dir_at_def dir_ok_def)
  have m: "moved ino 20 (20 * j) = (if j < nslots ino then 20 else 0)" using ino(3) j by (auto simp: moved_def)
  obtain g where g: "inode_write_at f i p 20 (int (20 * j)) = Some (int (moved ino 20 (20 * j)), g)"
      "disk_to f (written f ino (20 * j) (take (moved ino 20 (20 * j)) p)) g"
    using inode_write_at_run [of f i ino 20 p "20 * j"] f p by (auto simp: dir_at_def)
  have "entry g ino k = (if j < nslots ino \<and> k = j then p else entry f ino k)" for k
  proof (cases "j < nslots ino")
    case True
    then have "file_bytes g ino = take (20 * j) (file_bytes f ino) @ p @ drop (20 * j + 20) (file_bytes f ino)"
      using file_bytes_written [OF g(2) ino(2)] m ino(3) p by simp
    then show ?thesis using entry_written [OF _ p True ino(3)] True by simp
  next
    case False
    then have "disk_to f (sec f) g" using g(2) m written_nil [OF ino(1)] by (auto simp: disk_to_def)
    then show ?thesis using entry_disk_to ino(2) False by simp
  qed
  then show ?thesis using g m disk_toD(1,4,8) [OF g(2)] inode_ok_disk_to [OF g(2) ino(2)] by auto
qed

text \<open>A new entry in a free slot.\<close>

lemma dir_ok_add:
  assumes ok: "dir_ok f ino" and e: "\<And>k. entry g ino k = (if k = j then p else entry f ino k)"
    and p: "e_in_use p" "ename p = n" "e_sector p = s" "0 \<in> set (take 15 (drop 4 p))"
    and j: "j < nslots ino" "\<not> e_in_use (entry f ino j)" and new: "dmap f ino n = None"
  shows "dir_ok g ino" "dmap g ino = (dmap f ino)(n \<mapsto> s)"
proof -
  have no: "\<not> has_name n (entry f ino k)" if "k < nslots ino" for k using new that by (simp add: dmap_None)
  show g: "dir_ok g ino"
    using ok p j no unfolding dir_ok_def e has_name_def by (auto split: if_splits; blast)
  show "dmap g ino = (dmap f ino)(n \<mapsto> s)"
  proof
    fix m
    have "dmap g ino m = Some t \<longleftrightarrow> ((dmap f ino)(n \<mapsto> s)) m = Some t" for t
    proof (cases "m = n")
      case True
      have "dmap g ino n = Some s" using dmap_Some [OF g, of n s] e j p by (auto simp: has_name_def)
      then show ?thesis using True by simp
    next
      case False
      then show ?thesis
        unfolding dmap_Some [OF g] using dmap_Some [OF ok, of m t] j p by (auto simp: e has_name_def)
    qed
    then show "dmap g ino m = ((dmap f ino)(n \<mapsto> s)) m" by (metis not_None_eq)
  qed
qed

lemma dir_add_slot:
  assumes f: "dir_at f i ino" "deny_write_cnt ino = 0" and n: "0 \<notin> set n" "length n \<le> NAME_MAX" and junk: "length junk = 20"
    and new: "dmap f ino n = None"
  shows "\<exists>ofs e g w h. free_slot f i junk 0 = Some (ofs, e, g) \<and>
     inode_write_at g i (put_entry e (n @ 0 # rest) (length n) s) 20 ofs = Some (w, h) \<and>
     (w = 20 \<longleftrightarrow> (\<exists>k < nslots ino. \<not> e_in_use (entry f ino k))) \<and>
     dir_at h i ino \<and> dmap h ino = (if w = 20 then (dmap f ino)(n \<mapsto> s) else dmap f ino)"
proof -
  obtain j e g where s: "free_slot f i junk 0 = Some (int (20 * j), e, g)" "disk_to f (sec f) g" "length e = 20"
      "j \<le> nslots ino" "j < nslots ino \<longrightarrow> \<not> e_in_use (entry f ino j)" "\<forall>l. 0 \<le> l \<longrightarrow> l < j \<longrightarrow> e_in_use (entry f ino l)"
    using free_slot_run [OF f(1) junk, of 0] by auto
  let ?p = "put_entry e (n @ 0 # rest) (length n) s"
  note p = put_entry_props [OF s(3) n, of "0 # rest" s]
  have eg: "entry g ino k = entry f ino k" for k using entry_disk_to [OF s(2)] f by (simp add: dir_at_def)
  obtain h where h: "inode_write_at g i ?p 20 (int (20 * j)) = Some (if j < nslots ino then 20 else 0, h)"
      "disk_ok h" "inode_ok h ino" "inodes h = inodes g" "alloc_ok h = alloc_ok g"
      "\<forall>k. entry h ino k = (if j < nslots ino \<and> k = j then ?p else entry f ino k)"
    using write_slot [OF dir_at_disk_to [OF s(2) f(1)] f(2) s(4) p(1)] unfolding eg by blast
  have ok: "dir_ok f ino" "dir_at g i ino" using f dir_at_disk_to [OF s(2) f(1)] by (simp_all add: dir_at_def)
  have "dir_ok h ino \<and> dmap h ino = (if j < nslots ino then (dmap f ino)(n \<mapsto> s) else dmap f ino)"
  proof (cases "j < nslots ino")
    case True
    then show ?thesis using dir_ok_add [OF ok(1) _ p(2-5) True _ new] h(6) s(5) by simp
  next
    case False
    then show ?thesis using h(6) ok(1) same_entries [of h ino f] by simp
  qed
  moreover have "(\<exists>k < nslots ino. \<not> e_in_use (entry f ino k)) \<longleftrightarrow> j < nslots ino"
    using s(4-6) by (metis le_neq_implies_less zero_le)
  moreover have "dir_at h i ino" using calculation(1) h ok(2) by (simp add: dir_at_def)
  ultimately show ?thesis by (cases "j < nslots ino") (simp_all add: s(1) h(1) del: of_nat_mult)
qed


lemma demo_dir_at: "dir_at demo_fs 9 demo_inode" "k < 35 \<Longrightarrow> \<not> e_in_use (entry demo_fs demo_inode k)" "nslots demo_inode = 35"
proof -
  have "sec demo_fs (fsector demo_inode k) = replicate 512 0" if "k < 700" for k
    using fsector_in(2) [OF demo_fs_ok(2), of k] that demo_inode_data demo_fs_ok(3)
    by (simp add: dsize_def demo_fs_def device_size_def demo_disk_def demo_block_def)
  then have b: "file_bytes demo_fs demo_inode = replicate 700 0"
    using demo_inode_data by (intro nth_equalityI) (auto simp: file_bytes_def fbyte_def)
  show s: "nslots demo_inode = 35" by (simp add: nslots_def demo_inode_data)
  have e: "entry demo_fs demo_inode k = replicate (min 20 (700 - 20 * k)) 0" for k
    by (simp add: entry_def b)
  show u: "\<not> e_in_use (entry demo_fs demo_inode k)" if "k < 35" for k
    using that unfolding e by (simp add: e_in_use_def)
  show "dir_at demo_fs 9 demo_inode"
    using u demo_fs_ok(1,2) s by (simp_all add: dir_at_def dir_ok_def demo_inode_data) (simp_all add: demo_fs_def demo_inode_def)
qed


end
