(* ===== verification/Filesys.thy ===== *)
theory Filesys
  imports Directory
begin

text \<open>
  The file system interface: \<open>filesys/filesys.c\<close>.  Files are named by buffers, as in the directory
  theory; the parameters \<open>junk\<close> are the contents of uninitialized variables and of new memory.
\<close>

section \<open>Operations\<close>

definition do_format :: "fs \<Rightarrow> fs option" where
  "do_format f = do {
     f \<leftarrow> free_map_create f;
     (ok, f) \<leftarrow> dir_create f ROOT_DIR_SECTOR 16;
     ASSERT ok;
     free_map_close f
   }"

definition filesys_init :: "fs \<Rightarrow> bool \<Rightarrow> u32 list \<Rightarrow> fs option" where
  "filesys_init f fmt junk = do {
     dev \<leftarrow> block_get_role (blks f) BLOCK_FILESYS;
     dev \<leftarrow> dev;
     let f = inode_init (f\<lparr>fs_device := dev\<rparr>);
     f \<leftarrow> free_map_init f junk;
     f \<leftarrow> (if fmt then do_format f else Some f);
     free_map_open f
   }"

definition filesys_done :: "fs \<Rightarrow> fs option" where
  "filesys_done f = free_map_close f"

definition filesys_create :: "fs \<Rightarrow> u8 list \<Rightarrow> int \<Rightarrow> u8 list \<Rightarrow> (bool \<times> fs) option" where
  "filesys_create f name initial_size junk = do {
     (dir, f) \<leftarrow> dir_open_root f;
     (success, inode_sector, f) \<leftarrow>
       (case dir of
          None \<Rightarrow> Some (False, 0, f)
        | Some d \<Rightarrow> do {
            (s, f) \<leftarrow> free_map_allocate f 1;
            case s of
              None \<Rightarrow> Some (False, 0, f)
            | Some s \<Rightarrow> do {
                (ok, f) \<leftarrow> inode_create f s initial_size;
                if ok then do { (ok, f) \<leftarrow> dir_add f d name s junk; Some (ok, s, f) }
                else Some (False, s, f)
              }
          });
     f \<leftarrow> (if \<not> success \<and> inode_sector \<noteq> 0 then free_map_release f inode_sector 1 else Some f);
     f \<leftarrow> dir_close f dir;
     Some (success, f)
   }"

text \<open>
  A symbolic link is followed once.  The target is looked up in a second opening of the root
  directory, which stays open when the target does not exist.
\<close>

definition filesys_open :: "fs \<Rightarrow> u8 list \<Rightarrow> u8 list \<Rightarrow> (open_file option \<times> fs) option" where
  "filesys_open f name junk = do {
     (dir, f) \<leftarrow> dir_open_root f;
     (inode, f) \<leftarrow> (case dir of Some d \<Rightarrow> dir_lookup f d name | None \<Rightarrow> Some (NULL, f));
     f \<leftarrow> dir_close f dir;
     if inode = NULL then Some (None, f)
     else do {
       link \<leftarrow> inode_get_symlink f inode;
       if link then do {
         (bs, f) \<leftarrow> inode_read_at f inode (int NAME_MAX + 1) 0;
         let target = bs @ drop (length bs) junk;
         (root, f) \<leftarrow> dir_open_root f;
         d \<leftarrow> root;
         (inode, f) \<leftarrow> dir_lookup f d target;
         if inode = NULL then Some (None, f)
         else do { f \<leftarrow> dir_close f root; file_open f inode }
       } else file_open f inode
     }
   }"

definition filesys_remove :: "fs \<Rightarrow> u8 list \<Rightarrow> (bool \<times> fs) option" where
  "filesys_remove f name = do {
     (dir, f) \<leftarrow> dir_open_root f;
     (success, f) \<leftarrow> (case dir of Some d \<Rightarrow> dir_remove f d name | None \<Rightarrow> Some (False, f));
     f \<leftarrow> dir_close f dir;
     Some (success, f)
   }"

text \<open>The first 15 bytes at the target are copied whatever its length is.\<close>

definition filesys_symlink :: "fs \<Rightarrow> u8 list \<Rightarrow> u8 list \<Rightarrow> u8 list \<Rightarrow> u8 list \<Rightarrow> (bool \<times> fs) option" where
  "filesys_symlink f target linkpath junk junk' = do {
     (success, f) \<leftarrow> filesys_create f linkpath 15 junk;
     (fo, f) \<leftarrow> filesys_open f linkpath junk';
     symlink \<leftarrow> fo;
     f \<leftarrow> inode_set_symlink f (file_get_inode symlink) True;
     (_, f) \<leftarrow> inode_write_at f (file_get_inode symlink) target (int NAME_MAX + 1) 0;
     f \<leftarrow> file_close f (Some symlink);
     Some (success, f)
   }"

section \<open>Opening and closing\<close>

text \<open>The inode table \<open>g\<close> is \<open>f\<close> with the inode \<open>i\<close> of a sector opened once more.\<close>

definition opens :: "fs \<Rightarrow> u32 \<Rightarrow> sector_data \<Rightarrow> nat \<Rightarrow> fs \<Rightarrow> bool" where
  "opens f s d i g \<longleftrightarrow> i \<noteq> NULL \<and> i \<le> allocs g \<and> allocs f \<le> allocs g \<and>
     ((\<exists>x. inodes f i = Some x \<and> isector x = s \<and> idata x = d \<and> 1 \<le> open_cnt x \<and>
         inodes g = (inodes f)(i \<mapsto> x\<lparr>open_cnt := open_cnt x + 1\<rparr>) \<and> open_inodes g = open_inodes f) \<or>
      (inodes f i = None \<and> i \<notin> set (open_inodes f) \<and> (\<forall>j y. inodes f j = Some y \<longrightarrow> isector y \<noteq> s) \<and> open_inodes g = i # open_inodes f \<and>
         inodes g = (inodes f)(i \<mapsto> \<lparr>isector = s, open_cnt = 1, removed = False, deny_write_cnt = 0, idata = d\<rparr>)))"

text \<open>The inode that opening a sector gives.\<close>

definition inode_data :: "fs \<Rightarrow> u32 \<Rightarrow> sector_data" where
  "inode_data f s = (case find (\<lambda>i. map_option isector (inodes f i) = Some s) (open_inodes f) of
     Some i \<Rightarrow> idata (the (inodes f i)) | None \<Rightarrow> sec f s)"

definition disk_inode :: "fs \<Rightarrow> u32 \<Rightarrow> inode" where
  "disk_inode f s = \<lparr>isector = s, open_cnt = 1, removed = False, deny_write_cnt = 0, idata = inode_data f s\<rparr>"

lemma same_data:
  assumes "idata x = idata y"
  shows "inode_ok f x = inode_ok f y" "file_bytes f x = file_bytes f y" "dir_ok f x = dir_ok f y" "dmap f x = dmap f y" "nslots x = nslots y"
proof -
  have l: "flen x = flen y" "fstart x = fstart y" "fsector x = fsector y" using assms by (simp_all add: flen_def fstart_def fsector_def [abs_def])
  show i: "inode_ok f x = inode_ok f y" using assms l by (simp add: inode_ok_def)
  show b: "file_bytes f x = file_bytes f y" using l by (simp add: file_bytes_def fbyte_def [abs_def])
  show n: "nslots x = nslots y" using l by (simp add: nslots_def)
  have e: "entry f x = entry f y" using b by (simp add: entry_def [abs_def])
  show "dir_ok f x = dir_ok f y" "dmap f x = dmap f y" using e n l by (simp_all add: dir_ok_def dmap_def [abs_def])
qed

lemma same_disk_inode:
  assumes "same_disk f g"
  shows "inode_ok g x = inode_ok f x" "inode_ok f x \<Longrightarrow> file_bytes g x = file_bytes f x"
    "inode_ok f x \<Longrightarrow> dir_ok g x = dir_ok f x" "inode_ok f x \<Longrightarrow> dmap g x = dmap f x"
proof -
  show "inode_ok g x = inode_ok f x" using assms by (simp add: same_disk_def inode_ok_def)
  assume x: "inode_ok f x"
  have "fbyte g x k = fbyte f x k" if "k < flen x" for k
    using assms fsector_in(2) [OF x that] by (simp add: same_disk_def fbyte_def)
  then show b: "file_bytes g x = file_bytes f x" by (simp add: file_bytes_def)
  have "entry g x k = entry f x k" for k using b by (simp add: entry_def)
  then show "dir_ok g x = dir_ok f x" "dmap g x = dmap f x" using same_entries by blast+
qed

lemma inode_data_open:
  assumes ok: "open_ok f" and i: "inodes f i = Some x"
  shows "inode_data f (isector x) = idata x"
proof -
  let ?P = "\<lambda>i. map_option isector (inodes f i) = Some (isector x)"
  have m: "i \<in> set (open_inodes f)" using ok i by (auto simp: open_ok_def)
  then obtain j where j: "find ?P (open_inodes f) = Some j" using i by (cases "find ?P (open_inodes f)") (auto simp: find_None_iff)
  then obtain y where "inodes f j = Some y" "isector y = isector x" by (auto simp: find_Some_iff)
  then have "j = i" using open_ok_unique [OF ok _ i] by blast
  then show ?thesis using j i by (simp add: inode_data_def)
qed

lemma inode_data_closed: "\<forall>i x. inodes f i = Some x \<longrightarrow> isector x \<noteq> s \<Longrightarrow> inode_data f s = sec f s"
  by (auto simp: inode_data_def find_Some_iff split: option.splits)

lemma inode_open_run:
  assumes "open_ok f" "disk_ok f" "\<forall>n. alloc_ok f n" "unat s < dsize f"
  shows "\<exists>i g. inode_open f s = Some (i, g) \<and> opens f s (inode_data f s) i g \<and> same_disk f g"
proof (cases "\<exists>i x. inodes f i = Some x \<and> isector x = s")
  case True
  then obtain i x where i: "inodes f i = Some x" "isector x = s" by blast
  define g where "g = set_inode f i (\<lambda>x. x\<lparr>open_cnt := open_cnt x + 1\<rparr>)"
  have o: "inode_open f s = Some (i, g)" using inode_open_shared [OF assms(1) i] by (simp add: g_def)
  have n: "i \<noteq> NULL" "1 \<le> open_cnt x" "i \<le> allocs f" using assms(1) i(1) by (auto simp: open_ok_def)
  have gi: "inodes g = (inodes f)(i \<mapsto> x\<lparr>open_cnt := open_cnt x + 1\<rparr>)" "open_inodes g = open_inodes f" "allocs g = allocs f"
    using i by (simp_all add: g_def set_inode_def)
  have "opens f s (inode_data f s) i g" using i n gi inode_data_open [OF assms(1) i(1)] by (simp add: opens_def)
  moreover have "same_disk f g" using assms(2) by (intro same_disk_tables) (simp_all add: g_def set_inode_def)
  ultimately show ?thesis using o by blast
next
  case False
  let ?i = "allocs f + 1" and ?x = "\<lparr>isector = s, open_cnt = 1, removed = False, deny_write_cnt = 0, idata = sec f s\<rparr>"
  obtain g where g: "inode_open f s = Some (?i, g)" "open_inodes g = ?i # open_inodes f" "allocs g = ?i" "inodes g = (inodes f)(?i \<mapsto> ?x)"
      "same_disk f g"
    using inode_open_new [OF assms(1,2) _ assms(4)] assms(3) False by blast
  have n: "?i \<notin> set (open_inodes f)" using assms(1) by (auto simp: open_ok_def)
  have m: "inodes f ?i = None" using n assms(1) by (auto simp: open_ok_def simp flip: domIff)
  have "opens f s (inode_data f s) ?i g"
    using g(2-4) n m inode_data_closed [of f s] False by (simp add: opens_def)
  then show ?thesis using g(1,5) by blast
qed

lemma open_ok_opens: "open_ok f \<Longrightarrow> opens f s d i g \<Longrightarrow> open_ok g"
  unfolding opens_def
proof (elim conjE disjE exE)
  fix x
  assume f: "open_ok f" "inodes f i = Some x" "1 \<le> open_cnt x" "allocs f \<le> allocs g"
    and g: "inodes g = (inodes f)(i \<mapsto> x\<lparr>open_cnt := open_cnt x + 1\<rparr>)" "open_inodes g = open_inodes f"
  show "open_ok g" using open_ok_update [OF f(1,2) _ g f(4)] f(3) by simp
next
  let ?x = "\<lparr>isector = s, open_cnt = 1, removed = False, deny_write_cnt = 0, idata = d\<rparr>"
  assume f: "open_ok f" "i \<noteq> NULL" "i \<le> allocs g" "allocs f \<le> allocs g" "inodes f i = None" "i \<notin> set (open_inodes f)"
      "\<forall>j y. inodes f j = Some y \<longrightarrow> isector y \<noteq> s"
    and g: "open_inodes g = i # open_inodes f" "inodes g = (inodes f)(i \<mapsto> ?x)"
  show "open_ok g" using open_ok_insert [OF f(1,6) _ g(1) f(3) g(2) f(4,2)] f(7) by simp
qed

lemma inode_close_opens:
  assumes "opens f s d i g" "inodes h = inodes g" "open_inodes h = open_inodes g"
  shows "inode_close h i = Some (h\<lparr>inodes := inodes f, open_inodes := open_inodes f\<rparr>)"
  using assms unfolding opens_def
  by (elim conjE disjE exE) (simp_all add: inode_close_def set_inode_def fun_upd_idem)

lemma inode_close_dec:
  "i \<noteq> NULL \<Longrightarrow> inodes h i = Some x \<Longrightarrow> 1 < open_cnt x \<Longrightarrow>
   inode_close h i = Some (h\<lparr>inodes := (inodes h)(i \<mapsto> x\<lparr>open_cnt := open_cnt x - 1\<rparr>)\<rparr>)"
  by (simp add: inode_close_def set_inode_def)

lemma inode_close_last:
  "i \<noteq> NULL \<Longrightarrow> inodes h i = Some x \<Longrightarrow> open_cnt x = 1 \<Longrightarrow> \<not> removed x \<Longrightarrow>
   inode_close h i = Some (h\<lparr>inodes := (inodes h)(i := None), open_inodes := remove1 i (open_inodes h)\<rparr>)"
  by (simp add: inode_close_def set_inode_def)

text \<open>Closing an inode after another has been opened.\<close>

lemma inode_close_before:
  assumes o: "opens f s d i g" "inodes g' = inodes g" "open_inodes g' = open_inodes g" "opens g' t e j h"
    "inodes h' = inodes h" "open_inodes h' = open_inodes h" and a: "allocs g \<le> allocs g'" "allocs h \<le> allocs h'"
  shows "\<exists>k. inode_close h' i = Some k \<and> opens f t e j k \<and>
     blks k = blks h' \<and> fs_device k = fs_device h' \<and> alloc_ok k = alloc_ok h' \<and> allocs k = allocs h'"
proof -
  have al: "allocs f \<le> allocs h'" "j \<le> allocs h'" "j \<noteq> NULL" using o a unfolding opens_def by linarith+
  show ?thesis
  proof (cases "inodes f i")
    case (Some x)
    then have g: "i \<noteq> NULL" "isector x = s" "idata x = d" "1 \<le> open_cnt x"
        "inodes g' = (inodes f)(i \<mapsto> x\<lparr>open_cnt := open_cnt x + 1\<rparr>)" "open_inodes g' = open_inodes f"
      using o(1-3) by (auto simp: opens_def)
    show ?thesis
    proof (cases "j = i")
      case True
      then have "inodes h' = (inodes f)(i \<mapsto> x\<lparr>open_cnt := open_cnt x + 2\<rparr>)" "open_inodes h' = open_inodes f" "t = s" "e = d"
        using o(4-6) g by (auto simp: opens_def)
      then show ?thesis using inode_close_dec [OF g(1), of h'] g True Some al by (auto simp: opens_def)
    next
      case False
      then have h: "inodes h' i = Some (x\<lparr>open_cnt := open_cnt x + 1\<rparr>)" using o(4-6) g by (auto simp: opens_def)
      have "opens f t e j (h'\<lparr>inodes := (inodes h')(i \<mapsto> x)\<rparr>)"
        using o(4-6) g False Some al by (auto simp: opens_def fun_upd_twist fun_upd_idem split: if_splits; metis option.inject)
      then show ?thesis using inode_close_dec [OF g(1) h] g(4) by auto
    qed
  next
    case None
    let ?x = "\<lparr>isector = s, open_cnt = 1, removed = False, deny_write_cnt = 0, idata = d\<rparr>"
    from None have g: "i \<noteq> NULL" "i \<notin> set (open_inodes f)" "inodes g' = (inodes f)(i \<mapsto> ?x)" "open_inodes g' = i # open_inodes f"
        "\<forall>j y. inodes f j = Some y \<longrightarrow> isector y \<noteq> s"
      using o(1-3) by (auto simp: opens_def)
    show ?thesis
    proof (cases "j = i")
      case True
      then have "inodes h' = (inodes f)(i \<mapsto> ?x\<lparr>open_cnt := 2\<rparr>)" "open_inodes h' = i # open_inodes f" "t = s" "e = d"
        using o(4-6) g by (auto simp: opens_def)
      then show ?thesis using inode_close_dec [OF g(1), of h'] g True None al by (auto simp: opens_def)
    next
      case False
      then have h: "inodes h' i = Some ?x" using o(4-6) g by (auto simp: opens_def)
      have "opens f t e j (h'\<lparr>inodes := (inodes h')(i := None), open_inodes := remove1 i (open_inodes h')\<rparr>)"
        using o(4-6) g False None al by (auto simp: opens_def fun_upd_twist fun_upd_idem split: if_splits; metis option.distinct(1))
      then show ?thesis using inode_close_last [OF g(1) h] by auto
    qed
  qed
qed

section \<open>The root directory\<close>

definition root_ok :: "fs \<Rightarrow> bool" where
  "root_ok f \<longleftrightarrow> open_ok f \<and> disk_ok f \<and> (\<forall>n. alloc_ok f n) \<and> 1 < dsize f \<and>
     inode_ok f (disk_inode f ROOT_DIR_SECTOR) \<and> dir_ok f (disk_inode f ROOT_DIR_SECTOR)"

definition root_map :: "fs \<Rightarrow> u8 list \<rightharpoonup> u32" where
  "root_map f = dmap f (disk_inode f ROOT_DIR_SECTOR)"

lemma same_disk_upd:
  assumes "same_disk f g" "blks h = blks g" "fs_device h = fs_device g" "alloc_ok h = alloc_ok g"
  shows "same_disk f h"
  using same_disk_trans [OF assms(1) same_disk_tables [OF _ assms(2-4)]] assms(1) by (simp add: same_disk_def)

lemma same_disk_allocs: "same_disk f g \<Longrightarrow> same_disk f (g\<lparr>allocs := n\<rparr>)"
  by (erule same_disk_upd) simp_all

lemma opens_at: "opens f s d i g \<Longrightarrow> \<exists>ino. inodes g i = Some ino \<and> idata ino = d \<and> i \<noteq> NULL"
  by (auto simp: opens_def)

lemma dir_open_root_run:
  assumes "root_ok f"
  shows "\<exists>i g. dir_open_root f = Some (Some \<lparr>dinode = i, dpos = 0\<rparr>, g) \<and> opens f ROOT_DIR_SECTOR (inode_data f ROOT_DIR_SECTOR) i g \<and>
     same_disk f g"
proof -
  have "unat ROOT_DIR_SECTOR < dsize f" using assms by (simp add: root_ok_def)
  then obtain i g where g: "inode_open f ROOT_DIR_SECTOR = Some (i, g)" "opens f ROOT_DIR_SECTOR (inode_data f ROOT_DIR_SECTOR) i g"
      "same_disk f g"
    using inode_open_run [of f ROOT_DIR_SECTOR] assms unfolding root_ok_def by blast
  have "i \<noteq> NULL" "\<forall>n. alloc_ok g n" using g(2,3) assms by (auto simp: opens_def same_disk_def root_ok_def)
  then have "dir_open_root f = Some (Some \<lparr>dinode = i, dpos = 0\<rparr>, g\<lparr>allocs := allocs g + 1\<rparr>)"
    using g(1) by (simp add: dir_open_root_def dir_open_def fs_malloc_def)
  moreover have "opens f ROOT_DIR_SECTOR (inode_data f ROOT_DIR_SECTOR) i (g\<lparr>allocs := allocs g + 1\<rparr>)"
    using g(2) by (simp add: opens_def)
  ultimately show ?thesis using same_disk_allocs [OF g(3)] by blast
qed

lemma root_lookup:
  assumes f: "root_ok f" and o: "opens f ROOT_DIR_SECTOR (inode_data f ROOT_DIR_SECTOR) i g" "same_disk f g" and n: "0 \<notin> set n"
  shows "\<exists>r h. lookup g i (n @ 0 # rest) = Some (r, h) \<and> disk_to g (sec g) h \<and> map_option (e_sector \<circ> fst) r = root_map f n"
proof -
  obtain ino where ino: "inodes g i = Some ino" "idata ino = idata (disk_inode f ROOT_DIR_SECTOR)"
    using opens_at [OF o(1)] by (auto simp: disk_inode_def)
  note [simp] = same_data [OF ino(2)] and r = same_disk_inode [OF o(2), of "disk_inode f ROOT_DIR_SECTOR"]
  have "dir_at g i ino" using f o(2) ino(1) r by (auto simp: dir_at_def root_ok_def same_disk_def)
  moreover have "dmap g ino = root_map f" using r f by (simp add: root_map_def root_ok_def)
  ultimately show ?thesis using lookup_run [of g i ino n rest] n by metis
qed

lemma inode_data_opens:
  assumes ok: "open_ok f" "opens f s (inode_data f s) i g" "same_disk f g" and t: "unat t < dsize f"
  shows "inode_data g t = inode_data f t"
proof (cases "\<exists>j y. inodes g j = Some y \<and> isector y = t")
  case True
  then obtain j y where y: "inodes g j = Some y" "isector y = t" by blast
  have "inode_data g t = idata y" using inode_data_open [OF open_ok_opens [OF ok(1,2)] y(1)] y(2) by simp
  also have "idata y = inode_data f t"
  proof (cases "inodes f j")
    case None
    then show ?thesis using ok(2) y by (auto simp: opens_def split: if_splits)
  next
    case (Some x)
    then have "idata y = idata x" "isector x = t" using ok(2) y by (auto simp: opens_def split: if_splits)
    then show ?thesis using inode_data_open [OF ok(1) Some] by simp
  qed
  finally show ?thesis .
next
  case False
  then have "\<forall>j x. inodes f j = Some x \<longrightarrow> isector x \<noteq> t"
    using ok(2) unfolding opens_def by (auto split: if_splits; metis option.distinct(1) option.inject)
  then show ?thesis using False inode_data_closed [of f t] inode_data_closed [of g t] ok(3) t by (simp add: same_disk_def)
qed

section \<open>Finding a file\<close>

text \<open>The first part of \<open>filesys_open\<close>: the inode of a name, with the root directory closed again.\<close>

definition resolve :: "fs \<Rightarrow> u8 list \<Rightarrow> (nat \<times> fs) option" where
  "resolve f name = do {
     (dir, f) \<leftarrow> dir_open_root f;
     (inode, f) \<leftarrow> (case dir of Some d \<Rightarrow> dir_lookup f d name | None \<Rightarrow> Some (NULL, f));
     f \<leftarrow> dir_close f dir;
     Some (inode, f)
   }"

lemma filesys_open_resolve:
  "filesys_open f name junk = Option.bind (resolve f name) (\<lambda>(inode, f).
     if inode = NULL then Some (None, f)
     else Option.bind (inode_get_symlink f inode) (\<lambda>link.
       if link then do {
         (bs, f) \<leftarrow> inode_read_at f inode (int NAME_MAX + 1) 0;
         let target = bs @ drop (length bs) junk;
         (root, f) \<leftarrow> dir_open_root f;
         d \<leftarrow> root;
         (inode, f) \<leftarrow> dir_lookup f d target;
         if inode = NULL then Some (None, f)
         else do { f \<leftarrow> dir_close f root; file_open f inode }
       } else file_open f inode))"
  by (simp add: filesys_open_def resolve_def case_prod_beta' cong: if_cong)

lemma resolve_missing:
  assumes f: "root_ok f" and n: "0 \<notin> set n" "root_map f n = None"
  shows "\<exists>g. resolve f (n @ 0 # rest) = Some (NULL, g) \<and> inodes g = inodes f \<and> open_inodes g = open_inodes f"
proof -
  obtain i g where g: "dir_open_root f = Some (Some \<lparr>dinode = i, dpos = 0\<rparr>, g)"
      "opens f ROOT_DIR_SECTOR (inode_data f ROOT_DIR_SECTOR) i g" "same_disk f g"
    using dir_open_root_run [OF f] by blast
  obtain r h where h: "lookup g i (n @ 0 # rest) = Some (r, h)" "disk_to g (sec g) h" "map_option (e_sector \<circ> fst) r = root_map f n"
    using root_lookup [OF f g(2,3) n(1)] by blast
  have "inode_close h i = Some (h\<lparr>inodes := inodes f, open_inodes := open_inodes f\<rparr>)"
    using inode_close_opens [OF g(2)] disk_toD(4,5) [OF h(2)] by simp
  then show ?thesis using g(1) h(1,3) n(2) by (simp add: resolve_def dir_lookup_def dir_close_def)
qed

lemma resolve_found:
  assumes f: "root_ok f" and n: "0 \<notin> set n" "root_map f n = Some s" "unat s < dsize f"
  shows "\<exists>j k. resolve f (n @ 0 # rest) = Some (j, k) \<and> opens f s (inode_data f s) j k \<and> same_disk f k"
proof -
  have ok: "open_ok f" using f by (simp add: root_ok_def)
  obtain i g where g: "dir_open_root f = Some (Some \<lparr>dinode = i, dpos = 0\<rparr>, g)"
      "opens f ROOT_DIR_SECTOR (inode_data f ROOT_DIR_SECTOR) i g" "same_disk f g"
    using dir_open_root_run [OF f] by blast
  obtain r h where h: "lookup g i (n @ 0 # rest) = Some (r, h)" "disk_to g (sec g) h" "map_option (e_sector \<circ> fst) r = root_map f n"
    using root_lookup [OF f g(2,3) n(1)] by blast
  then obtain e ofs where r: "r = Some (e, ofs)" "e_sector e = s" using n(2) by auto
  note t = disk_toD(4,5,10) [OF h(2)]
  have oh: "opens f ROOT_DIR_SECTOR (inode_data f ROOT_DIR_SECTOR) i h" using g(2) t by (auto simp: opens_def)
  have dh: "same_disk f h" using same_disk_trans [OF g(3) same_disk_disk_to [OF h(2)]] .
  have "inode_data h s = inode_data f s" using inode_data_opens [OF ok oh dh n(3)] .
  moreover have "\<forall>n. alloc_ok h n" "unat s < dsize h" "disk_ok h" using dh f n(3) by (simp_all add: same_disk_def root_ok_def)
  ultimately obtain j k where k: "inode_open h s = Some (j, k)" "opens h s (inode_data f s) j k" "same_disk h k"
    using inode_open_run [OF open_ok_opens [OF ok oh], of s] by auto
  obtain l where l: "inode_close k i = Some l" "opens f s (inode_data f s) j l" "blks l = blks k" "fs_device l = fs_device k"
      "alloc_ok l = alloc_ok k"
    using inode_close_before [OF oh refl refl k(2) refl refl] by blast
  have "same_disk f l" using same_disk_upd [OF same_disk_trans [OF dh k(3)] l(3-5)] .
  then show ?thesis using g(1) h(1) r k(1) l(1,2) by (simp add: resolve_def dir_lookup_def dir_close_def)
qed

section \<open>A file system with a dangling link\<close>

lemma file_bytes_short:
  assumes "disk_ok f" "inode_ok f x" "flen x \<le> 512"
  shows "file_bytes f x = take (flen x) (sec f (d_start (idata x)))"
proof (cases "flen x = 0")
  case False
  then have "length (sec f (d_start (idata x))) = 512"
    using assms(1) fsector_in(2) [OF assms(2), of 0] by (simp add: disk_ok_def fsector_def)
  then show ?thesis using assms(3) by (intro nth_equalityI) (auto simp: file_bytes_def fbyte_def fsector_def)
qed (simp add: file_bytes_def)

definition demo_entry :: "u8 list" where
  "demo_entry = bytes32 5 @ [108, 110, 0] @ replicate 12 0 @ [1]"

definition demo_sectors :: "u32 \<Rightarrow> sector_data" where
  "demo_sectors s = (if s = 1 then mk_inode_disk 2 320 else if s = 2 then demo_entry @ replicate 492 0
     else if s = 5 then (mk_inode_disk 6 15)[12 := 1] else if s = 6 then 122 # replicate 511 0 else replicate 512 0)"

definition demo_link :: fs where
  "demo_link = demo_fs\<lparr>blks := demo_disk\<lparr>disks := \<lambda>_. demo_sectors\<rparr>, inodes := Map.empty, open_inodes := []\<rparr>"

lemma length_demo_sectors: "length (demo_sectors s) = 512"
  by (simp add: demo_sectors_def mk_inode_disk_def demo_entry_def)

lemma demo_link_disk: "disk_ok demo_link" "dsize demo_link = 16" "unat s < 16 \<Longrightarrow> inode_data demo_link s = demo_sectors s"
    "unat s < 16 \<Longrightarrow> sec demo_link s = demo_sectors s"
proof -
  let ?b = "demo_disk\<lparr>disks := \<lambda>_. demo_sectors\<rparr>"
  have w: "writable ?b 0" by (rule writable.disk [of _ _ 0]) (simp_all add: demo_disk_def demo_block_def)
  have "resolves ?b 0 s 0 s" if "unat s < 16" for s
    by (rule resolves.disk) (use that in \<open>simp_all add: demo_disk_def demo_block_def word_less_nat_alt\<close>)
  then show c: "sec demo_link s = demo_sectors s" if "unat s < 16" for s
    using block_read_run [of ?b 0 s 0 s] that by (auto simp: sec_def contents_def demo_link_def demo_fs_def)
  then show "inode_data demo_link s = demo_sectors s" if "unat s < 16" for s
    using that by (simp add: inode_data_def demo_link_def)
  show d: "dsize demo_link = 16" by (simp add: dsize_def demo_link_def demo_fs_def device_size_def demo_disk_def demo_block_def)
  show "disk_ok demo_link"
    using w c d length_demo_sectors unfolding disk_ok_def
    by (simp add: device_ok_def demo_link_def demo_fs_def blocks_ok_def demo_disk_def demo_block_def)
qed

lemma demo_link_inodes:
  "flen (disk_inode demo_link 1) = 320" "fstart (disk_inode demo_link 1) = 2" "d_start (idata (disk_inode demo_link 1)) = 2"
  "flen (disk_inode demo_link 5) = 15" "fstart (disk_inode demo_link 5) = 6" "d_start (idata (disk_inode demo_link 5)) = 6"
  "d_symlink (inode_data demo_link 5)"
  by (simp_all add: flen_def fstart_def disk_inode_def demo_link_disk(3) demo_sectors_def mk_inode_disk_def d_length_def d_start_def
      d_symlink_def le32_def bytes32_def)

lemma demo_link_ok: "inode_ok demo_link (disk_inode demo_link 1)" "inode_ok demo_link (disk_inode demo_link 5)"
  "file_bytes demo_link (disk_inode demo_link 1) = demo_entry @ replicate 300 0"
  "file_bytes demo_link (disk_inode demo_link 5) = 122 # replicate 14 0"
proof -
  show i: "inode_ok demo_link (disk_inode demo_link 1)" "inode_ok demo_link (disk_inode demo_link 5)"
    using demo_link_inodes demo_link_disk(2) by (simp_all add: inode_ok_def flen_def)
  show "file_bytes demo_link (disk_inode demo_link 1) = demo_entry @ replicate 300 0"
    using file_bytes_short [OF demo_link_disk(1) i(1)] demo_link_disk(4) [of 2] demo_link_inodes
    by (simp add: demo_sectors_def demo_entry_def)
  show "file_bytes demo_link (disk_inode demo_link 5) = 122 # replicate 14 0"
    using file_bytes_short [OF demo_link_disk(1) i(2)] demo_link_disk(4) [of 6] demo_link_inodes
    by (simp add: demo_sectors_def take_Cons')
qed

lemma demo_root: "root_ok demo_link" "root_map demo_link [108, 110] = Some 5" "root_map demo_link [122] = None"
proof -
  let ?r = "disk_inode demo_link 1"
  have n: "nslots ?r = 16" by (simp add: nslots_def demo_link_inodes)
  have l: "length demo_entry = 20" by (simp add: demo_entry_def)
  then have e: "entry demo_link ?r k = (if k = 0 then demo_entry else replicate 20 0)" if "k < 16" for k
    using that by (auto simp: entry_def demo_link_ok(3))
  have u: "e_in_use (entry demo_link ?r k) \<longleftrightarrow> k = 0" if "k < 16" for k
    using e [OF that] by (simp add: e_in_use_def demo_entry_def bytes32_def nth_append)
  have nm: "ename demo_entry = [108, 110]" "e_sector demo_entry = 5" "0 \<in> set (take 15 (drop 4 demo_entry))"
    by (simp_all add: ename_def demo_entry_def e_sector_def le32_bytes32)
  have d: "dir_ok demo_link ?r" using n e u nm(3) unfolding dir_ok_def has_name_def by (auto simp: demo_link_inodes)
  then show "root_ok demo_link"
    using demo_link_disk(1,2) demo_link_ok(1) by (simp add: root_ok_def) (simp add: demo_link_def demo_fs_def open_ok_def)
  show "root_map demo_link [108, 110] = Some 5"
    unfolding root_map_def dmap_Some [OF d] using n e [of 0] u [of 0] nm by (intro exI [of _ 0]) (simp add: has_name_def)
  show "root_map demo_link [122] = None"
    unfolding root_map_def dmap_None using n e u nm by (auto simp: has_name_def)
qed



lemma root_ok_opens:
  assumes f: "root_ok f" and g: "opens f s (inode_data f s) j g" "same_disk f g"
  shows "root_ok g" "root_map g = root_map f"
proof -
  have ok: "open_ok f" "unat ROOT_DIR_SECTOR < dsize f" using f by (simp_all add: root_ok_def)
  have "disk_inode g ROOT_DIR_SECTOR = disk_inode f ROOT_DIR_SECTOR"
    using inode_data_opens [OF ok(1) g ok(2)] by (simp add: disk_inode_def)
  note [simp] = this
  have "inode_ok f (disk_inode f ROOT_DIR_SECTOR)" using f by (simp add: root_ok_def)
  note r = same_disk_inode(1) [OF g(2)] same_disk_inode(3,4) [OF g(2) this]
  show "root_ok g" using f g(2) open_ok_opens [OF ok(1) g(1)] r by (simp add: root_ok_def same_disk_def)
  show "root_map g = root_map f" using r by (simp add: root_map_def)
qed

lemma opens_disk_to: "opens f s d i g \<Longrightarrow> disk_to g (sec g) h \<Longrightarrow> opens f s d i h"
  using disk_toD(4,5,10) [of g "sec g" h] by (auto simp: opens_def)

text \<open>
  C35.  Opening a symbolic link whose target does not exist fails, but leaves two inodes open: the
  one of the link, which is never closed, and the one of the root directory, which has been
  opened a second time to look the target up.
\<close>

theorem filesys_open_dangling_leaks:
  assumes f: "root_ok f" and n: "0 \<notin> set n" "root_map f n = Some s" "unat s < dsize f"
    and link: "d_symlink (inode_data f s)" "inode_ok f (disk_inode f s)" "file_bytes f (disk_inode f s) = t @ 0 # u"
    and t: "0 \<notin> set t" "length t \<le> NAME_MAX" "root_map f t = None"
  shows "\<exists>g j k i. filesys_open f (n @ 0 # rest) junk = Some (None, g) \<and>
     opens f s (inode_data f s) j k \<and> opens k ROOT_DIR_SECTOR (inode_data f ROOT_DIR_SECTOR) i g"
proof -
  obtain j k where k: "resolve f (n @ 0 # rest) = Some (j, k)" "opens f s (inode_data f s) j k" "same_disk f k"
    using resolve_found [OF f n] by blast
  obtain ino where ino: "inodes k j = Some ino" "idata ino = idata (disk_inode f s)" "j \<noteq> NULL"
    using opens_at [OF k(2)] by (auto simp: disk_inode_def)
  note [simp] = same_data [OF ino(2)]
  have "inode_ok k ino" "file_bytes k ino = t @ 0 # u" using link same_disk_inode(1,2) [OF k(3)] by simp_all
  moreover have "disk_ok k" "\<forall>n. alloc_ok k n" using k(3) f by (simp_all add: same_disk_def root_ok_def)
  ultimately obtain k1 where k1: "inode_read_at k j 15 0 = Some (take 15 (t @ 0 # u), k1)" "disk_to k (sec k) k1"
    using inode_read_at_run [of k j ino 15 0] ino(1) by auto
  define v where "v = take (14 - length t) u @ drop (length (take 15 (t @ 0 # u))) junk"
  have v: "take 15 (t @ 0 # u) @ drop (length (take 15 (t @ 0 # u))) junk = t @ 0 # v"
    using t(2) by (simp add: v_def take_Cons' Suc_diff_le)
  have o1: "opens f s (inode_data f s) j k1" "same_disk f k1"
    using opens_disk_to [OF k(2) k1(2)] same_disk_trans [OF k(3) same_disk_disk_to [OF k1(2)]] .
  note r1 = root_ok_opens [OF f o1]
  obtain i g where g: "dir_open_root k1 = Some (Some \<lparr>dinode = i, dpos = 0\<rparr>, g)"
      "opens k1 ROOT_DIR_SECTOR (inode_data k1 ROOT_DIR_SECTOR) i g" "same_disk k1 g"
    using dir_open_root_run [OF r1(1)] by blast
  obtain r h where h: "lookup g i (t @ 0 # v) = Some (r, h)" "disk_to g (sec g) h" "map_option (e_sector \<circ> fst) r = root_map f t"
    using root_lookup [OF r1(1) g(2,3) t(1)] r1(2) by metis
  have "filesys_open f (n @ 0 # rest) junk = Some (None, h)"
    using k(1) ino link(1) k1(1) g(1) h(1,3) t(3) v
    by (simp add: filesys_open_resolve inode_get_symlink_def disk_inode_def dir_lookup_def)
  moreover have "inode_data k1 ROOT_DIR_SECTOR = inode_data f ROOT_DIR_SECTOR"
    using inode_data_opens [OF _ o1] f by (simp add: root_ok_def)
  ultimately show ?thesis using o1(1) opens_disk_to [OF g(2) h(2)] by metis
qed

theorem filesys_open_dangling_leaks_witness:
  "\<exists>g. filesys_open demo_link [108, 110, 0] [] = Some (None, g) \<and> open_inodes g \<noteq> []"
proof -
  have "file_bytes demo_link (disk_inode demo_link 5) = [122] @ 0 # replicate 13 0"
    using demo_link_ok(4) by (simp add: replicate_Suc [symmetric] numeral_eq_Suc)
  then obtain g j k i where "filesys_open demo_link [108, 110, 0] [] = Some (None, g)"
      "opens demo_link 5 (inode_data demo_link 5) j k" "opens k 1 (inode_data demo_link 1) i g"
    using filesys_open_dangling_leaks [OF demo_root(1) _ demo_root(2) _ demo_link_inodes(7) demo_link_ok(2), of "[122]" "replicate 13 0" "[]" "[]"]
      demo_root(3) demo_link_disk(2) by auto
  moreover from this have "open_inodes k \<noteq> []" "open_inodes g \<noteq> []" by (auto simp: opens_def demo_link_def)
  ultimately show ?thesis by blast
qed

end
