(* ===== verification/CharIO.thy ===== *)
theory CharIO
  imports Synch Stdlib
begin

text \<open>
  The character devices: the interrupt queues of \<open>devices/intq.c\<close>, the input buffer of
  \<open>devices/input.c\<close>, the serial port of \<open>devices/serial.c\<close> and the keyboard of \<open>devices/kbd.c\<close>.  The state
  holds the kernel, the two queues, the mode of the serial port, the keys held down, and the
  ports: every \<open>outb\<close> is recorded in \<open>outs\<close>, and the \<open>n\<close>-th \<open>inb\<close> reads what the hardware function
  \<open>hw\<close> answers.  An operation that has to wait for a queue has the outcome \<open>Sleep\<close>, with the
  thread recorded as the waiter; the loop around the wait starts the operation again when the
  thread is woken up.
\<close>

section \<open>State\<close>

abbreviation INTQ_BUFSIZE :: nat where "INTQ_BUFSIZE \<equiv> 64"

record intq =
  qlock :: nat
  not_full :: nat
  not_empty :: nat
  buf :: "u8 list"
  head :: nat
  tail :: nat

datatype serial_mode = UNINIT | POLL | QUEUE

datatype queue_name = Input | Txq

record chario =
  kern :: kernel
  buffer :: intq
  txq :: intq
  mode :: serial_mode
  left_shift :: bool
  right_shift :: bool
  left_alt :: bool
  right_alt :: bool
  left_ctrl :: bool
  right_ctrl :: bool
  caps_lock :: bool
  key_cnt :: int
  rebooted :: bool
  handlers :: "u8 \<Rightarrow> string option"
  hw :: "nat \<Rightarrow> u16 \<Rightarrow> u8"
  ins :: nat
  outs :: "(u16 \<times> u8) list"

datatype 'a outcome = Done 'a | Sleep

definition queue :: "chario \<Rightarrow> queue_name \<Rightarrow> intq" where
  "queue d n = (case n of Input \<Rightarrow> buffer d | Txq \<Rightarrow> txq d)"

definition set_queue :: "chario \<Rightarrow> queue_name \<Rightarrow> intq \<Rightarrow> chario" where
  "set_queue d n q = (case n of Input \<Rightarrow> d\<lparr>buffer := q\<rparr> | Txq \<Rightarrow> d\<lparr>txq := q\<rparr>)"

definition inb :: "chario \<Rightarrow> u16 \<Rightarrow> u8 \<times> chario" where
  "inb d p = (hw d (ins d) p, d\<lparr>ins := ins d + 1\<rparr>)"

definition outb :: "chario \<Rightarrow> u16 \<Rightarrow> u8 \<Rightarrow> chario" where
  "outb d p v = d\<lparr>outs := outs d @ [(p, v)]\<rparr>"

section \<open>Interrupt queues\<close>

definition intq_next :: "nat \<Rightarrow> nat" where
  "intq_next pos = (pos + 1) mod INTQ_BUFSIZE"

definition intq_init :: "chario \<Rightarrow> queue_name \<Rightarrow> chario option" where
  "intq_init d n = do {
     k \<leftarrow> lock_init (kern d) (qlock (queue d n));
     Some (set_queue (d\<lparr>kern := k\<rparr>) n ((queue d n)\<lparr>not_full := NULL, not_empty := NULL, head := 0, tail := 0\<rparr>))
   }"

definition intq_empty :: "chario \<Rightarrow> queue_name \<Rightarrow> bool option" where
  "intq_empty d n = do {
     ASSERT (\<not> intr_on (kern d));
     Some (head (queue d n) = tail (queue d n))
   }"

definition intq_full :: "chario \<Rightarrow> queue_name \<Rightarrow> bool option" where
  "intq_full d n = do {
     ASSERT (\<not> intr_on (kern d));
     Some (intq_next (head (queue d n)) = tail (queue d n))
   }"

text \<open>\<open>wait\<close> up to \<open>thread_block\<close>; \<open>e\<close> tells which of the two conditions is waited for.\<close>

definition intq_wait :: "chario \<Rightarrow> queue_name \<Rightarrow> bool \<Rightarrow> chario option" where
  "intq_wait d n e = do {
     ASSERT (\<not> intr_context (kern d));
     ASSERT (\<not> intr_on (kern d));
     b \<leftarrow> (if e then intq_empty d n else intq_full d n);
     ASSERT b;
     c \<leftarrow> thread_current (kern d);
     Some (set_queue d n (if e then (queue d n)\<lparr>not_empty := c\<rparr> else (queue d n)\<lparr>not_full := c\<rparr>))
   }"

definition intq_signal :: "chario \<Rightarrow> queue_name \<Rightarrow> bool \<Rightarrow> chario option" where
  "intq_signal d n e = do {
     ASSERT (\<not> intr_on (kern d));
     b \<leftarrow> (if e then intq_empty d n else intq_full d n);
     ASSERT (\<not> b);
     let w = (if e then not_empty (queue d n) else not_full (queue d n));
     if w \<noteq> NULL then do {
       k \<leftarrow> thread_unblock (kern d) w;
       Some (set_queue (d\<lparr>kern := k\<rparr>) n
         (if e then (queue d n)\<lparr>not_empty := NULL\<rparr> else (queue d n)\<lparr>not_full := NULL\<rparr>))
     } else Some d
   }"

definition intq_getc :: "chario \<Rightarrow> queue_name \<Rightarrow> (u8 outcome \<times> chario) option" where
  "intq_getc d n = do {
     ASSERT (\<not> intr_on (kern d));
     e \<leftarrow> intq_empty d n;
     if e then do {
       ASSERT (\<not> intr_context (kern d));
       d \<leftarrow> intq_wait d n True;
       Some (Sleep, d)
     } else do {
       let q = queue d n;
       byte \<leftarrow> rd (buf q) (tail q);
       d \<leftarrow> intq_signal (set_queue d n (q\<lparr>tail := intq_next (tail q)\<rparr>)) n False;
       Some (Done byte, d)
     }
   }"

definition intq_putc :: "chario \<Rightarrow> queue_name \<Rightarrow> u8 \<Rightarrow> (unit outcome \<times> chario) option" where
  "intq_putc d n byte = do {
     ASSERT (\<not> intr_on (kern d));
     f \<leftarrow> intq_full d n;
     if f then do {
       ASSERT (\<not> intr_context (kern d));
       d \<leftarrow> intq_wait d n False;
       Some (Sleep, d)
     } else do {
       let q = queue d n;
       b \<leftarrow> wr (buf q) (head q) byte;
       d \<leftarrow> intq_signal (set_queue d n (q\<lparr>buf := b, head := intq_next (head q)\<rparr>)) n True;
       Some (Done (), d)
     }
   }"

section \<open>The serial port\<close>

abbreviation IO_BASE :: u16 where "IO_BASE \<equiv> 0x3f8"
abbreviation RBR_REG :: u16 where "RBR_REG \<equiv> IO_BASE + 0"
abbreviation THR_REG :: u16 where "THR_REG \<equiv> IO_BASE + 0"
abbreviation IER_REG :: u16 where "IER_REG \<equiv> IO_BASE + 1"
abbreviation LS_REG :: u16 where "LS_REG \<equiv> IO_BASE + 0"
abbreviation MS_REG :: u16 where "MS_REG \<equiv> IO_BASE + 1"
abbreviation IIR_REG :: u16 where "IIR_REG \<equiv> IO_BASE + 2"
abbreviation FCR_REG :: u16 where "FCR_REG \<equiv> IO_BASE + 2"
abbreviation LCR_REG :: u16 where "LCR_REG \<equiv> IO_BASE + 3"
abbreviation MCR_REG :: u16 where "MCR_REG \<equiv> IO_BASE + 4"
abbreviation LSR_REG :: u16 where "LSR_REG \<equiv> IO_BASE + 5"
abbreviation IER_RECV :: u8 where "IER_RECV \<equiv> 0x01"
abbreviation IER_XMIT :: u8 where "IER_XMIT \<equiv> 0x02"
abbreviation LCR_N81 :: u8 where "LCR_N81 \<equiv> 0x03"
abbreviation LCR_DLAB :: u8 where "LCR_DLAB \<equiv> 0x80"
abbreviation MCR_OUT2 :: u8 where "MCR_OUT2 \<equiv> 0x08"
abbreviation LSR_DR :: u8 where "LSR_DR \<equiv> 0x01"
abbreviation LSR_THRE :: u8 where "LSR_THRE \<equiv> 0x20"

definition input_full :: "chario \<Rightarrow> bool option" where
  "input_full d = do { ASSERT (\<not> intr_on (kern d)); intq_full d Input }"

definition set_serial :: "chario \<Rightarrow> int \<Rightarrow> chario option" where
  "set_serial d bps = do {
     let base_rate = 1843200 div 16;
     let divisor = (word_of_int (base_rate div bps) :: u16);
     ASSERT (bps \<ge> 300 \<and> bps \<le> 115200);
     let d = outb d LCR_REG (LCR_N81 OR LCR_DLAB);
     let d = outb d LS_REG (ucast (divisor AND 0xff));
     let d = outb d MS_REG (ucast (drop_bit 8 divisor));
     Some (outb d LCR_REG LCR_N81)
   }"

definition write_ier :: "chario \<Rightarrow> chario option" where
  "write_ier d = do {
     ASSERT (\<not> intr_on (kern d));
     e \<leftarrow> intq_empty d Txq;
     let ier = (if \<not> e then IER_XMIT else 0);
     f \<leftarrow> input_full d;
     let ier = (if \<not> f then ier OR IER_RECV else ier);
     Some (outb d IER_REG ier)
   }"

partial_function (option) poll_thre :: "chario \<Rightarrow> chario option" where
  "poll_thre d = (let (v, d) = inb d LSR_REG in if v AND LSR_THRE = 0 then poll_thre d else Some d)"

definition putc_poll :: "chario \<Rightarrow> u8 \<Rightarrow> chario option" where
  "putc_poll d byte = do {
     ASSERT (\<not> intr_on (kern d));
     d \<leftarrow> poll_thre d;
     Some (outb d THR_REG byte)
   }"

definition init_poll :: "chario \<Rightarrow> chario option" where
  "init_poll d = do {
     ASSERT (mode d = UNINIT);
     let d = outb d IER_REG 0;
     let d = outb d FCR_REG 0;
     d \<leftarrow> set_serial d 9600;
     let d = outb d MCR_REG MCR_OUT2;
     d \<leftarrow> intq_init d Txq;
     Some (d\<lparr>mode := POLL\<rparr>)
   }"

text \<open>\<open>intr_register_ext\<close> panics unless the vector is in 0x20 to 0x2f and not yet taken.\<close>

definition register_ext :: "chario \<Rightarrow> u8 \<Rightarrow> string \<Rightarrow> chario option" where
  "register_ext d vec nm = do {
     ASSERT (vec \<ge> 0x20 \<and> vec \<le> 0x2f);
     ASSERT (handlers d vec = None);
     Some (d\<lparr>handlers := (handlers d)(vec \<mapsto> nm)\<rparr>)
   }"

definition set_level :: "chario \<Rightarrow> bool \<Rightarrow> chario option" where
  "set_level d l = do { k \<leftarrow> intr_set_level (kern d) l; Some (d\<lparr>kern := k\<rparr>) }"

definition disable :: "chario \<Rightarrow> chario" where
  "disable d = d\<lparr>kern := intr_disable (kern d)\<rparr>"

definition serial_init_queue :: "chario \<Rightarrow> chario option" where
  "serial_init_queue d = do {
     d \<leftarrow> (if mode d = UNINIT then init_poll d else Some d);
     ASSERT (mode d = POLL);
     d \<leftarrow> register_ext d (0x20 + 4) ''serial'';
     let d = d\<lparr>mode := QUEUE\<rparr>;
     let old_level = intr_on (kern d);
     d \<leftarrow> write_ier (disable d);
     set_level d old_level
   }"

definition serial_putc :: "chario \<Rightarrow> u8 \<Rightarrow> (unit outcome \<times> chario) option" where
  "serial_putc d byte = do {
     let old_level = intr_on (kern d);
     let d = disable d;
     if mode d \<noteq> QUEUE then do {
       d \<leftarrow> (if mode d = UNINIT then init_poll d else Some d);
       d \<leftarrow> putc_poll d byte;
       d \<leftarrow> set_level d old_level;
       Some (Done (), d)
     } else do {
       f \<leftarrow> (if \<not> old_level then intq_full d Txq else Some False);
       d \<leftarrow> (if f then do {
                (b, d) \<leftarrow> intq_getc d Txq;
                case b of Done c \<Rightarrow> putc_poll d c | Sleep \<Rightarrow> None
              } else Some d);
       (r, d) \<leftarrow> intq_putc d Txq byte;
       case r of
         Sleep \<Rightarrow> Some (Sleep, d)
       | Done _ \<Rightarrow> do {
           d \<leftarrow> write_ier d;
           d \<leftarrow> set_level d old_level;
           Some (Done (), d)
         }
     }
   }"

partial_function (option) flush_loop :: "chario \<Rightarrow> chario option" where
  "flush_loop d =
     Option.bind (intq_empty d Txq) (\<lambda>e.
       if e then Some d
       else Option.bind (intq_getc d Txq) (\<lambda>(b, d).
         case b of Sleep \<Rightarrow> None | Done c \<Rightarrow> Option.bind (putc_poll d c) flush_loop))"

definition serial_flush :: "chario \<Rightarrow> chario option" where
  "serial_flush d = do {
     let old_level = intr_on (kern d);
     d \<leftarrow> flush_loop (disable d);
     set_level d old_level
   }"

definition serial_notify :: "chario \<Rightarrow> chario option" where
  "serial_notify d = do {
     ASSERT (\<not> intr_on (kern d));
     if mode d = QUEUE then write_ier d else Some d
   }"

section \<open>The input buffer\<close>

definition input_init :: "chario \<Rightarrow> chario option" where
  "input_init d = intq_init d Input"

definition input_putc :: "chario \<Rightarrow> u8 \<Rightarrow> chario option" where
  "input_putc d key = do {
     ASSERT (\<not> intr_on (kern d));
     f \<leftarrow> intq_full d Input;
     ASSERT (\<not> f);
     (_, d) \<leftarrow> intq_putc d Input key;
     serial_notify d
   }"

definition input_getc :: "chario \<Rightarrow> (u8 outcome \<times> chario) option" where
  "input_getc d = do {
     let old_level = intr_on (kern d);
     (r, d) \<leftarrow> intq_getc (disable d) Input;
     case r of
       Sleep \<Rightarrow> Some (Sleep, d)
     | Done key \<Rightarrow> do {
         d \<leftarrow> serial_notify d;
         d \<leftarrow> set_level d old_level;
         Some (Done key, d)
       }
   }"

section \<open>The serial interrupt\<close>

partial_function (option) receive_loop :: "chario \<Rightarrow> chario option" where
  "receive_loop d =
     Option.bind (input_full d) (\<lambda>f.
       if f then Some d
       else let (v, d) = inb d LSR_REG
            in if v AND LSR_DR \<noteq> 0 then
                 let (c, d) = inb d RBR_REG in Option.bind (input_putc d c) receive_loop
               else Some d)"

partial_function (option) transmit_loop :: "chario \<Rightarrow> chario option" where
  "transmit_loop d =
     Option.bind (intq_empty d Txq) (\<lambda>e.
       if e then Some d
       else let (v, d) = inb d LSR_REG
            in if v AND LSR_THRE \<noteq> 0 then
                 Option.bind (intq_getc d Txq) (\<lambda>(b, d).
                   case b of Sleep \<Rightarrow> None | Done c \<Rightarrow> transmit_loop (outb d THR_REG c))
               else Some d)"

definition serial_interrupt :: "chario \<Rightarrow> chario option" where
  "serial_interrupt d = do {
     let (_, d) = inb d IIR_REG;
     d \<leftarrow> receive_loop d;
     d \<leftarrow> transmit_loop d;
     write_ier d
   }"

section \<open>The keyboard\<close>

type_synonym keymap = "u8 \<times> u8 list"

definition codes :: "string \<Rightarrow> u8 list" where
  "codes s = map of_char s"

definition invariant_keymap :: "keymap list" where
  "invariant_keymap = [(0x01, [0x1b]), (0x0e, [0x08]), (0x0f, 0x09 # codes ''QWERTYUIOP''), (0x1c, [0x0d]),
     (0x1e, codes ''ASDFGHJKL''), (0x2c, codes ''ZXCVBNM''), (0x37, codes ''*''), (0x39, codes '' ''), (0x53, [0x7f])]"

definition unshifted_keymap :: "keymap list" where
  "unshifted_keymap = [(0x02, codes ''1234567890-=''), (0x1a, codes ''[]''), (0x27, [0x3b, 0x27, 0x60]),
     (0x2b, [0x5c]), (0x33, codes '',./'')]"

definition shifted_keymap :: "keymap list" where
  "shifted_keymap = [(0x02, codes ''!@#$%^&*()_+''), (0x1a, codes ''{}''), (0x27, [0x3a, 0x22, 0x7e]),
     (0x2b, codes ''|''), (0x33, codes ''<>?'')]"

fun map_key :: "keymap list \<Rightarrow> u32 \<Rightarrow> u8 option" where
  "map_key [] scancode = None"
| "map_key ((first, chars) # ks) scancode =
     (if scancode \<ge> ucast first \<and> scancode < ucast first + of_nat (length chars)
      then Some (chars ! unat (scancode - ucast first))
      else map_key ks scancode)"

text \<open>The entry of the table of shift keys that has the scancode.\<close>

definition set_shift_key :: "chario \<Rightarrow> u32 \<Rightarrow> bool \<Rightarrow> chario" where
  "set_shift_key d code down =
     (if code = 0x2a then d\<lparr>left_shift := down\<rparr>
      else if code = 0x36 then d\<lparr>right_shift := down\<rparr>
      else if code = 0x38 then d\<lparr>left_alt := down\<rparr>
      else if code = 0xe038 then d\<lparr>right_alt := down\<rparr>
      else if code = 0x1d then d\<lparr>left_ctrl := down\<rparr>
      else if code = 0xe01d then d\<lparr>right_ctrl := down\<rparr>
      else d)"

definition kbd_init :: "chario \<Rightarrow> chario option" where
  "kbd_init d = register_ext d 0x21 ''8042 Keyboard''"

abbreviation DATA_REG :: u16 where "DATA_REG \<equiv> 0x60"

text \<open>The character of a key with the modifiers applied.\<close>

definition modify_key :: "bool \<Rightarrow> bool \<Rightarrow> bool \<Rightarrow> bool \<Rightarrow> u8 \<Rightarrow> u8" where
  "modify_key shift alt ctrl caps c =
     (let c = (if ctrl \<and> c \<ge> 0x40 \<and> c < 0x60 then c - 0x40
               else if shift = caps then word_of_int (tolower (uint c)) else c)
      in if alt then c + 0x80 else c)"

definition keyboard_interrupt :: "chario \<Rightarrow> chario option" where
  "keyboard_interrupt d = do {
     let shift = (left_shift d \<or> right_shift d);
     let alt = (left_alt d \<or> right_alt d);
     let ctrl = (left_ctrl d \<or> right_ctrl d);
     let (v, d) = inb d DATA_REG;
     let code = (ucast v :: u32);
     let (code, d) = (if code = 0xe0 then let (v, d) = inb d DATA_REG in (push_bit 8 code OR ucast v, d) else (code, d));
     let release = (code AND 0x80 \<noteq> 0);
     let code = code AND NOT 0x80;
     if code = 0x3a then Some (if \<not> release then d\<lparr>caps_lock := \<not> caps_lock d\<rparr> else d)
     else (case (case map_key invariant_keymap code of
                   Some c \<Rightarrow> Some c
                 | None \<Rightarrow> if \<not> shift then map_key unshifted_keymap code else map_key shifted_keymap code) of
             Some c \<Rightarrow>
               if \<not> release then
                 if c = 0x7f \<and> ctrl \<and> alt then Some (d\<lparr>rebooted := True\<rparr>)
                 else do {
                   f \<leftarrow> input_full d;
                   if \<not> f then input_putc (d\<lparr>key_cnt := key_cnt d + 1\<rparr>) (modify_key shift alt ctrl (caps_lock d) c)
                   else Some d
                 }
               else Some d
           | None \<Rightarrow> Some (set_shift_key d code (\<not> release)))
   }"

section \<open>Queues as lists\<close>

text \<open>The bytes in a queue, oldest first.\<close>

definition qlen :: "intq \<Rightarrow> nat" where
  "qlen q = (head q + INTQ_BUFSIZE - tail q) mod INTQ_BUFSIZE"

definition qlist :: "intq \<Rightarrow> u8 list" where
  "qlist q = map (\<lambda>i. buf q ! ((tail q + i) mod INTQ_BUFSIZE)) [0..<qlen q]"

definition intq_ok :: "intq \<Rightarrow> bool" where
  "intq_ok q \<longleftrightarrow> length (buf q) = INTQ_BUFSIZE \<and> head q < INTQ_BUFSIZE \<and> tail q < INTQ_BUFSIZE"

lemma length_qlist [simp]: "length (qlist q) = qlen q"
  by (simp add: qlist_def)

lemma qlen_less: "qlen q < INTQ_BUFSIZE"
  by (simp add: qlen_def)

lemma qlen_cases:
  assumes "intq_ok q"
  shows "qlen q = (if tail q \<le> head q then head q - tail q else head q + INTQ_BUFSIZE - tail q)"
  using assms by (auto simp: intq_ok_def qlen_def mod_if)

lemma empty_iff: "intq_ok q \<Longrightarrow> head q = tail q \<longleftrightarrow> qlist q = []"
  using qlen_cases [of q] by (auto simp: intq_ok_def simp flip: length_0_conv)

lemma full_iff: "intq_ok q \<Longrightarrow> intq_next (head q) = tail q \<longleftrightarrow> length (qlist q) = INTQ_BUFSIZE - 1"
  using qlen_cases [of q] by (auto simp: intq_ok_def intq_next_def mod_if split: if_splits)

lemma mod_ring: "x < 2 * INTQ_BUFSIZE \<Longrightarrow> x mod INTQ_BUFSIZE = (if x < INTQ_BUFSIZE then x else x - INTQ_BUFSIZE)"
  by (simp add: mod_if)

lemma ring_index:
  assumes "intq_ok q" "i \<le> qlen q"
  shows "(tail q + i) mod INTQ_BUFSIZE = head q \<longleftrightarrow> i = qlen q"
proof -
  have l: "head q < 64" "tail q < 64" using assms(1) by (simp_all add: intq_ok_def)
  have i: "tail q + i < 128" using l assms(2) qlen_less [of q] by linarith
  show ?thesis
  proof (cases "tail q \<le> head q")
    case True
    then show ?thesis using qlen_cases [OF assms(1)] assms(2) l mod_ring [of "tail q + i"] i by auto
  next
    case False
    then show ?thesis using qlen_cases [OF assms(1)] assms(2) l mod_ring [of "tail q + i"] i by auto
  qed
qed

lemma qlist_put:
  assumes ok: "intq_ok q" and nf: "intq_next (head q) \<noteq> tail q"
  shows "qlist (q\<lparr>buf := (buf q)[head q := c], head := intq_next (head q)\<rparr>) = qlist q @ [c]"
    "intq_ok (q\<lparr>buf := (buf q)[head q := c], head := intq_next (head q)\<rparr>)"
proof -
  let ?q = "q\<lparr>buf := (buf q)[head q := c], head := intq_next (head q)\<rparr>"
  show ok': "intq_ok ?q" using ok by (simp add: intq_ok_def intq_next_def)
  have l: "qlen ?q = Suc (qlen q)"
    using qlen_cases [OF ok] qlen_cases [OF ok'] nf ok by (auto simp: intq_ok_def intq_next_def mod_if split: if_splits)
  have h: "(tail q + qlen q) mod INTQ_BUFSIZE = head q" using ring_index [OF ok] by simp
  have o: "head q \<noteq> (tail q + i) mod INTQ_BUFSIZE" if "i < qlen q" for i using ring_index [OF ok, of i] that by auto
  show "qlist ?q = qlist q @ [c]"
  proof -
    have "map (\<lambda>i. (buf q)[head q := c] ! ((tail q + i) mod INTQ_BUFSIZE)) [0..<qlen q] = qlist q"
      unfolding qlist_def by (rule map_cong [OF refl]) (simp add: nth_list_update_neq o)
    then show ?thesis using h ok by (simp add: qlist_def [of ?q] l intq_ok_def)
  qed
qed

lemma qlist_get:
  assumes ok: "intq_ok q" and ne: "head q \<noteq> tail q"
  shows "qlist q = buf q ! tail q # qlist (q\<lparr>tail := intq_next (tail q)\<rparr>)" "intq_ok (q\<lparr>tail := intq_next (tail q)\<rparr>)"
proof -
  let ?q = "q\<lparr>tail := intq_next (tail q)\<rparr>"
  show ok': "intq_ok ?q" using ok by (simp add: intq_ok_def intq_next_def)
  have l: "qlen q = Suc (qlen ?q)"
    using qlen_cases [OF ok] qlen_cases [OF ok'] ne ok by (auto simp: intq_ok_def intq_next_def mod_if split: if_splits)
  have "(tail q + Suc i) mod INTQ_BUFSIZE = (intq_next (tail q) + i) mod INTQ_BUFSIZE" for i
    by (simp add: intq_next_def mod_add_left_eq)
  then show "qlist q = buf q ! tail q # qlist ?q"
    using ok unfolding qlist_def l upt_conv_Cons [OF zero_less_Suc] map_Suc_upt [symmetric] by (simp add: intq_ok_def comp_def)
qed

section \<open>The invariant\<close>

declare length_qlist [simp del]

definition waiters :: "chario \<Rightarrow> nat list" where
  "waiters d = filter (\<lambda>w. w \<noteq> NULL) [not_full (buffer d), not_empty (buffer d), not_full (txq d), not_empty (txq d)]"

text \<open>Interrupts are off, the queues are well-formed, and the waiters are different blocked threads.\<close>

definition chario_ok :: "chario \<Rightarrow> bool" where
  "chario_ok d \<longleftrightarrow> sched_ok (kern d) \<and> \<not> intr_on (kern d) \<and> intq_ok (buffer d) \<and> intq_ok (txq d) \<and> distinct (waiters d) \<and>
     (\<forall>w\<in>set (waiters d). stat (kern d) w = Some THREAD_BLOCKED \<and> w \<noteq> idle_thread (kern d))"

text \<open>What an operation on one queue leaves alone.\<close>

definition only_queue :: "queue_name \<Rightarrow> chario \<Rightarrow> chario \<Rightarrow> bool" where
  "only_queue n d d' \<longleftrightarrow> outs d' = outs d \<and> ins d' = ins d \<and> hw d' = hw d \<and> mode d' = mode d \<and>
     (\<forall>m. m \<noteq> n \<longrightarrow> queue d' m = queue d m) \<and> (\<forall>m. qlock (queue d' m) = qlock (queue d m)) \<and> intr_on (kern d') = intr_on (kern d)"

lemma queue_simps [simp]:
  "queue (set_queue d n q) m = (if m = n then q else queue d m)" "kern (set_queue d n q) = kern d"
  "outs (set_queue d n q) = outs d" "ins (set_queue d n q) = ins d" "hw (set_queue d n q) = hw d" "mode (set_queue d n q) = mode d"
  by (auto simp: queue_def set_queue_def split: queue_name.splits)

lemma queue_kern [simp]: "queue (d\<lparr>kern := k\<rparr>) n = queue d n"
  by (simp add: queue_def split: queue_name.splits)

lemma chario_ok_queue: "chario_ok d \<Longrightarrow> intq_ok (queue d n)"
  by (simp add: chario_ok_def queue_def split: queue_name.splits)

text \<open>Changing the bytes of a queue, its waiters aside.\<close>

lemma chario_ok_set:
  assumes "chario_ok d" "intq_ok q" "not_full q = not_full (queue d n)" "not_empty q = not_empty (queue d n)"
  shows "chario_ok (set_queue d n q)"
  using assms by (cases n) (simp_all add: chario_ok_def set_queue_def queue_def waiters_def)

lemma waiter_in: "w \<noteq> NULL \<Longrightarrow> w = not_empty (queue d n) \<or> w = not_full (queue d n) \<Longrightarrow> w \<in> set (waiters d)"
  by (cases n) (auto simp: waiters_def queue_def)

lemma waiters_reset:
  assumes "distinct (waiters d)" "w \<noteq> NULL" "w = (if e then not_empty (queue d n) else not_full (queue d n))"
    "d' = set_queue (d\<lparr>kern := k\<rparr>) n (if e then (queue d n)\<lparr>not_empty := NULL\<rparr> else (queue d n)\<lparr>not_full := NULL\<rparr>)"
  shows "set (waiters d') = set (waiters d) - {w}" "distinct (waiters d')"
  using assms by (cases n; cases e; auto simp: waiters_def queue_def set_queue_def split: if_splits)+

lemma intq_signal_run:
  assumes ok: "chario_ok d" and c: "if e then head (queue d n) \<noteq> tail (queue d n) else intq_next (head (queue d n)) \<noteq> tail (queue d n)"
  shows "\<exists>d'. intq_signal d n e = Some d' \<and> chario_ok d' \<and> only_queue n d d' \<and> qlist (queue d' n) = qlist (queue d n)"
proof -
  have i: "\<not> intr_on (kern d)" using ok by (simp add: chario_ok_def)
  define w where "w = (if e then not_empty (queue d n) else not_full (queue d n))"
  show ?thesis
  proof (cases "w = NULL")
    case True
    then show ?thesis using i c ok by (auto simp: intq_signal_def intq_empty_def intq_full_def w_def only_queue_def split: if_splits)
  next
    case False
    have "w \<in> set (waiters d)" using waiter_in [OF False, of d n] by (auto simp: w_def)
    then have b: "stat (kern d) w = Some THREAD_BLOCKED" "w \<noteq> idle_thread (kern d)" "sched_ok (kern d)"
      using ok by (auto simp: chario_ok_def)
    note u = thread_unblock_run [OF b(3,1,2)]
    define d' where "d' = set_queue (d\<lparr>kern := unblocked (kern d) w\<rparr>) n
      (if e then (queue d n)\<lparr>not_empty := NULL\<rparr> else (queue d n)\<lparr>not_full := NULL\<rparr>)"
    have "intq_signal d n e = Some d'"
      using i c u(1) False by (auto simp: intq_signal_def intq_empty_def intq_full_def w_def d'_def Let_def split: if_splits)
    moreover have "qlist (queue d' n) = qlist (queue d n)" "only_queue n d d'"
      using i by (auto simp: d'_def only_queue_def qlist_def qlen_def unblocked_def)
    moreover have "chario_ok d'"
    proof -
      have k: "kern d' = unblocked (kern d) w" by (simp add: d'_def)
      have q: "intq_ok (queue d' m)" for m
        using chario_ok_queue [OF ok, of m] chario_ok_queue [OF ok, of n] by (auto simp: d'_def intq_ok_def)
      have "stat (kern d') v = Some THREAD_BLOCKED \<and> v \<noteq> idle_thread (kern d')" if "v \<in> set (waiters d')" for v
        using that waiters_reset(1) [OF _ False w_def d'_def] ok by (auto simp: chario_ok_def k unblocked_def stat_def)
      moreover have "distinct (waiters d')" using waiters_reset(2) [OF _ False w_def d'_def] ok by (simp add: chario_ok_def)
      moreover have "sched_ok (kern d')" "\<not> intr_on (kern d')" using u(2) i by (simp_all add: k unblocked_def)
      ultimately show ?thesis using q [of Input] q [of Txq] by (simp add: chario_ok_def queue_def)
    qed
    ultimately show ?thesis by blast
  qed
qed

section \<open>The contract of a queue\<close>

text \<open>
  What the users of a queue rely on: it holds a list of bytes of bounded length; while it is not
  full bytes are added at its end, and while it is not empty they are taken from its front.
\<close>

locale byte_queue =
  fixes get :: "'s \<Rightarrow> (u8 outcome \<times> 's) option"
    and put :: "'s \<Rightarrow> u8 \<Rightarrow> (unit outcome \<times> 's) option"
    and bytes :: "'s \<Rightarrow> u8 list"
    and ok :: "'s \<Rightarrow> bool"
    and frame :: "'s \<Rightarrow> 's \<Rightarrow> bool"
    and cap :: nat
  assumes get_ok: "ok s \<Longrightarrow> bytes s = c # cs \<Longrightarrow> \<exists>s'. get s = Some (Done c, s') \<and> ok s' \<and> bytes s' = cs \<and> frame s s'"
    and put_ok: "ok s \<Longrightarrow> length (bytes s) < cap \<Longrightarrow>
      \<exists>s'. put s c = Some (Done (), s') \<and> ok s' \<and> bytes s' = bytes s @ [c] \<and> frame s s'"
    and bounded: "ok s \<Longrightarrow> length (bytes s) \<le> cap"

text \<open>Putting a list of bytes, and getting a number of them.\<close>

fun put_all :: "('s \<Rightarrow> u8 \<Rightarrow> (unit outcome \<times> 's) option) \<Rightarrow> 's \<Rightarrow> u8 list \<Rightarrow> 's option" where
  "put_all put s [] = Some s"
| "put_all put s (c # cs) = do {
     (r, s) \<leftarrow> put s c;
     case r of Sleep \<Rightarrow> None | Done _ \<Rightarrow> put_all put s cs
   }"

fun get_many :: "('s \<Rightarrow> (u8 outcome \<times> 's) option) \<Rightarrow> 's \<Rightarrow> nat \<Rightarrow> (u8 list \<times> 's) option" where
  "get_many get s 0 = Some ([], s)"
| "get_many get s (Suc n) = do {
     (r, s) \<leftarrow> get s;
     case r of Sleep \<Rightarrow> None | Done c \<Rightarrow> do { (cs, s) \<leftarrow> get_many get s n; Some (c # cs, s) }
   }"

context byte_queue
begin

lemma put_all_run:
  "ok s \<Longrightarrow> length (bytes s) + length cs \<le> cap \<Longrightarrow>
   \<exists>s'. put_all put s cs = Some s' \<and> ok s' \<and> bytes s' = bytes s @ cs"
proof (induction cs arbitrary: s)
  case (Cons c cs)
  then obtain s1 where s1: "put s c = Some (Done (), s1)" "ok s1" "bytes s1 = bytes s @ [c]"
    using put_ok [of s c] by auto
  then show ?case using Cons.IH [of s1] Cons.prems(2) by simp
qed simp

lemma get_many_run:
  "ok s \<Longrightarrow> n \<le> length (bytes s) \<Longrightarrow>
   \<exists>s'. get_many get s n = Some (take n (bytes s), s') \<and> ok s' \<and> bytes s' = drop n (bytes s)"
proof (induction n arbitrary: s)
  case (Suc n)
  then obtain c cs where c: "bytes s = c # cs" by (cases "bytes s") auto
  then obtain s1 where "get s = Some (Done c, s1)" "ok s1" "bytes s1 = cs" using get_ok [OF Suc.prems(1) c] by blast
  then show ?case using Suc.IH [of s1] Suc.prems(2) c by auto
qed simp

text \<open>First in, first out.\<close>

lemma fifo:
  assumes "ok s" "length (bytes s) + length cs \<le> cap"
  shows "\<exists>s1 s2. put_all put s cs = Some s1 \<and>
     get_many get s1 (length (bytes s) + length cs) = Some (bytes s @ cs, s2) \<and> bytes s2 = []"
  using put_all_run [OF assms] get_many_run [of _ "length (bytes s) + length cs"] by fastforce

end

lemma intq_getc_run:
  assumes ok: "chario_ok d" and q: "qlist (queue d n) = c # cs"
  shows "\<exists>d'. intq_getc d n = Some (Done c, d') \<and> chario_ok d' \<and> qlist (queue d' n) = cs \<and> only_queue n d d'"
proof -
  let ?q = "queue d n"
  have iq: "intq_ok ?q" and i: "\<not> intr_on (kern d)" using chario_ok_queue [OF ok] ok by (simp_all add: chario_ok_def)
  have ne: "head ?q \<noteq> tail ?q" using empty_iff [OF iq] q by simp
  note g = qlist_get [OF iq ne]
  let ?d = "set_queue d n (?q\<lparr>tail := intq_next (tail ?q)\<rparr>)"
  have "length (qlist (queue ?d n)) \<noteq> INTQ_BUFSIZE - 1"
    using g(1) q qlen_less [of ?q] length_qlist [of ?q] by simp
  then have nf: "intq_next (head (queue ?d n)) \<noteq> tail (queue ?d n)" using full_iff [OF g(2)] by simp
  have "chario_ok ?d" using chario_ok_set [OF ok g(2)] by simp
  then obtain d' where d': "intq_signal ?d n False = Some d'" "chario_ok d'" "only_queue n ?d d'" "qlist (queue d' n) = qlist (queue ?d n)"
    using intq_signal_run [of ?d False n] nf by auto
  have "intq_getc d n = Some (Done c, d')"
    using i ne d'(1) g(1) q iq by (simp add: intq_getc_def intq_empty_def rd_def intq_ok_def Let_def)
  moreover have "only_queue n d d'" using d'(3) by (simp add: only_queue_def)
  ultimately show ?thesis using d'(2,4) g(1) q by simp
qed

lemma intq_putc_run:
  assumes ok: "chario_ok d" and q: "length (qlist (queue d n)) < INTQ_BUFSIZE - 1"
  shows "\<exists>d'. intq_putc d n c = Some (Done (), d') \<and> chario_ok d' \<and> qlist (queue d' n) = qlist (queue d n) @ [c] \<and> only_queue n d d'"
proof -
  let ?q = "queue d n"
  have iq: "intq_ok ?q" and i: "\<not> intr_on (kern d)" using chario_ok_queue [OF ok] ok by (simp_all add: chario_ok_def)
  have nf: "intq_next (head ?q) \<noteq> tail ?q" using full_iff [OF iq] q by simp
  note p = qlist_put [OF iq nf, of c]
  let ?r = "?q\<lparr>buf := (buf ?q)[head ?q := c], head := intq_next (head ?q)\<rparr>"
  let ?d = "set_queue d n ?r"
  have ne: "head (queue ?d n) \<noteq> tail (queue ?d n)" using empty_iff [OF p(2)] p(1) by simp
  have "chario_ok ?d" using chario_ok_set [OF ok p(2)] by simp
  then obtain d' where d': "intq_signal ?d n True = Some d'" "chario_ok d'" "only_queue n ?d d'" "qlist (queue d' n) = qlist (queue ?d n)"
    using intq_signal_run [of ?d True n] ne by auto
  have "intq_putc d n c = Some (Done (), d')"
    using i nf d'(1) iq by (simp add: intq_putc_def intq_full_def wr_def intq_ok_def Let_def)
  moreover have "only_queue n d d'" using d'(3) by (simp add: only_queue_def)
  ultimately show ?thesis using d'(2,4) p(1) by simp
qed

interpretation iq: byte_queue "\<lambda>d. intq_getc d n" "\<lambda>d. intq_putc d n" "\<lambda>d. qlist (queue d n)" chario_ok "only_queue n" 63 for n
proof
  show "length (qlist (queue s n)) \<le> 63" if "chario_ok s" for s using qlen_less [of "queue s n"] by (simp add: length_qlist)
qed (use intq_getc_run intq_putc_run in auto)

section \<open>What the serial port transmits\<close>

text \<open>
  The UART transmits the bytes written to the data port while the divisor latch bit of the line
  control register is clear; with the bit set the port is the low half of the divisor.
\<close>

fun dlab_after :: "bool \<Rightarrow> (u16 \<times> u8) list \<Rightarrow> bool" where
  "dlab_after b [] = b"
| "dlab_after b ((p, v) # os) = dlab_after (if p = LCR_REG then v AND LCR_DLAB \<noteq> 0 else b) os"

fun sent_from :: "bool \<Rightarrow> (u16 \<times> u8) list \<Rightarrow> u8 list" where
  "sent_from b [] = []"
| "sent_from b ((p, v) # os) =
     (if p = LCR_REG then sent_from (v AND LCR_DLAB \<noteq> 0) os
      else if p = THR_REG \<and> \<not> b then v # sent_from b os
      else sent_from b os)"

definition sent :: "chario \<Rightarrow> u8 list" where
  "sent d = sent_from False (outs d)"

definition dlab :: "chario \<Rightarrow> bool" where
  "dlab d = dlab_after False (outs d)"

lemma dlab_after_append [simp]: "dlab_after b (xs @ ys) = dlab_after (dlab_after b xs) ys"
  by (induction b xs rule: dlab_after.induct) auto

lemma sent_from_append [simp]: "sent_from b (xs @ ys) = sent_from b xs @ sent_from (dlab_after b xs) ys"
  by (induction b xs rule: sent_from.induct) auto

lemma outb_simps [simp]:
  "kern (outb d p v) = kern d" "queue (outb d p v) n = queue d n" "mode (outb d p v) = mode d" "hw (outb d p v) = hw d" "ins (outb d p v) = ins d"
  "waiters (outb d p v) = waiters d" "buffer (outb d p v) = buffer d" "txq (outb d p v) = txq d" "chario_ok (outb d p v) = chario_ok d"
  by (simp_all add: outb_def queue_def waiters_def chario_ok_def split: queue_name.splits)

lemma sent_outb:
  "\<not> dlab d \<Longrightarrow> sent (outb d THR_REG v) = sent d @ [v]" "\<not> dlab d \<Longrightarrow> \<not> dlab (outb d THR_REG v)"
  "p \<noteq> THR_REG \<Longrightarrow> p \<noteq> LCR_REG \<Longrightarrow> sent (outb d p v) = sent d \<and> dlab (outb d p v) = dlab d"
  by (simp_all add: sent_def dlab_def outb_def)

text \<open>The state that the operations on the serial port keep.\<close>

definition serial_ok :: "chario \<Rightarrow> bool" where
  "serial_ok d \<longleftrightarrow> chario_ok d \<and> \<not> dlab d \<and> (mode d \<noteq> QUEUE \<longrightarrow> qlist (txq d) = []) \<and> qlock (txq d) \<noteq> NULL \<and>
     (\<forall>n. \<exists>m\<ge>n. hw d m LSR_REG AND LSR_THRE \<noteq> 0)"

text \<open>The bytes handed to the serial port so far.\<close>

definition stream :: "chario \<Rightarrow> u8 list" where
  "stream d = sent d @ qlist (txq d)"

lemma queue_names: "queue d Txq = txq d" "queue d Input = buffer d"
  by (simp_all add: queue_def)

lemma write_ier_run:
  assumes "chario_ok d"
  shows "\<exists>v. write_ier d = Some (outb d IER_REG v)"
  using assms by (auto simp: write_ier_def intq_empty_def input_full_def intq_full_def chario_ok_def)

lemma poll_thre_run:
  assumes "\<exists>m\<ge>ins d. hw d m LSR_REG AND LSR_THRE \<noteq> 0"
  shows "\<exists>n. poll_thre d = Some (d\<lparr>ins := n\<rparr>)"
proof -
  obtain m where m: "ins d \<le> m" "hw d m LSR_REG AND LSR_THRE \<noteq> 0" using assms by blast
  then show ?thesis
  proof (induction "m - ins d" arbitrary: d)
    case 0
    then have "hw d (ins d) LSR_REG AND LSR_THRE \<noteq> 0" by simp
    then show ?case by (subst poll_thre.simps) (auto simp: inb_def)
  next
    case (Suc x)
    show ?case
    proof (cases "hw d (ins d) LSR_REG AND LSR_THRE = 0")
      case True
      let ?d = "d\<lparr>ins := ins d + 1\<rparr>"
      have "poll_thre d = poll_thre ?d" using True by (subst poll_thre.simps) (simp add: inb_def)
      moreover have "\<exists>n. poll_thre ?d = Some (?d\<lparr>ins := n\<rparr>)" using Suc(1) [of ?d] Suc(2-4) by simp
      ultimately show ?thesis by simp
    next
      case False
      then show ?thesis by (subst poll_thre.simps) (auto simp: inb_def)
    qed
  qed
qed

lemma ins_simps [simp]:
  "kern (d\<lparr>ins := n\<rparr>) = kern d" "queue (d\<lparr>ins := n\<rparr>) m = queue d m" "waiters (d\<lparr>ins := n\<rparr>) = waiters d"
  "chario_ok (d\<lparr>ins := n\<rparr>) = chario_ok d" "sent (d\<lparr>ins := n\<rparr>) = sent d" "dlab (d\<lparr>ins := n\<rparr>) = dlab d"
  "serial_ok (d\<lparr>ins := n\<rparr>) = serial_ok d" "stream (d\<lparr>ins := n\<rparr>) = stream d"
  by (simp_all add: queue_def waiters_def chario_ok_def sent_def dlab_def serial_ok_def stream_def split: queue_name.splits)

lemma putc_poll_run:
  assumes "serial_ok d"
  shows "\<exists>d'. putc_poll d c = Some d' \<and> serial_ok d' \<and> sent d' = sent d @ [c] \<and> txq d' = txq d \<and> kern d' = kern d \<and> mode d' = mode d"
proof -
  obtain n where n: "poll_thre d = Some (d\<lparr>ins := n\<rparr>)" using poll_thre_run [of d] assms by (auto simp: serial_ok_def)
  have "\<not> intr_on (kern d)" "\<not> dlab d" using assms by (simp_all add: serial_ok_def chario_ok_def)
  then have "putc_poll d c = Some (outb (d\<lparr>ins := n\<rparr>) THR_REG c)" using n by (simp add: putc_poll_def)
  moreover have "serial_ok (outb (d\<lparr>ins := n\<rparr>) THR_REG c)" using assms sent_outb(2) [of d c] sent_outb(2) [of "d\<lparr>ins := n\<rparr>" c] by (simp add: serial_ok_def)
  ultimately show ?thesis using sent_outb(1) [of "d\<lparr>ins := n\<rparr>" c] assms by (simp add: serial_ok_def)
qed

lemma only_queue_serial:
  assumes "only_queue n d d'" "chario_ok d'" "serial_ok d" "mode d = QUEUE"
  shows "serial_ok d'" "sent d' = sent d" "mode d' = mode d"
  using assms by (simp_all add: only_queue_def serial_ok_def sent_def dlab_def) (metis queue_names)

lemma serial_ok_ier: "serial_ok (outb d IER_REG v) = serial_ok d" "stream (outb d IER_REG v) = stream d" "sent (outb d IER_REG v) = sent d"
  using sent_outb(3) [of IER_REG d v] by (simp_all add: serial_ok_def stream_def)

lemma txq_get:
  assumes d: "serial_ok d" "mode d = QUEUE" "qlist (txq d) = c # cs"
  shows "\<exists>d'. intq_getc d Txq = Some (Done c, d') \<and> serial_ok d' \<and> qlist (txq d') = cs \<and> sent d' = sent d \<and> mode d' = mode d"
proof -
  have "chario_ok d" using d(1) by (simp add: serial_ok_def)
  then obtain d' where "intq_getc d Txq = Some (Done c, d')" "chario_ok d'" "qlist (queue d' Txq) = cs" "only_queue Txq d d'"
    using iq.get_ok [of d Txq c cs] d(3) by (auto simp: queue_names)
  then show ?thesis using only_queue_serial [of Txq d d'] d by (auto simp: queue_names)
qed

lemma serial_intr_off: "serial_ok d \<Longrightarrow> \<not> intr_on (kern d)"
  by (simp add: serial_ok_def chario_ok_def)

lemma txq_empty: "serial_ok d \<Longrightarrow> intq_empty d Txq = Some (qlist (txq d) = [])"
  using empty_iff [of "txq d"] serial_intr_off [of d] by (auto simp: intq_empty_def queue_names serial_ok_def chario_ok_def)

lemma flush_loop_run:
  "serial_ok d \<Longrightarrow> \<exists>d'. flush_loop d = Some d' \<and> serial_ok d' \<and> stream d' = stream d \<and> qlist (txq d') = []"
proof (induction "length (qlist (txq d))" arbitrary: d)
  case 0
  then have q: "qlist (txq d) = []" by simp
  then have "flush_loop d = Some d" using txq_empty [OF 0(2)] by (subst flush_loop.simps) simp
  then show ?case using 0(2) q by blast
next
  case (Suc n)
  then obtain c cs where c: "qlist (txq d) = c # cs" by (cases "qlist (txq d)") auto
  have m: "mode d = QUEUE" using Suc(3) c by (auto simp: serial_ok_def)
  obtain d1 where d1: "intq_getc d Txq = Some (Done c, d1)" "serial_ok d1" "qlist (txq d1) = cs" "sent d1 = sent d"
    using txq_get [OF Suc(3) m c] by blast
  obtain d2 where d2: "putc_poll d1 c = Some d2" "serial_ok d2" "sent d2 = sent d1 @ [c]" "txq d2 = txq d1"
    using putc_poll_run [OF d1(2)] by blast
  have "flush_loop d = flush_loop d2" using txq_empty [OF Suc(3)] c d1(1) d2(1) by (subst flush_loop.simps) simp
  moreover have "n = length (qlist (txq d2))" using Suc(2) c d1(3) d2(4) by simp
  moreover have "stream d2 = stream d" using c d1 d2 by (simp add: stream_def)
  ultimately show ?case using Suc(1) [OF _ d2(2)] by auto
qed

lemma transmit_loop_run:
  "serial_ok d \<Longrightarrow> \<exists>d'. transmit_loop d = Some d' \<and> serial_ok d' \<and> stream d' = stream d"
proof (induction "length (qlist (txq d))" arbitrary: d)
  case 0
  then have "transmit_loop d = Some d" using txq_empty [OF 0(2)] by (subst transmit_loop.simps) simp
  then show ?case using 0(2) by blast
next
  case (Suc n)
  then obtain c cs where c: "qlist (txq d) = c # cs" by (cases "qlist (txq d)") auto
  let ?d = "d\<lparr>ins := ins d + 1\<rparr>"
  have m: "serial_ok ?d" "mode ?d = QUEUE" using Suc(3) c by (auto simp: serial_ok_def)
  show ?case
  proof (cases "hw d (ins d) LSR_REG AND LSR_THRE = 0")
    case True
    then have "transmit_loop d = Some ?d" using txq_empty [OF Suc(3)] c by (subst transmit_loop.simps) (simp add: inb_def)
    then show ?thesis using Suc(3) by simp
  next
    case False
    obtain d1 where d1: "intq_getc ?d Txq = Some (Done c, d1)" "serial_ok d1" "qlist (txq d1) = cs" "sent d1 = sent d"
      using txq_get [OF m] c by auto
    let ?d2 = "outb d1 THR_REG c"
    have d2: "serial_ok ?d2" "sent ?d2 = sent d @ [c]" using d1(2,4) sent_outb(1,2) [of d1 c] by (simp_all add: serial_ok_def)
    have "transmit_loop d = transmit_loop ?d2"
      using txq_empty [OF Suc(3)] c d1(1) False by (subst transmit_loop.simps) (simp add: inb_def)
    moreover have "stream ?d2 = stream d" using c d1 d2 by (simp add: stream_def)
    ultimately show ?thesis using Suc(1) [OF _ d2(1)] Suc(2) c d1(3) by simp
  qed
qed

lemma input_full_run: "chario_ok d \<Longrightarrow> input_full d = Some (length (qlist (buffer d)) = INTQ_BUFSIZE - 1)"
  using full_iff [of "buffer d"] by (auto simp: input_full_def intq_full_def queue_names chario_ok_def)

lemma serial_notify_run:
  assumes "serial_ok d"
  shows "\<exists>d'. serial_notify d = Some d' \<and> serial_ok d' \<and> stream d' = stream d \<and> buffer d' = buffer d \<and> mode d' = mode d"
proof (cases "mode d = QUEUE")
  case True
  obtain v where "write_ier d = Some (outb d IER_REG v)" using write_ier_run [of d] assms by (auto simp: serial_ok_def)
  then show ?thesis using True assms serial_intr_off [OF assms] serial_ok_ier [of d v] by (simp add: serial_notify_def)
next
  case False
  then show ?thesis using assms serial_intr_off [OF assms] by (simp add: serial_notify_def)
qed

lemma input_putc_run:
  assumes d: "serial_ok d" "length (qlist (buffer d)) < INTQ_BUFSIZE - 1"
  shows "\<exists>d'. input_putc d c = Some d' \<and> serial_ok d' \<and> stream d' = stream d \<and> qlist (buffer d') = qlist (buffer d) @ [c] \<and> mode d' = mode d"
proof -
  have ok: "chario_ok d" and i: "\<not> intr_on (kern d)" using d(1) serial_intr_off by (simp_all add: serial_ok_def)
  obtain d1 where d1: "intq_putc d Input c = Some (Done (), d1)" "chario_ok d1" "qlist (queue d1 Input) = qlist (queue d Input) @ [c]"
      "only_queue Input d d1"
    using iq.put_ok [OF ok, of Input c] d(2) by (auto simp: queue_names)
  have s1: "sent d1 = sent d" "txq d1 = txq d" "mode d1 = mode d" "\<not> intr_on (kern d1)"
    using d1(4) i by (auto simp: only_queue_def sent_def queue_names)
  have ok1: "serial_ok d1" using d(1) d1(2,4) s1 by (simp add: serial_ok_def only_queue_def dlab_def)
  obtain d2 where d2: "serial_notify d1 = Some d2" "serial_ok d2" "stream d2 = stream d1" "buffer d2 = buffer d1" "mode d2 = mode d1"
    using serial_notify_run [OF ok1] by blast
  have "input_putc d c = Some d2"
    using i input_full_run [OF ok] d(2) d1(1) d2(1) by (simp add: input_putc_def input_full_def)
  moreover have "stream d1 = stream d" using s1 by (simp add: stream_def)
  ultimately show ?thesis using d2(2-5) s1(3) d1(3) by (simp add: queue_names)
qed

lemma receive_loop_run:
  "serial_ok d \<Longrightarrow> \<exists>d'. receive_loop d = Some d' \<and> serial_ok d' \<and> stream d' = stream d \<and> (\<exists>cs. qlist (buffer d') = qlist (buffer d) @ cs)"
proof (induction "INTQ_BUFSIZE - 1 - length (qlist (buffer d))" arbitrary: d)
  case 0
  have "length (qlist (buffer d)) = INTQ_BUFSIZE - 1" using 0(1) qlen_less [of "buffer d"] by (simp add: length_qlist)
  then have "receive_loop d = Some d" using input_full_run [of d] 0(2) by (subst receive_loop.simps) (simp add: serial_ok_def)
  then show ?case using 0(2) by auto
next
  case (Suc n)
  then have nf: "length (qlist (buffer d)) < INTQ_BUFSIZE - 1" by simp
  then have f: "input_full d = Some False" using input_full_run [of d] Suc(3) by (simp add: serial_ok_def)
  show ?case
  proof (cases "hw d (ins d) LSR_REG AND LSR_DR = 0")
    case True
    then have "receive_loop d = Some (d\<lparr>ins := ins d + 1\<rparr>)" using f by (subst receive_loop.simps) (simp add: inb_def)
    then show ?thesis using Suc(3) by auto
  next
    case False
    let ?d = "d\<lparr>ins := ins d + 2\<rparr>" and ?c = "hw d (ins d + 1) RBR_REG"
    have d: "serial_ok ?d" "length (qlist (buffer ?d)) < INTQ_BUFSIZE - 1" using Suc(3) nf by simp_all
    obtain d1 where d1: "input_putc ?d ?c = Some d1" "serial_ok d1" "stream d1 = stream d" "qlist (buffer d1) = qlist (buffer d) @ [?c]"
      using input_putc_run [OF d, of ?c] by auto
    have "receive_loop d = receive_loop d1" using f False d1(1) by (subst receive_loop.simps) (simp add: inb_def)
    moreover have "n = INTQ_BUFSIZE - 1 - length (qlist (buffer d1))" using Suc(2) d1(4) by simp
    ultimately obtain d' cs where "receive_loop d = Some d'" "serial_ok d'" "stream d' = stream d" "qlist (buffer d') = qlist (buffer d1) @ cs"
      using Suc(1) [OF _ d1(2)] d1(3) by auto
    then show ?thesis using d1(4) by auto
  qed
qed

lemma level_off: "\<not> intr_on (kern d) \<Longrightarrow> disable d = d" "\<not> intr_on (kern d) \<Longrightarrow> set_level d False = Some d"
  by (simp_all add: disable_def set_level_def intr_set_level_def intr_disable_def)

lemma init_poll_run:
  assumes d: "serial_ok d" "mode d = UNINIT"
  shows "\<exists>d'. init_poll d = Some d' \<and> serial_ok d' \<and> stream d' = stream d \<and> mode d' = POLL"
proof -
  define trace where "trace = [(IER_REG, 0), (FCR_REG, 0), (LCR_REG, LCR_N81 OR LCR_DLAB), (LS_REG, 12 :: u8), (MS_REG, 0), (LCR_REG, LCR_N81), (MCR_REG, MCR_OUT2)]"
  have t: "sent_from False trace = []" "\<not> dlab_after False trace" by (simp_all add: trace_def)
  let ?d = "d\<lparr>outs := outs d @ trace\<rparr>" and ?q = "(txq d)\<lparr>not_full := NULL, not_empty := NULL, head := 0, tail := 0\<rparr>"
  obtain k where k: "lock_init (kern d) (qlock (txq d)) = Some k" "threads k = threads (kern d)" "ready_list k = ready_list (kern d)"
      "all_list k = all_list (kern d)" "idle_thread k = idle_thread (kern d)" "initial_thread k = initial_thread (kern d)" "cur k = cur (kern d)"
      "intr_on k = intr_on (kern d)"
    using d(1) by (simp add: serial_ok_def lock_init_def sema_init_def lock_sema_def)
  let ?e = "d\<lparr>outs := outs d @ trace, kern := k, txq := ?q, mode := POLL\<rparr>"
  have "init_poll d = Some ?e"
    using d(2) k(1) by (simp add: init_poll_def set_serial_def outb_def intq_init_def queue_def set_queue_def trace_def Let_def)
  moreover have "sched_ok k \<longleftrightarrow> sched_ok (kern d)" "stat k = stat (kern d)"
    using k(2-7) by (simp_all add: sched_ok_def queues_ok_def stat_def fun_eq_iff)
  then have "chario_ok ?e"
    using d(1) k(5,8) by (auto simp: serial_ok_def chario_ok_def intq_ok_def waiters_def)
  moreover have "qlist ?q = []" by (simp add: qlist_def qlen_def)
  moreover have "qlist (txq d) = []" "\<not> dlab d" using d by (simp_all add: serial_ok_def)
  ultimately show ?thesis using d(1) t by (simp add: serial_ok_def stream_def sent_def dlab_def)
qed

lemma serial_putc_run:
  assumes d: "serial_ok d"
  shows "\<exists>d'. serial_putc d c = Some (Done (), d') \<and> serial_ok d' \<and> stream d' = stream d @ [c]"
proof (cases "mode d = QUEUE")
  case False
  note i = serial_intr_off [OF d]
  obtain d1 where d1: "(if mode d = UNINIT then init_poll d else Some d) = Some d1" "serial_ok d1" "stream d1 = stream d" "mode d1 = POLL"
    using init_poll_run [OF d] d False by (cases "mode d") auto
  obtain d2 where d2: "putc_poll d1 c = Some d2" "serial_ok d2" "sent d2 = sent d1 @ [c]" "txq d2 = txq d1"
    using putc_poll_run [OF d1(2)] by blast
  have "qlist (txq d1) = []" using d1(2,4) by (simp add: serial_ok_def)
  then have "stream d2 = stream d @ [c]" using d2(3,4) d1(3) by (simp add: stream_def)
  moreover have "serial_putc d c = Some (Done (), d2)"
    using False i d1(1) d2(1) level_off serial_intr_off [OF d2(2)] by (simp add: serial_putc_def)
  ultimately show ?thesis using d2(2) by blast
next
  case True
  have i: "\<not> intr_on (kern d)" and ok: "chario_ok d" using serial_intr_off [OF d] d by (simp_all add: serial_ok_def)
  have f: "intq_full d Txq = Some (length (qlist (txq d)) = INTQ_BUFSIZE - 1)"
    using full_iff [of "txq d"] i ok by (auto simp: intq_full_def queue_names chario_ok_def)
  have "\<exists>d1. (if length (qlist (txq d)) = INTQ_BUFSIZE - 1 then do {
                (b, d) \<leftarrow> intq_getc d Txq;
                case b of Done c \<Rightarrow> putc_poll d c | Sleep \<Rightarrow> None
              } else Some d) = Some d1 \<and> serial_ok d1 \<and> stream d1 = stream d \<and> mode d1 = QUEUE \<and> length (qlist (txq d1)) < INTQ_BUFSIZE - 1"
  proof (cases "length (qlist (txq d)) = INTQ_BUFSIZE - 1")
    case full: True
    then obtain b cs where b: "qlist (txq d) = b # cs" by (cases "qlist (txq d)") auto
    obtain d1 where d1: "intq_getc d Txq = Some (Done b, d1)" "serial_ok d1" "qlist (txq d1) = cs" "sent d1 = sent d" "mode d1 = mode d"
      using txq_get [OF d True b] by blast
    obtain d2 where d2: "putc_poll d1 b = Some d2" "serial_ok d2" "sent d2 = sent d1 @ [b]" "txq d2 = txq d1" "mode d2 = mode d1"
      using putc_poll_run [OF d1(2)] by blast
    then show ?thesis using full b d1 True by (simp add: stream_def)
  next
    case False
    then show ?thesis using d True qlen_less [of "txq d"] by (simp add: length_qlist)
  qed
  then obtain d1 where d1: "(if length (qlist (txq d)) = INTQ_BUFSIZE - 1 then do {
                (b, d) \<leftarrow> intq_getc d Txq;
                case b of Done c \<Rightarrow> putc_poll d c | Sleep \<Rightarrow> None
              } else Some d) = Some d1" "serial_ok d1" "stream d1 = stream d" "mode d1 = QUEUE" "length (qlist (txq d1)) < INTQ_BUFSIZE - 1"
    by blast
  obtain d2 where d2: "intq_putc d1 Txq c = Some (Done (), d2)" "chario_ok d2" "qlist (queue d2 Txq) = qlist (queue d1 Txq) @ [c]" "only_queue Txq d1 d2"
    using iq.put_ok [of d1 Txq c] d1(2,5) by (auto simp: queue_names serial_ok_def)
  note s2 = only_queue_serial [OF d2(4,2) d1(2,4)]
  obtain v where v: "write_ier d2 = Some (outb d2 IER_REG v)" using write_ier_run [OF d2(2)] by blast
  have "serial_ok (outb d2 IER_REG v)" "stream (outb d2 IER_REG v) = stream d @ [c]"
    using serial_ok_ier [of d2 v] s2(1,2) d2(3) d1(3) by (simp_all add: stream_def queue_names)
  moreover have "serial_putc d c = Some (Done (), outb d2 IER_REG v)"
    using True i f d1(1) d2(1) v level_off serial_intr_off [OF s2(1)] by (simp add: serial_putc_def)
  ultimately show ?thesis by blast
qed

lemma serial_interrupt_run:
  assumes "serial_ok d"
  shows "\<exists>d'. serial_interrupt d = Some d' \<and> serial_ok d' \<and> stream d' = stream d"
proof -
  let ?d = "d\<lparr>ins := ins d + 1\<rparr>"
  have "serial_ok ?d" "stream ?d = stream d" using assms by simp_all
  then obtain d1 where d1: "receive_loop ?d = Some d1" "serial_ok d1" "stream d1 = stream d" using receive_loop_run [of ?d] by auto
  obtain d2 where d2: "transmit_loop d1 = Some d2" "serial_ok d2" "stream d2 = stream d" using transmit_loop_run [OF d1(2)] d1(3) by auto
  obtain v where "write_ier d2 = Some (outb d2 IER_REG v)" using write_ier_run [of d2] d2(2) by (auto simp: serial_ok_def)
  then show ?thesis using d1(1) d2 serial_ok_ier [of d2 v] by (simp add: serial_interrupt_def inb_def)
qed

text \<open>The operations on the serial port, as other code and the hardware call them.\<close>

datatype serial_op = Putc u8 | Flush | Interrupt

fun serial_run :: "chario \<Rightarrow> serial_op list \<Rightarrow> chario option" where
  "serial_run d [] = Some d"
| "serial_run d (Putc c # ops) = do { (r, d) \<leftarrow> serial_putc d c; case r of Sleep \<Rightarrow> None | Done _ \<Rightarrow> serial_run d ops }"
| "serial_run d (Flush # ops) = do { d \<leftarrow> serial_flush d; serial_run d ops }"
| "serial_run d (Interrupt # ops) = do { d \<leftarrow> serial_interrupt d; serial_run d ops }"

fun accepted :: "serial_op list \<Rightarrow> u8 list" where
  "accepted [] = []"
| "accepted (Putc c # ops) = c # accepted ops"
| "accepted (Flush # ops) = accepted ops"
| "accepted (Interrupt # ops) = accepted ops"

lemma serial_flush_run:
  assumes "serial_ok d"
  shows "\<exists>d'. serial_flush d = Some d' \<and> serial_ok d' \<and> stream d' = stream d \<and> qlist (txq d') = []"
  using flush_loop_run [OF assms] level_off serial_intr_off assms by (fastforce simp: serial_flush_def)

text \<open>Empty queues, an uninitialized port, and a UART that is always ready.\<close>

definition demo_intq :: intq where
  "demo_intq = \<lparr>qlock = 100, not_full = NULL, not_empty = NULL, buf = replicate 64 0, head = 60, tail = 60\<rparr>"

definition demo_chario :: chario where
  "demo_chario = \<lparr>kern = demo_kernel\<lparr>intr_on := False\<rparr>, buffer = demo_intq, txq = demo_intq, mode = UNINIT,
     left_shift = False, right_shift = False, left_alt = False, right_alt = False, left_ctrl = False, right_ctrl = False,
     caps_lock = False, key_cnt = 0, rebooted = False, handlers = (\<lambda>_. None), hw = (\<lambda>_ _. 0x20), ins = 0, outs = []\<rparr>"

lemma demo_chario_ok: "chario_ok demo_chario" "serial_ok demo_chario" "qlist (queue demo_chario n) = []"
proof -
  have q: "qlist demo_intq = []" by (simp add: demo_intq_def qlist_def qlen_def)
  then show "qlist (queue demo_chario n) = []" by (cases n) (simp_all add: queue_def demo_chario_def)
  show c: "chario_ok demo_chario"
    using demo_kernel_ok by (simp add: chario_ok_def demo_chario_def intq_ok_def demo_intq_def waiters_def)
  then show "serial_ok demo_chario"
    using q by (simp add: serial_ok_def dlab_def) (auto simp: demo_chario_def demo_intq_def)
qed

text \<open>
  C36.  The interrupt queues are first-in first-out queues of 63 bytes, for the input buffer as well as the
  transmission queue: bytes put into a queue with room for them come out after those that were
  there, in order, and the queue is empty then.
\<close>

theorem intq_fifo:
  assumes "chario_ok d" "length (qlist (queue d n)) + length cs \<le> 63"
  shows "\<exists>d1 d2. put_all (\<lambda>d. intq_putc d n) d cs = Some d1 \<and>
     get_many (\<lambda>d. intq_getc d n) d1 (length (qlist (queue d n)) + length cs) = Some (qlist (queue d n) @ cs, d2) \<and>
     qlist (queue d2 n) = []"
  using assms by (rule iq.fifo)

theorem intq_fifo_witness:
  "\<exists>d1 d2. put_all (\<lambda>d. intq_putc d Txq) demo_chario [1, 2, 3, 4, 5] = Some d1 \<and>
     get_many (\<lambda>d. intq_getc d Txq) d1 5 = Some ([1, 2, 3, 4, 5], d2)"
proof -
  have l: "length (qlist (queue demo_chario Txq)) + length [1, 2, 3, 4, 5 :: u8] = 5" by (simp add: demo_chario_ok(3))
  then have "length (qlist (queue demo_chario Txq)) + length [1, 2, 3, 4, 5 :: u8] \<le> 63" by linarith
  from intq_fifo [OF demo_chario_ok(1) this] show ?thesis unfolding l unfolding demo_chario_ok(3) append_Nil by blast
qed

text \<open>
  C37.  The serial port transmits every byte once and in order.  With interrupts off, and a UART
  that is ready again and again, any sequence of \<open>serial_putc\<close>, \<open>serial_flush\<close> and serial interrupts
  runs without panicking or sleeping, whether the port is uninitialized, polling or
  interrupt-driven; the bytes on the line followed by those in the queue are those before,
  followed by the bytes given to \<open>serial_putc\<close>.
\<close>

theorem serial_in_order:
  assumes "serial_ok d"
  shows "\<exists>d'. serial_run d ops = Some d' \<and> sent d' @ qlist (txq d') = sent d @ qlist (txq d) @ accepted ops"
proof -
  have "\<exists>d'. serial_run d ops = Some d' \<and> stream d' = stream d @ accepted ops" using assms
  proof (induction d ops rule: serial_run.induct)
    case (2 d c ops)
    then show ?case using serial_putc_run [OF "2.prems", of c] by fastforce
  next
    case (3 d ops)
    then show ?case using serial_flush_run [OF "3.prems"] by fastforce
  next
    case (4 d ops)
    then show ?case using serial_interrupt_run [OF "4.prems"] by fastforce
  qed simp
  then show ?thesis by (simp add: stream_def)
qed

theorem serial_in_order_witness:
  "\<exists>d'. serial_run demo_chario [Putc 65, Interrupt, Putc 66, Flush] = Some d' \<and> sent d' @ qlist (txq d') = [65, 66]"
  using serial_in_order [OF demo_chario_ok(2), of "[Putc 65, Interrupt, Putc 66, Flush]"] demo_chario_ok(3) [of Txq]
  by (auto simp: queue_names sent_def demo_chario_def)

end
