(* ===== verification/Wish.thy ===== *)
theory Wish
  imports CString
begin

text \<open>
  The command line interpreter of \<open>aos_wish_shell/wish.c\<close>.  An input line is a buffer of
  characters that the two nested \<open>strtok_r\<close> loops cut up in place; a pointer into it is a
  position.  The copied strings are values, and the arrays \<open>pp_args\<close> and \<open>pp_dirs\<close> are lists of
  64 slots with \<open>None\<close> for a null pointer: reading or writing outside them has no result.  What
  the operating system does is a parameter, given as functions of the events so far: whether an
  allocation, \<open>chdir\<close>, \<open>access\<close>, \<open>fork\<close>, \<open>open\<close> or \<open>execv\<close> succeeds.  What the shell does
  is recorded as a list of events, and \<open>exit\<close> is the result \<open>Exited\<close>.  The functions of the C
  library used here are given by their specification.
\<close>

section \<open>The shell and its environment\<close>

datatype child_event = Redirected string | Executed string "string list" | ChildError

datatype event = Error | Chdir string | Forked "child_event list" | Reaped | Prompt

record shell =
  dirs :: "string option list"
  events :: "event list"
  children :: nat
  allocs :: nat
  alloc_ok :: "nat \<Rightarrow> bool"
  chdir_ok :: "event list \<Rightarrow> string \<Rightarrow> bool"
  access_ok :: "event list \<Rightarrow> string \<Rightarrow> bool"
  fork_ok :: "event list \<Rightarrow> bool"
  open_ok :: "event list \<Rightarrow> string \<Rightarrow> bool"
  exec_ok :: "event list \<Rightarrow> string \<Rightarrow> bool"

datatype 'a result = Ret 'a shell | Exited nat shell

abbreviation NUL :: char where "NUL \<equiv> CHR 0x00"
abbreviation MAX_ARGS :: nat where "MAX_ARGS \<equiv> 64"
abbreviation MAX_INPUT :: nat where "MAX_INPUT \<equiv> 1024"
abbreviation MAX_EX_ARGS :: nat where "MAX_EX_ARGS \<equiv> 2"
abbreviation blanks :: string where "blanks \<equiv> [CHR '' '', CHR 0x09, CHR 0x0A]"

text \<open>The C string at a position of a buffer, and \<open>strtok_r\<close> with the position where it starts.\<close>

definition str_at :: "string \<Rightarrow> nat \<Rightarrow> string option" where
  "str_at b p = (if NUL \<in> set (drop p b) then Some (takeWhile (\<lambda>c. c \<noteq> NUL) (drop p b)) else None)"

definition libc_strtok_r :: "string \<Rightarrow> nat \<Rightarrow> string \<Rightarrow> (nat option \<times> nat \<times> string) option" where
  "libc_strtok_r b s delims = do {
     x \<leftarrow> str_at b s;
     let p = s + length (takeWhile (\<lambda>c. c \<in> set delims) x);
     let y = dropWhile (\<lambda>c. c \<in> set delims) x;
     let e = p + length (takeWhile (\<lambda>c. c \<notin> set delims) y);
     if y = [] then Some (None, p, b)
     else if e < s + length x then Some (Some p, e + 1, b[e := NUL])
     else Some (Some p, e, b)
   }"

section \<open>Helper functions\<close>

definition built_in_commands :: "string list" where
  "built_in_commands = [''exit'', ''cd'', ''path'']"

definition handle_error :: "shell \<Rightarrow> shell" where
  "handle_error sh = sh\<lparr>events := events sh @ [Error]\<rparr>"

fun compare :: "string \<Rightarrow> string \<Rightarrow> int" where
  "compare (a # p_str1) (b # p_str2) = (if a \<noteq> b then -1 else compare p_str1 p_str2)"
| "compare [] [] = 0"
| "compare p_str1 p_str2 = -1"

fun is_built_in_loop :: "string \<Rightarrow> string list \<Rightarrow> bool" where
  "is_built_in_loop p_command [] = False"
| "is_built_in_loop p_command (c # cs) = (if compare p_command c = 0 then True else is_built_in_loop p_command cs)"

definition is_built_in :: "string option \<Rightarrow> bool" where
  "is_built_in p_command = (case p_command of None \<Rightarrow> False | Some p \<Rightarrow> is_built_in_loop p built_in_commands)"

text \<open>
  \<open>calloc\<close>, and \<open>copy\<close>: the first argument is the memory from the pointer on, the result the C
  string in the new block.
\<close>

definition calloc :: "shell \<Rightarrow> bool \<times> shell" where
  "calloc sh = (alloc_ok sh (allocs sh), sh\<lparr>allocs := allocs sh + 1\<rparr>)"

definition copy :: "shell \<Rightarrow> string \<Rightarrow> nat \<Rightarrow> string result option" where
  "copy sh p_data n =
     (let (ok, sh) = calloc sh in
      if \<not> ok then Some (Exited 1 (handle_error sh))
      else do {
        ASSERT (n \<le> length p_data);
        Some (Ret (takeWhile (\<lambda>c. c \<noteq> NUL) (take n p_data)) sh)
      })"

text \<open>The loops that apply \<open>CLEAR\<close> to the slots of an array up to the first null pointer.\<close>

fun clear :: "string option list \<Rightarrow> string option list" where
  "clear (Some x # xs) = None # clear xs"
| "clear xs = xs"

section \<open>Built-in commands\<close>

partial_function (option) path_loop ::
    "shell \<Rightarrow> string option list \<Rightarrow> nat \<Rightarrow> nat result option" where
  "path_loop sh pp_args i = do {
     a \<leftarrow> rd pp_args (i + 1);
     case a of
       None \<Rightarrow> Some (Ret i sh)
     | Some x \<Rightarrow> do {
         r \<leftarrow> copy sh x (length x);
         case r of
           Exited c sh \<Rightarrow> Some (Exited c sh)
         | Ret y sh \<Rightarrow> do {
             ds \<leftarrow> wr (dirs sh) i (Some y);
             path_loop (sh\<lparr>dirs := ds\<rparr>) pp_args (i + 1)
           }
       }
   }"

definition execute_builtins ::
    "shell \<Rightarrow> string \<Rightarrow> string option list \<Rightarrow> string option list result option" where
  "execute_builtins sh p_command pp_args =
     (if compare p_command (built_in_commands ! 0) = 0 then do {
        a \<leftarrow> rd pp_args 1;
        Some (Ret (clear pp_args) (if a \<noteq> None then handle_error sh else sh))
      }
      else if compare p_command (built_in_commands ! 1) = 0 then do {
        a \<leftarrow> rd pp_args 1;
        case a of
          Some d \<Rightarrow>
            if chdir_ok sh (events sh) d then Some (Ret pp_args (sh\<lparr>events := events sh @ [Chdir d]\<rparr>))
            else Some (Ret pp_args (handle_error sh))
        | None \<Rightarrow> Some (Ret pp_args (handle_error sh))
      }
      else if compare p_command (built_in_commands ! 2) = 0 then do {
        ASSERT (None \<in> set (dirs sh));
        r \<leftarrow> path_loop (sh\<lparr>dirs := clear (dirs sh)\<rparr>) pp_args 0;
        case r of
          Exited c sh \<Rightarrow> Some (Exited c sh)
        | Ret i sh \<Rightarrow> do { ds \<leftarrow> wr (dirs sh) i None; Some (Ret pp_args (sh\<lparr>dirs := ds\<rparr>)) }
      }
      else Some (Ret pp_args sh))"

section \<open>Parsing\<close>

text \<open>
  The loop of \<open>parse_input\<close>.  The test of the result of \<open>copy\<close> for a null pointer never
  succeeds, since \<open>copy\<close> ends the program instead of returning one.
\<close>

definition store_arg :: "shell \<Rightarrow> string \<Rightarrow> nat \<Rightarrow> string option list \<Rightarrow> nat \<Rightarrow>
    (string option list \<times> nat) result option" where
  "store_arg sh p_data n pp_args i = do {
     r \<leftarrow> copy sh p_data n;
     case r of
       Exited c sh \<Rightarrow> Some (Exited c sh)
     | Ret a sh \<Rightarrow> do { pp_args \<leftarrow> wr pp_args i (Some a); Some (Ret (pp_args, i + 1) sh) }
   }"

partial_function (option) parse_loop :: "shell \<Rightarrow> string \<Rightarrow> nat option \<Rightarrow> nat \<Rightarrow>
    string option list \<Rightarrow> nat \<Rightarrow> (string \<times> string option list \<times> nat) result option" where
  "parse_loop sh b p_token saveptr pp_args i =
     (case p_token of
        None \<Rightarrow> Some (Ret (b, pp_args, i) sh)
      | Some t \<Rightarrow>
          if MAX_ARGS - 1 > i then do {
            x \<leftarrow> str_at b t;
            let token_sz = length (takeWhile (\<lambda>c. c \<noteq> CHR ''>'') x);
            r \<leftarrow> (if 0 < token_sz then store_arg sh (drop t b) token_sz pp_args i
                  else Some (Ret (pp_args, i) sh));
            case r of
              Exited c sh \<Rightarrow> Some (Exited c sh)
            | Ret (pp_args, i) sh \<Rightarrow>
                if CHR ''>'' \<in> set x then do {
                  r \<leftarrow> store_arg sh (drop (t + token_sz) b) 1 pp_args i;
                  case r of
                    Exited c sh \<Rightarrow> Some (Exited c sh)
                  | Ret (pp_args, i) sh \<Rightarrow> parse_loop sh b (Some (t + token_sz + 1)) saveptr pp_args i
                }
                else do {
                  (p_token, saveptr, b) \<leftarrow> libc_strtok_r b saveptr blanks;
                  parse_loop sh b p_token saveptr pp_args i
                }
          }
          else Some (Ret (b, pp_args, i) sh))"

definition parse_input :: "shell \<Rightarrow> string \<Rightarrow> nat \<Rightarrow> string option list \<Rightarrow>
    (string \<times> string option list) result option" where
  "parse_input sh b p_input pp_args = do {
     (p_token, saveptr, b) \<leftarrow> libc_strtok_r b p_input blanks;
     r \<leftarrow> parse_loop sh b p_token saveptr pp_args 0;
     case r of
       Exited c sh \<Rightarrow> Some (Exited c sh)
     | Ret (b, pp_args, i) sh \<Rightarrow> do { pp_args \<leftarrow> wr pp_args i None; Some (Ret (b, pp_args) sh) }
   }"

section \<open>Running commands\<close>

text \<open>The search for the program, and the child process from \<open>fork\<close> to its end or its \<open>execv\<close>.\<close>

partial_function (option) find_command :: "shell \<Rightarrow> string \<Rightarrow> nat \<Rightarrow> string option option" where
  "find_command sh cmd i = do {
     d \<leftarrow> rd (dirs sh) i;
     case d of
       None \<Rightarrow> Some None
     | Some d \<Rightarrow>
         let cmd_path = take (MAX_INPUT - 1) (d @ ''/'' @ cmd) in
         if access_ok sh (events sh) cmd_path then Some (Some cmd_path) else find_command sh cmd (i + 1)
   }"

fun argv_of :: "string option list \<Rightarrow> string list" where
  "argv_of (Some x # xs) = x # argv_of xs"
| "argv_of xs = []"

definition child :: "shell \<Rightarrow> string option \<Rightarrow> string \<Rightarrow> string option list \<Rightarrow> child_event list" where
  "child sh redir cmd_path pp_args =
     (case redir of
        None \<Rightarrow> (if exec_ok sh (events sh) cmd_path then [Executed cmd_path (argv_of pp_args)] else [ChildError])
      | Some f \<Rightarrow>
          if open_ok sh (events sh) f then
            [Redirected f, if exec_ok sh (events sh) cmd_path then Executed cmd_path (argv_of pp_args) else ChildError]
          else [ChildError])"

definition execute_cmd ::
    "shell \<Rightarrow> string option \<Rightarrow> string option list \<Rightarrow> unit result option" where
  "execute_cmd sh redir pp_args = do {
     a \<leftarrow> rd pp_args 0;
     cmd \<leftarrow> a;
     f \<leftarrow> find_command sh cmd 0;
     case f of
       Some cmd_path \<Rightarrow>
         if fork_ok sh (events sh) then
           Some (Ret () (sh\<lparr>events := events sh @ [Forked (child sh redir cmd_path pp_args)],
                            children := children sh + 1\<rparr>))
         else Some (Exited 1 (handle_error sh))
     | None \<Rightarrow> Some (Ret () (handle_error sh))
   }"

text \<open>
  The loop of \<open>process_command\<close> over the arguments: the arguments and the file of the
  redirection, or \<open>None\<close> when it is not well-formed.
\<close>

definition redirect_ok :: "string option list \<Rightarrow> nat \<Rightarrow> bool option" where
  "redirect_ok pp_args i =
     (if 0 < i then do {
        f \<leftarrow> rd pp_args (i + 1);
        if f \<noteq> None then do { a \<leftarrow> rd pp_args (i + 2); Some (a = None) } else Some False
      } else Some False)"

partial_function (option) redirect_loop ::
    "shell \<Rightarrow> string option list \<Rightarrow> nat \<Rightarrow> (string option list \<times> string option) option result option" where
  "redirect_loop sh pp_args i = do {
     a \<leftarrow> rd pp_args i;
     case a of
       None \<Rightarrow> Some (Ret (Some (pp_args, None)) sh)
     | Some x \<Rightarrow>
         if compare x ''>'' = 0 then do {
           ok \<leftarrow> redirect_ok pp_args i;
           if ok then do {
             f \<leftarrow> rd pp_args (i + 1);
             f \<leftarrow> f;
             r \<leftarrow> copy sh f (length f);
             case r of
               Exited c sh \<Rightarrow> Some (Exited c sh)
             | Ret f sh \<Rightarrow> Some (Ret (Some (pp_args[i := None, i + 1 := None], Some f)) sh)
           }
           else Some (Ret None (handle_error sh))
         }
         else redirect_loop sh pp_args (i + 1)
   }"

definition dispatch :: "shell \<Rightarrow> string option list \<Rightarrow> string option \<Rightarrow> unit result option" where
  "dispatch sh pp_args p_out_file = do {
     a \<leftarrow> rd pp_args 0;
     case a of
       None \<Rightarrow> Some (Ret () sh)
     | Some cmd \<Rightarrow>
         if is_built_in a then do {
           r \<leftarrow> execute_builtins sh cmd pp_args;
           case r of Exited c sh \<Rightarrow> Some (Exited c sh) | Ret pp_args sh \<Rightarrow> Some (Ret () sh)
         }
         else execute_cmd sh p_out_file pp_args
   }"

definition process_command :: "shell \<Rightarrow> string \<Rightarrow> nat \<Rightarrow> string result option" where
  "process_command sh b p_input =
     (let (ok, sh) = calloc sh in
      if \<not> ok then Some (Exited 1 (handle_error sh))
      else do {
        r \<leftarrow> parse_input sh b p_input (replicate MAX_ARGS None);
        case r of
          Exited c sh \<Rightarrow> Some (Exited c sh)
        | Ret (b, pp_args) sh \<Rightarrow> do {
            r \<leftarrow> redirect_loop sh pp_args 0;
            case r of
              Exited c sh \<Rightarrow> Some (Exited c sh)
            | Ret None sh \<Rightarrow> Some (Ret b sh)
            | Ret (Some (pp_args, p_out_file)) sh \<Rightarrow> do {
                r \<leftarrow> dispatch sh pp_args p_out_file;
                case r of Exited c sh \<Rightarrow> Some (Exited c sh) | Ret u sh \<Rightarrow> Some (Ret b sh)
              }
          }
      })"

partial_function (option) command_loop ::
    "shell \<Rightarrow> string \<Rightarrow> nat option \<Rightarrow> nat \<Rightarrow> string result option" where
  "command_loop sh b p_command saveptr =
     (case p_command of
        None \<Rightarrow> Some (Ret b sh)
      | Some p \<Rightarrow> do {
          r \<leftarrow> process_command sh b p;
          case r of
            Exited c sh \<Rightarrow> Some (Exited c sh)
          | Ret b sh \<Rightarrow> do {
              (p_command, saveptr, b) \<leftarrow> libc_strtok_r b saveptr ''&'';
              command_loop sh b p_command saveptr
            }
        })"

text \<open>\<open>wait\<close> returns a child while there is one, and -1 then.\<close>

function wait_loop :: "shell \<Rightarrow> shell" where
  "wait_loop sh =
     (if children sh > 0 then wait_loop (sh\<lparr>children := children sh - 1, events := events sh @ [Reaped]\<rparr>)
      else sh)"
  by pat_completeness auto
termination by (relation "measure children") auto

declare wait_loop.simps [simp del]

text \<open>A null pointer as input reaches \<open>strtok_r\<close> with a null \<open>saveptr\<close>, which is undefined.\<close>

definition process_line :: "shell \<Rightarrow> string option \<Rightarrow> string result option" where
  "process_line sh p_input = do {
     b \<leftarrow> p_input;
     (p_command, saveptr, b) \<leftarrow> libc_strtok_r b 0 ''&'';
     r \<leftarrow> command_loop sh b p_command saveptr;
     case r of Exited c sh \<Rightarrow> Some (Exited c sh) | Ret b sh \<Rightarrow> Some (Ret b (wait_loop sh))
   }"

section \<open>The main loop\<close>

text \<open>\<open>getline\<close>: the line with its newline, the rest of the input, and whether the end was reached.\<close>

definition libc_getline :: "string \<Rightarrow> (string \<times> string \<times> bool) option" where
  "libc_getline inp =
     (if inp = [] then None
      else if CHR 0x0A \<in> set inp then
        let n = length (takeWhile (\<lambda>c. c \<noteq> CHR 0x0A) inp) in Some (take (n + 1) inp, drop (n + 1) inp, False)
      else Some (inp, [], True))"

definition read_line :: "shell \<Rightarrow> nat \<Rightarrow> string \<Rightarrow> string \<Rightarrow> (shell \<times> (string option \<times> string) option)" where
  "read_line sh argc argv0 inp =
     (if argc = 1 \<and> compare argv0 ''./wish'' = 0 \<or> argc = 2 \<and> compare argv0 ''./wish'' = 0 then
        let sh = (if argc = 1 then sh\<lparr>events := events sh @ [Prompt]\<rparr> else sh) in
        case libc_getline inp of
          None \<Rightarrow> (sh, None)
        | Some (line, rest, feof) \<Rightarrow> (sh, if feof then None else Some (Some (line @ [NUL]), rest))
      else (handle_error sh, Some (None, inp)))"

partial_function (option) main_loop :: "shell \<Rightarrow> nat \<Rightarrow> string \<Rightarrow> string \<Rightarrow> unit result option" where
  "main_loop sh argc argv0 inp =
     (case read_line sh argc argv0 inp of
        (sh, None) \<Rightarrow> Some (Ret () sh)
      | (sh, Some (p_input, rest)) \<Rightarrow> do {
          r \<leftarrow> process_line sh p_input;
          case r of
            Exited c sh \<Rightarrow> Some (Exited c sh)
          | Ret b sh \<Rightarrow> do {
              x \<leftarrow> str_at b 0;
              if compare (built_in_commands ! 0) x = 0 then Some (Ret () sh)
              else main_loop sh argc argv0 rest
            }
        })"

text \<open>\<open>batch\<close> is the contents of the batch file, \<open>None\<close> when it cannot be opened.\<close>

definition wish_main :: "shell \<Rightarrow> string list \<Rightarrow> string \<Rightarrow> string option \<Rightarrow> unit result option" where
  "wish_main sh argv stdin batch =
     (if MAX_EX_ARGS < length argv then Some (Exited 1 (handle_error sh))
      else do {
        r \<leftarrow> copy (sh\<lparr>dirs := replicate MAX_ARGS None\<rparr>) ''/bin'' (length ''/bin'');
        case r of
          Exited c sh \<Rightarrow> Some (Exited c sh)
        | Ret d sh \<Rightarrow> do {
            ds \<leftarrow> wr (dirs sh) 0 (Some d);
            ds \<leftarrow> wr ds 1 None;
            let sh = sh\<lparr>dirs := ds\<rparr>;
            if length argv = 2 \<and> batch = None then Some (Exited 1 (handle_error sh))
            else do {
              r \<leftarrow> main_loop sh (length argv) (if argv = [] then [] else hd argv)
                     (if length argv = 2 then the batch else stdin);
              case r of Exited c sh \<Rightarrow> Some (Exited c sh) | Ret u sh \<Rightarrow> Some (Exited 0 sh)
            }
          }
      })"

declare path_loop.simps [code] parse_loop.simps [code] find_command.simps [code] redirect_loop.simps [code]
  command_loop.simps [code] main_loop.simps [code]

section \<open>Strings in buffers\<close>

definition same_outside :: "string \<Rightarrow> string \<Rightarrow> nat \<Rightarrow> nat \<Rightarrow> bool" where
  "same_outside b b' lo hi \<longleftrightarrow> length b' = length b \<and> (\<forall>j < length b. j < lo \<or> hi \<le> j \<longrightarrow> b' ! j = b ! j)"

lemma same_outside_refl [simp]: "same_outside b b lo hi"
  by (simp add: same_outside_def)

lemma same_outside_trans:
  "same_outside b b1 lo hi \<Longrightarrow> same_outside b1 b2 lo' hi' \<Longrightarrow> lo \<le> lo' \<Longrightarrow> hi' \<le> hi \<Longrightarrow> same_outside b b2 lo hi"
  by (auto simp: same_outside_def)

lemma str_at_iff: "str_at b p = Some s \<longleftrightarrow> NUL \<notin> set s \<and> p + length s < length b \<and>
    (\<forall>j < length s. b ! (p + j) = s ! j) \<and> b ! (p + length s) = NUL"
proof
  assume "str_at b p = Some s"
  then have n: "NUL \<in> set (drop p b)" and s: "s = takeWhile (\<lambda>c. c \<noteq> NUL) (drop p b)"
    by (auto simp: str_at_def split: if_splits)
  obtain ys zs where d: "drop p b = ys @ NUL # zs" "NUL \<notin> set ys" using split_list_first [OF n] by blast
  then have "s = ys" using s by (simp add: takeWhile_append)
  then have e: "drop p b = s @ NUL # zs" "NUL \<notin> set s" using d by auto
  have l: "p + length s < length b" using arg_cong [OF e(1), of length] by simp
  have "drop p b ! j = b ! (p + j)" for j using l by simp
  moreover have "(s @ NUL # zs) ! j = s ! j" if "j < length s" for j using that by (simp add: nth_append)
  moreover have "(s @ NUL # zs) ! length s = NUL" by simp
  ultimately show "NUL \<notin> set s \<and> p + length s < length b \<and>
    (\<forall>j < length s. b ! (p + j) = s ! j) \<and> b ! (p + length s) = NUL" using l e by metis
next
  assume a: "NUL \<notin> set s \<and> p + length s < length b \<and>
    (\<forall>j < length s. b ! (p + j) = s ! j) \<and> b ! (p + length s) = NUL"
  then have l: "p + length s < length b" "p < length b" by linarith+
  have t: "take (length s) (drop p b) = s" by (rule nth_equalityI) (use a l in auto)
  have "drop p b = take (length s) (drop p b) @ drop p b ! length s # drop (Suc (length s)) (drop p b)"
    by (rule id_take_nth_drop) (use l in simp)
  then have "drop p b = s @ NUL # drop (Suc (length s)) (drop p b)" unfolding t using a l by simp
  then show "str_at b p = Some s" using a by (auto simp: str_at_def takeWhile_append)
qed

lemma str_at_whole [simp]: "NUL \<notin> set s \<Longrightarrow> str_at (s @ [NUL]) 0 = Some s"
  by (simp add: str_at_iff nth_append)

lemma str_at_sub: "str_at b p = Some (u @ v) \<Longrightarrow> str_at b (p + length u) = Some v"
  by (auto simp: str_at_iff nth_append add.assoc)

lemma str_at_keep:
  assumes "str_at b p = Some s" "same_outside b b' lo hi" "p + length s < lo \<or> hi \<le> p"
  shows "str_at b' p = Some s"
  using assms by (auto simp: str_at_iff same_outside_def)

lemma str_at_drop: "str_at b p = Some s \<Longrightarrow> n \<le> length s \<Longrightarrow>
    n \<le> length (drop p b) \<and> takeWhile (\<lambda>c. c \<noteq> NUL) (take n (drop p b)) = take n s"
proof -
  assume s: "str_at b p = Some s" and n: "n \<le> length s"
  have t: "take n (drop p b) = take n s"
    by (rule nth_equalityI) (use s n in \<open>auto simp: str_at_iff\<close>)
  have "NUL \<notin> set (take n s)" "n \<le> length (drop p b)"
    using s n by (auto simp: str_at_iff dest: in_set_takeD)
  moreover from this(1) have "takeWhile (\<lambda>c. c \<noteq> NUL) (take n s) = take n s" by (intro takeWhile_eq_all_conv [THEN iffD2]) blast
  ultimately show ?thesis using t by simp
qed

text \<open>The two cases of \<open>strtok_r\<close>.\<close>

lemma libc_strtok_r_end:
  "str_at b p = Some s \<Longrightarrow> set s \<subseteq> set ds \<Longrightarrow> libc_strtok_r b p ds = Some (None, p + length s, b)"
proof -
  assume s: "str_at b p = Some s" "set s \<subseteq> set ds"
  then have "dropWhile (\<lambda>c. c \<in> set ds) s = []" "length (takeWhile (\<lambda>c. c \<in> set ds) s) = length s"
    using takeWhile_eq_all_conv [of "\<lambda>c. c \<in> set ds" s, THEN iffD2] by (auto, metis subsetD)
  then show ?thesis using s by (simp add: libc_strtok_r_def)
qed

lemma libc_strtok_r_token:
  assumes s: "str_at b p = Some s" "s = pre @ tok @ rest"
    and t: "set pre \<subseteq> set ds" "tok \<noteq> []" "set tok \<inter> set ds = {}" "rest = [] \<or> hd rest \<in> set ds"
  obtains sv b' where "libc_strtok_r b p ds = Some (Some (p + length pre), sv, b')"
    "str_at b' (p + length pre) = Some tok" "str_at b' sv = Some (tl rest)"
    "p + length pre + length tok \<le> sv" "sv + length (tl rest) = p + length s"
    "rest \<noteq> [] \<longrightarrow> p + length pre + length tok < sv" "same_outside b b' p (p + length s)"
proof -
  have tw: "takeWhile (\<lambda>x. x \<in> set ds) s = pre" "dropWhile (\<lambda>x. x \<in> set ds) s = tok @ rest"
    using t by (cases tok; auto simp: s(2) takeWhile_append2 dropWhile_append2 subset_iff)+
  have tt: "takeWhile (\<lambda>x. x \<notin> set ds) (tok @ rest) = tok"
    using t by (cases rest) (auto simp: takeWhile_append2 disjoint_iff)
  let ?e = "p + length pre + length tok"
  have r: "libc_strtok_r b p ds = Some (Some (p + length pre), if rest = [] then ?e else Suc ?e,
      if rest = [] then b else b[?e := NUL])"
    unfolding libc_strtok_r_def s(1) Option.bind.simps Let_def tw tt using t(2) by (simp add: s(2))
  have d: "str_at b (p + length pre) = Some (tok @ rest)" using s by (auto intro: str_at_sub)
  have f: "str_at b (p + length pre + length (tok @ [hd rest])) = Some (tl rest)" if "rest \<noteq> []"
    using str_at_sub [of b "p + length pre" "tok @ [hd rest]" "tl rest"] d that by simp
  show ?thesis
  proof (cases rest)
    case Nil
    then show ?thesis using that [OF r] d s(2) str_at_sub [of b "p + length pre" tok "[]"] by simp
  next
    case (Cons c u)
    have 1: "str_at (b[?e := NUL]) (p + length pre) = Some tok"
      using d by (auto simp: str_at_iff Cons nth_append nth_list_update)
    have 2: "str_at (b[?e := NUL]) (Suc ?e) = Some u"
      using f Cons by (auto simp: str_at_iff nth_list_update)
    have 3: "same_outside b (b[?e := NUL]) p (p + length s)"
      by (auto simp: same_outside_def nth_list_update s(2) Cons)
    show ?thesis by (rule that [OF r]) (use Cons 1 2 3 s(2) in auto)
  qed
qed

section \<open>Parsing a command\<close>

text \<open>
  The words of a command: its tokens, cut at every redirection sign, which is a word of its own.
\<close>

function split_gt :: "string \<Rightarrow> string list" where
  "split_gt t =
     (let w = takeWhile (\<lambda>c. c \<noteq> CHR ''>'') t in
      (if w = [] then [] else [w]) @
      (if CHR ''>'' \<in> set t then ''>'' # split_gt (drop (length w + 1) t) else []))"
  by pat_completeness auto
termination
proof (relation "measure length")
  show "(drop (length w + 1) t, t) \<in> measure length" if "w = takeWhile (\<lambda>c. c \<noteq> CHR ''>'') t" "CHR ''>'' \<in> set t" for t w
    using that(2) by (cases t) auto
qed simp

declare split_gt.simps [simp del]

definition words :: "string \<Rightarrow> string list" where
  "words s = concat (map split_gt (tokens (set blanks) s))"

abbreviation piece :: "string \<Rightarrow> string list" where
  "piece w \<equiv> if w = [] then [] else [w]"

lemma before_sign: "CHR ''>'' \<notin> set w \<Longrightarrow> takeWhile (\<lambda>c. c \<noteq> CHR ''>'') (w @ CHR ''>'' # r) = w"
    "CHR ''>'' \<notin> set w \<Longrightarrow> takeWhile (\<lambda>c. c \<noteq> CHR ''>'') w = w"
  by (subst takeWhile_append2, auto)

lemma split_gt_none: "CHR ''>'' \<notin> set t \<Longrightarrow> split_gt t = piece t"
  unfolding split_gt.simps [of t] Let_def by (simp only: before_sign if_False append_Nil2 simp_thms)

lemma split_gt_sign: "CHR ''>'' \<notin> set w \<Longrightarrow> split_gt (w @ CHR ''>'' # r) = piece w @ ''>'' # split_gt r"
  unfolding split_gt.simps [of "w @ CHR ''>'' # r"] Let_def by (simp only: before_sign simp_thms) simp

lemma split_gt_concat: "concat (split_gt t) = t"
proof (induction t rule: split_gt.induct)
  case (1 t)
  show ?case
  proof (cases "CHR ''>'' \<in> set t")
    case True
    then obtain w r where t: "t = w @ CHR ''>'' # r" "CHR ''>'' \<notin> set w" using split_list_first by metis
    have "takeWhile (\<lambda>c. c \<noteq> CHR ''>'') t = w" unfolding t(1) by (subst takeWhile_append2) (use t(2) in auto)
    then have "concat (split_gt r) = r" using 1 [OF refl True] t(1) by simp
    then show ?thesis using t by (simp add: split_gt_sign)
  qed (simp add: split_gt_none)
qed

lemma split_gt_Nil [simp]: "split_gt x = [] \<longleftrightarrow> x = []"
  using split_gt_concat [of x] by (auto simp: split_gt_none)

lemma split_gt_empty [simp]: "split_gt [] = []"
  by simp

lemma words_blank: "set s \<subseteq> set blanks \<Longrightarrow> words s = []"
  using tokens_skip [of s "set blanks" "[]"] by (simp add: words_def)

lemma words_token:
  assumes "set pre \<subseteq> set blanks" "tok \<noteq> []" "set tok \<inter> set blanks = {}" "rest = [] \<or> hd rest \<in> set blanks"
  shows "words (pre @ tok @ rest) = split_gt tok @ words (tl rest)"
  by (simp only: words_def tokens_skip [OF assms(1)] tokens_token [OF assms(2-4)] list.map concat.simps)

fun put_args :: "string option list \<Rightarrow> nat \<Rightarrow> string list \<Rightarrow> string option list" where
  "put_args pp_args i [] = pp_args"
| "put_args pp_args i (w # ws) = put_args (pp_args[i := Some w]) (Suc i) ws"

lemma length_put_args [simp]: "length (put_args pp_args i ws) = length pp_args"
  by (induction ws arbitrary: pp_args i) auto

lemma put_args_append: "put_args pp_args i (u @ v) = put_args (put_args pp_args i u) (i + length u) v"
  by (induction u arbitrary: pp_args i) auto

lemma put_args_eq: "i + length ws \<le> length pp_args \<Longrightarrow>
    put_args pp_args i ws = take i pp_args @ map Some ws @ drop (i + length ws) pp_args"
proof (induction ws arbitrary: pp_args i)
  case (Cons w ws)
  then show ?case by (simp add: take_Suc_conv_app_nth)
qed simp

definition resources :: "shell \<Rightarrow> bool" where
  "resources sh \<longleftrightarrow> (\<forall>n. alloc_ok sh n) \<and> (\<forall>tr. fork_ok sh tr)"

lemma calloc_run [simp]: "resources sh \<Longrightarrow> calloc sh = (True, sh\<lparr>allocs := allocs sh + 1\<rparr>)"
  by (simp add: calloc_def resources_def)

lemma resources_upd [simp]: "resources (sh\<lparr>allocs := k\<rparr>) = resources sh" "resources (sh\<lparr>events := e\<rparr>) = resources sh"
    "resources (sh\<lparr>dirs := d\<rparr>) = resources sh" "resources (sh\<lparr>children := n\<rparr>) = resources sh"
  by (simp_all add: resources_def)

lemma copy_run: "resources sh \<Longrightarrow> n \<le> length d \<Longrightarrow>
    copy sh d n = Some (Ret (takeWhile (\<lambda>c. c \<noteq> NUL) (take n d)) (sh\<lparr>allocs := allocs sh + 1\<rparr>))"
  by (simp add: copy_def)

lemma copy_str: "resources sh \<Longrightarrow> NUL \<notin> set x \<Longrightarrow>
    copy sh x (length x) = Some (Ret x (sh\<lparr>allocs := allocs sh + 1\<rparr>))"
  using takeWhile_eq_all_conv [of "\<lambda>c. c \<noteq> NUL" x, THEN iffD2] by (simp only: copy_run) fastforce

lemma store_arg_run:
  "resources sh \<Longrightarrow> str_at b t = Some x \<Longrightarrow> n \<le> length x \<Longrightarrow> i < length pp_args \<Longrightarrow>
    store_arg sh (drop t b) n pp_args i =
      Some (Ret (put_args pp_args i [take n x], i + 1) (sh\<lparr>allocs := allocs sh + 1\<rparr>))"
  using str_at_drop [of b t x n] by (simp add: store_arg_def copy_run)

text \<open>One iteration for a token with a redirection sign, and one for a token without.\<close>

lemma store_piece:
  assumes "resources sh" "str_at b t = Some (w @ r)" "i < length pp_args"
  shows "(if 0 < length w then store_arg sh (drop t b) (length w) pp_args i else Some (Ret (pp_args, i) sh)) =
      Some (Ret (put_args pp_args i (piece w), i + length (piece w)) (sh\<lparr>allocs := allocs sh + length (piece w)\<rparr>))"
  using store_arg_run [OF assms(1,2), of "length w" i pp_args] assms(3) by simp

lemma parse_loop_sign:
  assumes "resources sh" "str_at b t = Some (w @ CHR ''>'' # r)" "CHR ''>'' \<notin> set w"
    and "i + length (piece w) + 1 < MAX_ARGS" "length pp_args = MAX_ARGS"
  shows "parse_loop sh b (Some t) sv pp_args i =
     parse_loop (sh\<lparr>allocs := allocs sh + length (piece w) + 1\<rparr>) b (Some (t + length w + 1)) sv
       (put_args pp_args i (piece w @ [''>''])) (i + length (piece w) + 1)"
proof -
  have i: "i < length pp_args" "i + length (piece w) < length pp_args" "i < 63" using assms(4,5) by linarith+
  have a: "str_at b (t + length w) = Some (CHR ''>'' # r)" using str_at_sub [OF assms(2)] .
  let ?sh = "sh\<lparr>allocs := allocs sh + length (piece w)\<rparr>"
  have "store_arg ?sh (drop (t + length w) b) 1 (put_args pp_args i (piece w)) (i + length (piece w)) =
      Some (Ret (put_args pp_args i (piece w @ [''>'']), i + length (piece w) + 1) (?sh\<lparr>allocs := allocs ?sh + 1\<rparr>))"
    using store_arg_run [of ?sh, OF _ a, of 1 "i + length (piece w)" "put_args pp_args i (piece w)"] assms(1) i(2)
    by (simp add: put_args_append)
  then show ?thesis using i(3) assms(2) store_piece [OF assms(1,2) i(1)]
    by (subst parse_loop.simps) (simp add: before_sign [OF assms(3)])
qed

lemma parse_loop_next:
  assumes "resources sh" "str_at b t = Some x" "CHR ''>'' \<notin> set x" "i < MAX_ARGS - 1" "length pp_args = MAX_ARGS"
  shows "parse_loop sh b (Some t) sv pp_args i = do {
      (p_token, sv, b) \<leftarrow> libc_strtok_r b sv blanks;
      parse_loop (sh\<lparr>allocs := allocs sh + length (piece x)\<rparr>) b p_token sv
        (put_args pp_args i (piece x)) (i + length (piece x)) }"
  using assms store_piece [of sh b t x "[]" i pp_args]
  by (subst parse_loop.simps) (simp add: before_sign [OF assms(3)])

lemma parse_loop_run:
  assumes "resources sh" "length pp_args = MAX_ARGS" "str_at b t = Some x" "str_at b sv = Some s"
    and "i + length (split_gt x @ words s) < MAX_ARGS"
  shows "\<exists>b' k. parse_loop sh b (Some t) sv pp_args i =
      Some (Ret (b', put_args pp_args i (split_gt x @ words s), i + length (split_gt x @ words s)) (sh\<lparr>allocs := k\<rparr>)) \<and>
    same_outside b b' sv (sv + length s)"
  using assms
proof (induction "length x + 2 * length s" arbitrary: sh b t x sv s pp_args i rule: less_induct)
  case less
  consider "\<not> i < 63" | "i < 63" "CHR ''>'' \<in> set x" | "i < 63" "CHR ''>'' \<notin> set x" by blast
  then show ?case
  proof cases
    case 1
    then have "length (split_gt x @ words s) = 0" using less.prems(5) by linarith
    then show ?thesis using 1
      by (subst parse_loop.simps) (auto intro!: exI [of _ b] exI [of _ "allocs sh"])
  next
    case 2
    then obtain w r where x: "x = w @ CHR ''>'' # r" "CHR ''>'' \<notin> set w" using split_list_first by metis
    have sp: "split_gt x = piece w @ ''>'' # split_gt r" unfolding x(1) by (rule split_gt_sign [OF x(2)])
    have r: "str_at b (t + length w + 1) = Some r"
      using str_at_sub [of b t "w @ ''>''" r] less.prems(3) x(1) by simp
    have i: "i + length (piece w) + 1 + length (split_gt r @ words s) < MAX_ARGS" "length r + 2 * length s < length x + 2 * length s"
      using less.prems(5) sp x(1) by auto
    have "i + length (piece w) + 1 < MAX_ARGS" using i(1) by linarith
    note st = parse_loop_sign [OF less.prems(1) less.prems(3) [unfolded x(1)] x(2) this less.prems(2)]
    show ?thesis
      using less.hyps [OF i(2) _ _ r less.prems(4) i(1), of "sh\<lparr>allocs := allocs sh + length (piece w) + 1\<rparr>"
        "put_args pp_args i (piece w @ [''>''])"] less.prems(1,2)
      unfolding st sp by (auto simp: put_args_append add.assoc)
  next
    case 3
    note st = parse_loop_next [OF less.prems(1,3) 3(2) _ less.prems(2), simplified, OF 3(1)]
    show ?thesis
    proof (cases rule: split_token [of s "set blanks"])
      case 1
      show ?thesis unfolding st words_blank [OF 1] split_gt_none [OF 3(2)]
        using libc_strtok_r_end [OF less.prems(4) 1] by (auto simp: parse_loop.simps [of _ _ None] intro: exI [of _ "allocs sh"])
    next
      case (2 pre tok rest)
      obtain sv' b1 where k: "libc_strtok_r b sv blanks = Some (Some (sv + length pre), sv', b1)"
          "str_at b1 (sv + length pre) = Some tok" "str_at b1 sv' = Some (tl rest)"
          "sv + length pre + length tok \<le> sv'" "sv' + length (tl rest) = sv + length s"
          "same_outside b b1 sv (sv + length s)"
        using libc_strtok_r_token [OF less.prems(4) 2] by metis
      have wd: "words s = split_gt tok @ words (tl rest)" unfolding 2(1) by (rule words_token [OF 2(2-5)])
      have i: "i + length (piece x) + length (split_gt tok @ words (tl rest)) < MAX_ARGS"
          "length tok + 2 * length (tl rest) < length x + 2 * length s"
        using less.prems(5) wd 2(1,3) by (auto simp: split_gt_none [OF 3(2)]) (cases tok; auto)+
      have "same_outside b b' sv (sv + length s)" if "same_outside b1 b' sv' (sv' + length (tl rest))" for b'
        by (rule same_outside_trans [OF k(6) that]) (use k(4,5) in auto)
      then show ?thesis
        using less.hyps [OF i(2) _ _ k(2,3) i(1), of "sh\<lparr>allocs := allocs sh + length (piece x)\<rparr>"
          "put_args pp_args i (piece x)"] less.prems(1,2)
        unfolding st wd k(1) split_gt_none [OF 3(2)] by (fastforce simp: put_args_append add.assoc)
    qed
  qed
qed

text \<open>The argument array that holds a list of words.\<close>

definition args_of :: "string list \<Rightarrow> string option list" where
  "args_of ws = map Some ws @ replicate (MAX_ARGS - length ws) None"

lemma length_args_of [simp]: "length ws \<le> MAX_ARGS \<Longrightarrow> length (args_of ws) = MAX_ARGS"
  by (simp add: args_of_def)

lemma nth_args_of: "length ws < MAX_ARGS \<Longrightarrow> i < MAX_ARGS \<Longrightarrow>
    args_of ws ! i = (if i < length ws then Some (ws ! i) else None)"
  by (simp add: args_of_def nth_append)

lemma replicate_args_of: "replicate MAX_ARGS None = args_of []"
  by (simp add: args_of_def)

lemma put_args_of: "length ws < MAX_ARGS \<Longrightarrow> put_args (args_of []) 0 ws = args_of ws"
  by (simp add: put_args_eq args_of_def)

lemma wr_args_of: "length ws < MAX_ARGS \<Longrightarrow> wr (args_of ws) (length ws) None = Some (args_of ws)"
  by (auto simp: args_of_def list_update_append nth_equalityI intro!: list_update_same_conv [THEN iffD2])

lemma argv_of_args_of [simp]: "argv_of (args_of ws) = ws"
proof -
  have "argv_of (map Some ws @ replicate n None) = ws" for n by (induction ws) (cases n; simp)+
  then show ?thesis by (simp add: args_of_def)
qed

lemma clear_args_of: "length ws \<le> MAX_ARGS \<Longrightarrow> clear (args_of ws) = args_of []"
proof -
  have "clear (map Some ws @ replicate n None) = replicate (length ws + n) None" for n
    by (induction ws) (cases n; simp)+
  then show "length ws \<le> MAX_ARGS \<Longrightarrow> ?thesis" by (simp add: args_of_def)
qed

lemma same_outside_empty: "same_outside b b' p p \<Longrightarrow> b' = b"
  unfolding same_outside_def by (intro nth_equalityI) (auto simp: not_less)

lemma first_token_unique:
  assumes "tok @ rest = pre @ tok' @ rest'" "tok \<noteq> []" "set tok \<inter> D = {}" "rest = [] \<or> hd rest \<in> D"
    and "set pre \<subseteq> D" "tok' \<noteq> []" "set tok' \<inter> D = {}" "rest' = [] \<or> hd rest' \<in> D"
  shows "pre = []" "tok' = tok"
proof -
  show p: "pre = []" using assms(1,2,3,5) by (cases pre; cases tok) auto
  have "takeWhile (\<lambda>c. c \<notin> D) (u @ v) = u" if "set u \<inter> D = {}" "v = [] \<or> hd v \<in> D" for u v
    using that by (cases v) (auto simp: takeWhile_append2 disjoint_iff)
  from this [OF assms(3,4)] this [OF assms(7,8)] show "tok' = tok" using assms(1) p by simp
qed

lemma parse_input_run:
  assumes "resources sh" "str_at b p = Some s" "length (words s) < MAX_ARGS"
  shows "\<exists>b' k. parse_input sh b p (replicate MAX_ARGS None) = Some (Ret (b', args_of (words s)) (sh\<lparr>allocs := k\<rparr>)) \<and>
    same_outside b b' p (p + length s) \<and>
    (\<forall>tok rest. s = tok @ rest \<and> tok \<noteq> [] \<and> set tok \<inter> set blanks = {} \<and> (rest = [] \<or> hd rest \<in> set blanks) \<longrightarrow>
       str_at b' p = Some tok)"
proof (cases rule: split_token [of s "set blanks"])
  case 1
  then have "tok = []" if "s = tok @ rest" "set tok \<inter> set blanks = {}" for tok rest using that by (cases tok) auto
  then show ?thesis using words_blank [OF 1] libc_strtok_r_end [OF assms(2) 1] wr_args_of [of "[]"]
    by (auto simp: parse_input_def parse_loop.simps [of _ _ None] replicate_args_of intro: exI [of _ "allocs sh"])
next
  case (2 pre tok rest)
  obtain sv b1 where k: "libc_strtok_r b p blanks = Some (Some (p + length pre), sv, b1)"
      "str_at b1 (p + length pre) = Some tok" "str_at b1 sv = Some (tl rest)"
      "p + length pre + length tok \<le> sv" "sv + length (tl rest) = p + length s"
      "rest \<noteq> [] \<longrightarrow> p + length pre + length tok < sv" "same_outside b b1 p (p + length s)"
    using libc_strtok_r_token [OF assms(2) 2] by metis
  have w: "words s = split_gt tok @ words (tl rest)" unfolding 2(1) by (rule words_token [OF 2(2-5)])
  obtain b' n where r: "parse_loop sh b1 (Some (p + length pre)) sv (args_of []) 0 =
      Some (Ret (b', args_of (words s), length (words s)) (sh\<lparr>allocs := n\<rparr>))"
      "same_outside b1 b' sv (sv + length (tl rest))"
    using parse_loop_run [OF assms(1) _ k(2,3), of "args_of []" 0] assms(3)
    unfolding w [symmetric] put_args_of [OF assms(3)] by auto
  have "str_at b' (p + length pre) = Some tok"
    using str_at_keep [OF k(2) r(2)] k(2,6) r(2) same_outside_empty [of b1 b' sv] by (cases rest) auto
  then have "str_at b' p = Some t" if "s = t @ r" "t \<noteq> []" "set t \<inter> set blanks = {}" "r = [] \<or> hd r \<in> set blanks" for t r
    using first_token_unique [OF _ that(2-4) 2(2-5)] that(1) 2(1) by simp
  moreover have "same_outside b b' p (p + length s)"
    by (rule same_outside_trans [OF k(7) r(2)]) (use k(4,5) in auto)
  moreover have "parse_input sh b p (replicate MAX_ARGS None) = Some (Ret (b', args_of (words s)) (sh\<lparr>allocs := n\<rparr>))"
    unfolding parse_input_def replicate_args_of k(1) by (simp add: r(1) wr_args_of [OF assms(3)])
  ultimately show ?thesis by blast
qed

section \<open>What a line does\<close>

text \<open>
  The specification works on the words of the commands.  A redirection is well-formed when its
  sign is the last word but one and a command precedes it.
\<close>

definition redirection :: "string list \<Rightarrow> (string list \<times> string option) option" where
  "redirection ws =
     (if ''>'' \<in> set ws then
        let cmd = takeWhile (\<lambda>w. w \<noteq> ''>'') ws in
        if cmd \<noteq> [] \<and> length ws = length cmd + 2 then Some (cmd, Some (last ws)) else None
      else Some (ws, None))"

definition launched :: "shell \<Rightarrow> event list \<Rightarrow> string option \<Rightarrow> string \<Rightarrow> string list \<Rightarrow> child_event list" where
  "launched sh tr f path args =
     (let exec = (if exec_ok sh tr path then Executed path args else ChildError) in
      case f of None \<Rightarrow> [exec] | Some f \<Rightarrow> if open_ok sh tr f then [Redirected f, exec] else [ChildError])"

type_synonym view = "string list \<times> event list \<times> nat"

definition run_external :: "shell \<Rightarrow> view \<Rightarrow> string list \<Rightarrow> string option \<Rightarrow> view" where
  "run_external sh v args f =
     (let (ds, tr, n) = v in
      case find (access_ok sh tr) (map (\<lambda>d. take (MAX_INPUT - 1) (d @ ''/'' @ hd args)) ds) of
        None \<Rightarrow> (ds, tr @ [Error], n)
      | Some path \<Rightarrow> (ds, tr @ [Forked (launched sh tr f path args)], n + 1))"

definition run_words :: "shell \<Rightarrow> string list \<Rightarrow> string option \<Rightarrow> view \<Rightarrow> view" where
  "run_words sh args f v =
     (let (ds, tr, n) = v in
      case args of
        [] \<Rightarrow> v
      | cmd # rest \<Rightarrow>
          if cmd = ''exit'' then (ds, if rest = [] then tr else tr @ [Error], n)
          else if cmd = ''cd'' then
            (ds, tr @ [if rest \<noteq> [] \<and> chdir_ok sh tr (hd rest) then Chdir (hd rest) else Error], n)
          else if cmd = ''path'' then (rest, tr, n)
          else run_external sh v args f)"

definition run_command :: "shell \<Rightarrow> string list \<Rightarrow> view \<Rightarrow> view" where
  "run_command sh ws v =
     (case redirection ws of
        None \<Rightarrow> (let (ds, tr, n) = v in (ds, tr @ [Error], n))
      | Some (args, f) \<Rightarrow> run_words sh args f v)"

definition with_view :: "shell \<Rightarrow> view \<Rightarrow> nat \<Rightarrow> shell" where
  "with_view sh v k = (let (ds, tr, n) = v in
     sh\<lparr>dirs := args_of ds, events := tr, children := n, allocs := k\<rparr>)"

lemma compare_0 [simp]: "compare x y = 0 \<longleftrightarrow> x = y"
  by (induction x y rule: compare.induct) auto

lemma is_built_in_run: "is_built_in (Some x) \<longleftrightarrow> x = ''exit'' \<or> x = ''cd'' \<or> x = ''path''"
  by (simp add: is_built_in_def built_in_commands_def)

lemma tokens_subset: "t \<in> set (tokens D s) \<Longrightarrow> set t \<subseteq> set s"
proof -
  have "CString.fields D s \<noteq> [] \<and> (\<forall>t \<in> set (CString.fields D s). set t \<subseteq> set s)"
  proof (induction s)
    case (Cons a s)
    then show ?case by (cases "CString.fields D s") auto
  qed simp
  then show "t \<in> set (tokens D s) \<Longrightarrow> set t \<subseteq> set s" by (auto simp: tokens_def)
qed

lemma words_snoc_blank: "c \<in> set blanks \<Longrightarrow> words (s @ [c]) = words s"
proof -
  have "CString.fields D (s @ [c]) = CString.fields D s @ [[]]" if "c \<in> D" for D :: "char set"
  proof -
    have "CString.fields D s \<noteq> []" for s by (cases s) auto
    then show ?thesis using that by (induction s) auto
  qed
  then show "c \<in> set blanks \<Longrightarrow> words (s @ [c]) = words s" unfolding words_def tokens_def by (simp only: filter_append) simp
qed

lemma words_subset: "w \<in> set (words s) \<Longrightarrow> set w \<subseteq> set s"
proof -
  assume "w \<in> set (words s)"
  then obtain t where t: "t \<in> set (tokens (set blanks) s)" "w \<in> set (split_gt t)" by (auto simp: words_def)
  have "set w \<subseteq> set t" using t(2) arg_cong [OF split_gt_concat [of t], of set] by auto
  then show "set w \<subseteq> set s" using tokens_subset [OF t(1)] by blast
qed

section \<open>The program implements the specification\<close>

lemma redirect_loop_skip:
  assumes "i \<le> n" "n \<le> length ws" "length ws < MAX_ARGS" "\<forall>j. i \<le> j \<and> j < n \<longrightarrow> ws ! j \<noteq> ''>''"
  shows "redirect_loop sh (args_of ws) i = redirect_loop sh (args_of ws) n"
  using assms(1,4)
proof (induction "n - i" arbitrary: i)
  case (Suc k)
  then have "i < n" by simp
  then have "redirect_loop sh (args_of ws) i = redirect_loop sh (args_of ws) (i + 1)"
    using assms(2,3) Suc.prems by (subst redirect_loop.simps) (simp add: nth_args_of)
  then show ?case using Suc \<open>i < n\<close> by simp
qed simp

lemma redirection_cases:
  obtains (none) "''>'' \<notin> set ws" "redirection ws = Some (ws, None)"
  | (good) cmd f where "ws = cmd @ [''>'', f]" "cmd \<noteq> []" "''>'' \<notin> set cmd" "redirection ws = Some (cmd, Some f)"
  | (bad) cmd rest where "ws = cmd @ ''>'' # rest" "''>'' \<notin> set cmd" "cmd = [] \<or> length rest \<noteq> 1" "redirection ws = None"
proof (cases "''>'' \<in> set ws")
  case True
  then obtain cmd rest where w: "ws = cmd @ ''>'' # rest" "''>'' \<notin> set cmd" using split_list_first by metis
  have t: "takeWhile (\<lambda>w. w \<noteq> ''>'') ws = cmd" unfolding w(1) by (subst takeWhile_append2) (use w(2) in auto)
  show ?thesis
  proof (cases "cmd \<noteq> [] \<and> length rest = 1")
    case True
    then obtain f where "rest = [f]" by (auto simp: length_Suc_conv)
    then show ?thesis using good [of cmd f] w t True by (simp add: redirection_def)
  next
    case False
    then show ?thesis using bad [of cmd rest] w t by (auto simp: redirection_def)
  qed
qed (use none in \<open>simp add: redirection_def\<close>)

lemma redirect_loop_run:
  assumes "resources sh" "length ws < MAX_ARGS" "\<forall>w \<in> set ws. NUL \<notin> set w"
  shows "redirect_loop sh (args_of ws) 0 =
     (case redirection ws of
        None \<Rightarrow> Some (Ret None (handle_error sh))
      | Some (cmd, None) \<Rightarrow> Some (Ret (Some (args_of cmd, None)) sh)
      | Some (cmd, Some f) \<Rightarrow> Some (Ret (Some (args_of cmd, Some f)) (sh\<lparr>allocs := allocs sh + 1\<rparr>)))"
proof (cases rule: redirection_cases [of ws])
  case none
  have "redirect_loop sh (args_of ws) 0 = redirect_loop sh (args_of ws) (length ws)"
    by (rule redirect_loop_skip) (use assms(2) none(1) in \<open>auto dest: nth_mem\<close>)
  then show ?thesis using none(2) assms(2) by (simp add: redirect_loop.simps [of _ _ "length ws"] nth_args_of)
next
  case (good cmd f)
  have "redirect_loop sh (args_of ws) 0 = redirect_loop sh (args_of ws) (length cmd)"
    by (rule redirect_loop_skip) (use assms(2) good in \<open>auto simp: nth_append dest: nth_mem\<close>)
  moreover have "NUL \<notin> set f" using assms(3) good(1) by simp
  moreover have "(args_of ws)[length cmd := None, Suc (length cmd) := None] = args_of cmd"
  proof -
    have "MAX_ARGS - length cmd = Suc (Suc (MAX_ARGS - length ws))" using assms(2) good(1) by simp
    then show ?thesis using good(1) by (simp add: args_of_def list_update_append)
  qed
  ultimately show ?thesis using good assms(1,2)
    by (simp add: redirect_loop.simps [of _ _ "length cmd"] redirect_ok_def nth_args_of nth_append copy_str)
next
  case (bad cmd rest)
  have "redirect_loop sh (args_of ws) 0 = redirect_loop sh (args_of ws) (length cmd)"
    by (rule redirect_loop_skip) (use assms(2) bad in \<open>auto simp: nth_append dest: nth_mem\<close>)
  moreover have "redirect_ok (args_of ws) (length cmd) = Some False"
  proof (cases "cmd = [] \<or> rest = []")
    case True
    then show ?thesis using assms(2) bad(1) by (auto simp: redirect_ok_def nth_args_of)
  next
    case False
    then have "2 \<le> length rest" using bad(3) by (cases rest; cases "tl rest") auto
    then show ?thesis using assms(2) bad(1) False by (auto simp: redirect_ok_def nth_args_of)
  qed
  ultimately show ?thesis using bad assms(2)
    by (simp add: redirect_loop.simps [of _ _ "length cmd"] nth_args_of nth_append)
qed

lemma path_loop_run:
  assumes "resources sh" "length ws < MAX_ARGS" "\<forall>w \<in> set ws. NUL \<notin> set w"
    and "length (dirs sh) = MAX_ARGS" "i < length ws"
  shows "\<exists>k. path_loop sh (args_of ws) i =
     Some (Ret (length ws - 1) (sh\<lparr>dirs := put_args (dirs sh) i (drop (Suc i) ws), allocs := k\<rparr>))"
  using assms(1,4,5)
proof (induction "length ws - i" arbitrary: sh i)
  case (Suc n)
  show ?case
  proof (cases "Suc i < length ws")
    case True
    let ?w = "ws ! Suc i" and ?sh = "sh\<lparr>allocs := allocs sh + 1, dirs := (dirs sh)[i := Some (ws ! Suc i)]\<rparr>"
    have "NUL \<notin> set ?w" using assms(3) True nth_mem by blast
    then have "path_loop sh (args_of ws) i = path_loop ?sh (args_of ws) (Suc i)"
      using True Suc.prems assms(2) by (subst path_loop.simps) (simp add: nth_args_of copy_str)
    moreover have "drop (Suc i) ws = ?w # drop (Suc (Suc i)) ws" using True by (simp add: Cons_nth_drop_Suc)
    ultimately show ?thesis using Suc.hyps(1) [of "Suc i" ?sh] Suc.hyps(2) Suc.prems True by simp
  next
    case False
    then have "drop (Suc i) ws = []" "i = length ws - 1" using Suc.prems by auto
    then show ?thesis using assms(2) False
      by (subst path_loop.simps) (auto simp: nth_args_of intro!: exI [of _ "allocs sh"])
  qed
qed simp

lemma find_command_run:
  assumes "dirs sh = args_of ds" "length ds < MAX_ARGS" "i \<le> length ds"
  shows "find_command sh cmd i =
     Some (find (access_ok sh (events sh)) (map (\<lambda>d. take (MAX_INPUT - 1) (d @ ''/'' @ cmd)) (drop i ds)))"
  using assms(3)
proof (induction "length ds - i" arbitrary: i)
  case 0
  then show ?case using assms(1,2) by (subst find_command.simps) (simp add: nth_args_of)
next
  case (Suc n)
  then have "i < length ds" by simp
  then have "drop i ds = ds ! i # drop (Suc i) ds" by (simp add: Cons_nth_drop_Suc)
  moreover note Suc.hyps(1) [of "Suc i"]
  ultimately show ?case using Suc.hyps(2) \<open>i < length ds\<close> assms(1,2)
    by (subst find_command.simps) (simp add: nth_args_of Let_def)
qed

lemma execute_cmd_run:
  assumes "resources sh" "dirs sh = args_of ds" "length ds < MAX_ARGS" "args \<noteq> []" "length args < MAX_ARGS"
  shows "execute_cmd sh f (args_of args) =
     Some (Ret () (with_view sh (run_external sh (ds, events sh, children sh) args f) (allocs sh)))"
proof -
  have "child sh f p (args_of args) = launched sh (events sh) f p args" for p
    by (simp add: child_def launched_def Let_def split: option.split)
  moreover have "fork_ok sh (events sh)" using assms(1) by (simp add: resources_def)
  moreover have "args ! 0 = hd args" using assms(4) by (simp add: hd_conv_nth)
  moreover have "with_view sh (ds, tr, n) (allocs sh) = sh\<lparr>events := tr, children := n\<rparr>" for tr n
    using assms(2) by (cases sh) (simp add: with_view_def)
  ultimately show ?thesis using assms find_command_run [OF assms(2,3), of 0 "hd args"]
    by (auto simp: execute_cmd_def nth_args_of run_external_def handle_error_def split: option.split)
qed

lemma with_view_id: "dirs sh = args_of ds \<Longrightarrow> with_view sh (ds, tr, children sh) k = sh\<lparr>events := tr, allocs := k\<rparr>"
  by (cases sh) (simp add: with_view_def)

lemma path_run:
  assumes "resources sh" "dirs sh = args_of ds" "length ds < MAX_ARGS"
    and "length (c # rest) < MAX_ARGS" "\<forall>w \<in> set (c # rest). NUL \<notin> set w"
  shows "\<exists>k. path_loop (sh\<lparr>dirs := clear (dirs sh)\<rparr>) (args_of (c # rest)) 0 =
     Some (Ret (length rest) (sh\<lparr>dirs := args_of rest, allocs := k\<rparr>))"
proof -
  have c: "clear (dirs sh) = args_of []" using assms(2,3) by (simp add: clear_args_of)
  have p: "put_args (args_of []) 0 rest = args_of rest" using assms(4) by (intro put_args_of) simp
  show ?thesis
    using path_loop_run [of "sh\<lparr>dirs := args_of []\<rparr>" "c # rest" 0] assms(1,4,5) c p by auto
qed

lemma dispatch_run:
  assumes "resources sh" "dirs sh = args_of ds" "length ds < MAX_ARGS"
    and "length args < MAX_ARGS" "\<forall>w \<in> set args. NUL \<notin> set w"
  shows "\<exists>k. dispatch sh (args_of args) f =
     Some (Ret () (with_view sh (run_words sh args f (ds, events sh, children sh)) k))"
proof (cases args)
  case Nil
  then show ?thesis using assms(2)
    by (auto simp: dispatch_def nth_args_of run_words_def with_view_id intro!: exI [of _ "allocs sh"])
next
  case (Cons cmd rest)
  have r1: "rd (args_of args) 1 = Some (if rest = [] then None else Some (hd rest))"
    using assms(4) Cons by (simp add: nth_args_of hd_conv_nth)
  have n: "None \<in> set (dirs sh)" using assms(2,3) by (simp add: args_of_def)
  consider "cmd = ''exit''" | "cmd = ''cd''" | "cmd = ''path''" | "\<not> is_built_in (Some cmd)"
    by (auto simp: is_built_in_run)
  then show ?thesis
  proof cases
    case 1
    then show ?thesis using assms(2,4) Cons r1
      by (auto simp: dispatch_def nth_args_of is_built_in_run execute_builtins_def built_in_commands_def run_words_def
        with_view_id handle_error_def intro!: exI [of _ "allocs sh"])
  next
    case 2
    then show ?thesis using assms(2,4) Cons r1
      by (auto simp: dispatch_def nth_args_of is_built_in_run execute_builtins_def built_in_commands_def run_words_def
        with_view_id handle_error_def intro!: exI [of _ "allocs sh"])
  next
    case 3
    have l: "length rest < MAX_ARGS" using assms(4) Cons by simp
    obtain k where "path_loop (sh\<lparr>dirs := clear (dirs sh)\<rparr>) (args_of (cmd # rest)) 0 =
        Some (Ret (length rest) (sh\<lparr>dirs := args_of rest, allocs := k\<rparr>))"
      using path_run [OF assms(1-3), of cmd rest] assms(4,5) Cons by auto
    moreover have "with_view sh (rest, events sh, children sh) k = sh\<lparr>dirs := args_of rest, allocs := k\<rparr>"
      by (cases sh) (simp add: with_view_def)
    ultimately show ?thesis using 3 assms(4) Cons n wr_args_of [OF l]
      by (auto simp: dispatch_def nth_args_of is_built_in_run execute_builtins_def built_in_commands_def run_words_def
        intro!: exI [of _ k])
  next
    case 4
    have "run_words sh args f v = run_external sh v args f" for v
      using 4 Cons by (auto simp: run_words_def is_built_in_run)
    then show ?thesis using 4 Cons assms(4) execute_cmd_run [OF assms(1-3) _ assms(4), of f]
      by (auto simp: dispatch_def nth_args_of)
  qed
qed

lemma spec_env [simp]:
  "run_words (sh\<lparr>allocs := k\<rparr>) = run_words sh" "run_words (sh\<lparr>events := tr\<rparr>) = run_words sh"
  "run_words (sh\<lparr>dirs := d\<rparr>) = run_words sh" "run_words (sh\<lparr>children := n\<rparr>) = run_words sh"
  by (simp_all add: fun_eq_iff run_words_def run_external_def launched_def cong: if_cong list.case_cong option.case_cong)

lemma run_command_with_view [simp]: "run_command (with_view sh v k) = run_command sh"
  by (simp add: fun_eq_iff run_command_def with_view_def split: prod.split option.split)

lemma with_view_collapse [simp]: "with_view (with_view sh v k) v' k' = with_view sh v' k'"
    "with_view (sh\<lparr>allocs := j\<rparr>) v k = with_view sh v k"
  by (cases sh; simp add: with_view_def split: prod.split)+

lemma with_view_fields [simp]: "dirs (with_view sh (ds, tr, n) k) = args_of ds" "events (with_view sh (ds, tr, n) k) = tr"
    "children (with_view sh (ds, tr, n) k) = n" "allocs (with_view sh (ds, tr, n) k) = k"
  by (simp_all add: with_view_def)

lemma resources_with_view [simp]: "resources (with_view sh v k) = resources sh"
  by (simp add: with_view_def split: prod.split)

lemma run_command_paths:
  assumes "length (fst v) < MAX_ARGS" "length ws < MAX_ARGS"
  shows "length (fst (run_command sh ws v)) < MAX_ARGS"
proof -
  have "length args \<le> length ws" if "redirection ws = Some (args, f)" for args f
    by (cases rule: redirection_cases [of ws]) (use that in auto)
  moreover have "length (fst (run_words sh args f v)) < MAX_ARGS" if "length args \<le> length ws" for args f
    using assms that by (auto simp: run_words_def run_external_def split: prod.split list.split option.split)
  ultimately show ?thesis using assms(1) by (auto simp: run_command_def split: option.split prod.split)
qed

lemma process_command_run:
  assumes "resources sh" "dirs sh = args_of ds" "length ds < MAX_ARGS"
    and "str_at b p = Some s" "length (words s) < MAX_ARGS"
  shows "\<exists>b' k. process_command sh b p =
      Some (Ret b' (with_view sh (run_command sh (words s) (ds, events sh, children sh)) k)) \<and>
    same_outside b b' p (p + length s) \<and>
    (\<forall>tok rest. s = tok @ rest \<and> tok \<noteq> [] \<and> set tok \<inter> set blanks = {} \<and> (rest = [] \<or> hd rest \<in> set blanks) \<longrightarrow>
       str_at b' p = Some tok)"
proof -
  let ?tok = "\<lambda>b'. \<forall>tok rest. s = tok @ rest \<and> tok \<noteq> [] \<and> set tok \<inter> set blanks = {} \<and>
      (rest = [] \<or> hd rest \<in> set blanks) \<longrightarrow> str_at b' p = Some tok"
  obtain b' k where p: "parse_input (sh\<lparr>allocs := allocs sh + 1\<rparr>) b p (replicate MAX_ARGS None) =
      Some (Ret (b', args_of (words s)) (sh\<lparr>allocs := k\<rparr>))" "same_outside b b' p (p + length s)" "?tok b'"
    using parse_input_run [of "sh\<lparr>allocs := allocs sh + 1\<rparr>" b p s] assms by auto
  let ?sh = "sh\<lparr>allocs := k\<rparr>"
  have nul: "\<forall>w \<in> set (words s). NUL \<notin> set w" using words_subset [of _ s] assms(4) by (auto simp: str_at_iff)
  have r: "resources ?sh" using assms(1) by simp
  note rl = redirect_loop_run [OF r assms(5) nul]
  have "\<exists>j. process_command sh b p =
      Some (Ret b' (with_view sh (run_command sh (words s) (ds, events sh, children sh)) j))"
  proof (cases "redirection (words s)")
    case None
    then show ?thesis using p(1) rl assms(1,2)
      by (auto simp: process_command_def run_command_def handle_error_def with_view_id intro!: exI [of _ k])
  next
    case (Some q)
    obtain args f where q: "q = (args, f)" by (cases q)
    have a: "length args < MAX_ARGS" "\<forall>w \<in> set args. NUL \<notin> set w"
      by (cases rule: redirection_cases [of "words s"]; use Some q assms(5) nul in auto)+
    define sh2 where "sh2 = sh\<lparr>allocs := if f = None then k else k + 1\<rparr>"
    obtain j where "dispatch sh2 (args_of args) f = Some (Ret () (with_view sh (run_words sh args f (ds, events sh, children sh)) j))"
      using dispatch_run [of sh2 ds args f] assms(1-3) a by (auto simp: sh2_def)
    moreover have "redirect_loop ?sh (args_of (words s)) 0 = Some (Ret (Some (args_of args, f)) sh2)"
      using rl Some q by (auto simp: sh2_def split: option.split)
    ultimately show ?thesis using p(1) assms(1) Some q by (auto simp: process_command_def run_command_def)
  qed
  then show ?thesis using p(2,3) by blast
qed

abbreviation run_commands :: "shell \<Rightarrow> string list \<Rightarrow> view \<Rightarrow> view" where
  "run_commands sh cs v \<equiv> fold (\<lambda>c. run_command sh (words c)) cs v"

lemma command_loop_run:
  assumes "resources sh" "dirs sh = args_of ds" "length ds < MAX_ARGS"
    and "str_at b p = Some c" "str_at b sv = Some s" "p + length c \<le> sv"
    and "\<forall>t \<in> set (c # tokens {CHR ''&''} s). length (words t) < MAX_ARGS"
  shows "\<exists>b' k. command_loop sh b (Some p) sv =
     Some (Ret b' (with_view sh (run_commands sh (c # tokens {CHR ''&''} s) (ds, events sh, children sh)) k))"
  using assms
proof (induction "length s" arbitrary: sh ds b p c sv s rule: less_induct)
  case less
  let ?v = "run_command sh (words c) (ds, events sh, children sh)"
  obtain b1 k where p: "process_command sh b p = Some (Ret b1 (with_view sh ?v k))" "same_outside b b1 p (p + length c)"
    using process_command_run [OF less.prems(1-4)] less.prems(7) by auto
  have s: "str_at b1 sv = Some s" by (rule str_at_keep [OF less.prems(5) p(2)]) (use less.prems(6) in simp)
  show ?case
  proof (cases rule: split_token [of s "set ''&''"])
    case 1
    then have "tokens {CHR ''&''} s = []" using tokens_skip [of s "{CHR ''&''}" "[]"] by simp
    then show ?thesis using p(1) libc_strtok_r_end [OF s 1]
      by (subst command_loop.simps) (auto simp: command_loop.simps [of _ _ None])
  next
    case (2 pre tok rest)
    obtain sv' b2 where k: "libc_strtok_r b1 sv ''&'' = Some (Some (sv + length pre), sv', b2)"
        "str_at b2 (sv + length pre) = Some tok" "str_at b2 sv' = Some (tl rest)"
        "sv + length pre + length tok \<le> sv'"
      using libc_strtok_r_token [OF s 2] by metis
    have t: "tokens {CHR ''&''} s = tok # tokens {CHR ''&''} (tl rest)" using 2 by (simp add: tokens_skip tokens_token)
    obtain ds' tr' n' where v: "?v = (ds', tr', n')" by (cases ?v)
    let ?sh = "with_view sh ?v k"
    have l: "length (tl rest) < length s" using 2(1,3) by (cases tok) auto
    have d: "dirs ?sh = args_of ds'" by (simp add: v)
    have "length ds' < MAX_ARGS"
      using run_command_paths [of "(ds, events sh, children sh)" "words c" sh] less.prems(3,7) v by simp
    from less.hyps [OF l _ d this k(2,3,4)] obtain b' j where "command_loop ?sh b2 (Some (sv + length pre)) sv' =
        Some (Ret b' (with_view sh (run_commands sh (tok # tokens {CHR ''&''} (tl rest)) ?v) j))"
      using less.prems(1,7) t by (auto simp: v)
    then show ?thesis using p(1) k(1) t by (subst command_loop.simps) auto
  qed
qed

lemma wait_loop_run: "wait_loop sh = sh\<lparr>children := 0, events := events sh @ replicate (children sh) Reaped\<rparr>"
proof (induction "children sh" arbitrary: sh)
  case 0
  then show ?case by (subst wait_loop.simps) (cases sh; simp)
next
  case (Suc n)
  show ?case using Suc.hyps(1) [of "sh\<lparr>children := n, events := events sh @ [Reaped]\<rparr>"]
    by (subst wait_loop.simps) (simp add: Suc.hyps(2) [symmetric])
qed


text \<open>The state after the children have been waited for.\<close>

definition reaped :: "view \<Rightarrow> view" where
  "reaped v = (let (ds, tr, n) = v in (ds, tr @ replicate n Reaped, 0))"

lemma wait_with_view: "wait_loop (with_view sh v k) = with_view sh (reaped v) k"
  by (cases v) (simp add: wait_loop_run with_view_def reaped_def)

lemma with_view_self: "dirs sh = args_of ds \<Longrightarrow> with_view sh (ds, events sh, children sh) (allocs sh) = sh"
  by (cases sh) (simp add: with_view_def)

lemma process_line_run:
  assumes "resources sh" "dirs sh = args_of ds" "length ds < MAX_ARGS" "NUL \<notin> set line"
    and "\<forall>c \<in> set (tokens {CHR ''&''} line). length (words c) < MAX_ARGS"
  shows "\<exists>b k. process_line sh (Some (line @ [NUL])) =
      Some (Ret b (with_view sh (reaped (run_commands sh (tokens {CHR ''&''} line) (ds, events sh, children sh))) k))"
proof -
  have s: "str_at (line @ [NUL]) 0 = Some line" using assms(4) by simp
  show ?thesis
  proof (cases rule: split_token [of line "set ''&''"])
    case 1
    then have "tokens {CHR ''&''} line = []" using tokens_skip [of line "{CHR ''&''}" "[]"] by simp
    then show ?thesis
      using libc_strtok_r_end [OF s 1] wait_with_view [of sh "(ds, events sh, children sh)" "allocs sh"] assms(2)
      by (auto simp: process_line_def command_loop.simps [of _ _ None] with_view_self)
  next
    case (2 pre tok rest)
    obtain sv b where k: "libc_strtok_r (line @ [NUL]) 0 ''&'' = Some (Some (length pre), sv, b)"
        "str_at b (length pre) = Some tok" "str_at b sv = Some (tl rest)" "length pre + length tok \<le> sv"
      using libc_strtok_r_token [OF s 2] by (metis add_0)
    have t: "tokens {CHR ''&''} line = tok # tokens {CHR ''&''} (tl rest)" using 2 by (simp add: tokens_skip tokens_token)
    then obtain b' j where "command_loop sh b (Some (length pre)) sv =
        Some (Ret b' (with_view sh (run_commands sh (tokens {CHR ''&''} line) (ds, events sh, children sh)) j))"
      using command_loop_run [OF assms(1-3) k(2-4)] assms(5) by auto
    then show ?thesis using k(1) by (auto simp: process_line_def wait_with_view)
  qed
qed

text \<open>A line with one command that starts with a word leaves that word at the start of the buffer.\<close>

lemma process_line_single:
  assumes "resources sh" "dirs sh = args_of ds" "length ds < MAX_ARGS" "NUL \<notin> set line" "CHR ''&'' \<notin> set line"
    and "line = tok @ rest" "tok \<noteq> []" "set tok \<inter> set blanks = {}" "rest = [] \<or> hd rest \<in> set blanks"
    and "length (words line) < MAX_ARGS"
  shows "\<exists>b k. process_line sh (Some (line @ [NUL])) =
      Some (Ret b (with_view sh (reaped (run_command sh (words line) (ds, events sh, children sh))) k)) \<and>
    str_at b 0 = Some tok"
proof -
  have s: "str_at (line @ [NUL]) 0 = Some line" using assms(4) by simp
  have t: "line = [] @ line @ []" "set [] \<subseteq> set ''&''" "line \<noteq> []" "set line \<inter> set ''&'' = {}" "[] = [] \<or> hd [] \<in> set ''&''"
    using assms(5-7) by auto
  obtain b0 where k: "libc_strtok_r (line @ [NUL]) 0 ''&'' = Some (Some 0, length line, b0)"
      "str_at b0 0 = Some line" "str_at b0 (length line) = Some []"
    using libc_strtok_r_token [OF s t] by auto
  obtain b k where p: "process_command sh b0 0 =
      Some (Ret b (with_view sh (run_command sh (words line) (ds, events sh, children sh)) k))"
      "same_outside b0 b 0 (length line)" "str_at b 0 = Some tok"
    using process_command_run [OF assms(1-3) k(2) assms(10)] assms(6-9) by auto
  have "str_at b (length line) = Some []" using str_at_keep [OF k(3) p(2)] by simp
  then have "libc_strtok_r b (length line) ''&'' = Some (None, length line, b)"
    using libc_strtok_r_end [of b "length line" "[]" "''&''"] by simp
  then show ?thesis using p k(1)
    by (auto simp: process_line_def command_loop.simps [of _ _ "Some _"] command_loop.simps [of _ _ None] wait_with_view)
qed

lemma getline_line: "CHR 0x0A \<notin> set s \<Longrightarrow>
    libc_getline (s @ CHR 0x0A # rest) = Some (s @ [CHR 0x0A], rest, False)"
proof -
  assume "CHR 0x0A \<notin> set s"
  then have "takeWhile (\<lambda>c. c \<noteq> CHR 0x0A) (s @ CHR 0x0A # rest) = s" by (subst takeWhile_append2) auto
  then show ?thesis by (simp add: libc_getline_def)
qed

lemma initial_dirs: "(replicate MAX_ARGS None)[0 := Some d, Suc 0 := None] = args_of [d]"
  by (simp add: args_of_def numeral_eq_Suc)

section \<open>Properties\<close>


definition demo_shell :: shell where
  "demo_shell = \<lparr>dirs = args_of [''/bin''], events = [], children = 0, allocs = 0, alloc_ok = \<lambda>n. True,
     chdir_ok = \<lambda>tr d. True, access_ok = \<lambda>tr p. p = ''/bin/ls'', fork_ok = \<lambda>tr. True, open_ok = \<lambda>tr f. True,
     exec_ok = \<lambda>tr p. True\<rparr>"

text \<open>
  The bound on the words is needed: the loop of \<open>parse_input\<close> stores two entries in one iteration, and
  a redirection sign inside the 63rd word makes it write the terminating null pointer outside the array.
\<close>

lemma parse_input_overflow:
  "parse_input demo_shell (concat (replicate 62 ''a '') @ ''b>c'' @ [NUL]) 0 (replicate MAX_ARGS None) = None"
  by code_simp


text \<open>
  C39.  \<open>exit\<close> with arguments ends the shell.  The specification makes it an error, after which a
  shell goes on; the error is reported, but the main loop only looks at the first word that is left in the input buffer:
  whatever the rest of the batch file holds, the program returns 0 without reading it.
\<close>

theorem exit_with_arguments:
  assumes "resources sh" "children sh = 0" "bl = CHR '' '' \<or> bl = CHR 0x09"
    and "set r \<inter> {NUL, CHR 0x0A, CHR ''&'', CHR ''>''} = {}" "words r \<noteq> []" "length (words r) < MAX_ARGS - 1"
  shows "\<exists>sh'. wish_main sh [''./wish'', name] input (Some (''exit'' @ bl # r @ CHR 0x0A # rest)) = Some (Exited 0 sh') \<and>
    events sh' = events sh @ [Error]"
proof -
  define line where "line = ''exit'' @ bl # r @ [CHR 0x0A]"
  define sh1 where "sh1 = sh\<lparr>allocs := allocs sh + 1, dirs := args_of [''/bin'']\<rparr>"
  have sh1: "resources sh1" "dirs sh1 = args_of [''/bin'']" "events sh1 = events sh" "children sh1 = 0"
    using assms(1,2) by (simp_all add: sh1_def)
  have w: "words line = ''exit'' # words (r @ [CHR 0x0A])"
    using words_token [of "[]" "''exit''" "bl # r @ [CHR 0x0A]"] assms(3) by (auto simp: line_def split_gt_none)
  then have w: "words line = ''exit'' # words r" using words_snoc_blank [of "CHR 0x0A" r] by simp
  have "''>'' \<notin> set (words line)" using words_subset [of "''>''" r] assms(4) by (auto simp: w)
  then have v: "run_command sh1 (words line) ([''/bin''], events sh, 0) = ([''/bin''], events sh @ [Error], 0)"
    using assms(5) by (simp add: run_command_def redirection_def w run_words_def)
  have line: "NUL \<notin> set line" "CHR ''&'' \<notin> set line" using assms(3,4) by (auto simp: line_def)
  obtain b k where p: "process_line sh1 (Some (line @ [NUL])) =
      Some (Ret b (with_view sh1 ([''/bin''], events sh @ [Error], 0) k))" "str_at b 0 = Some ''exit''"
    using process_line_single [of sh1 "[''/bin'']" line "''exit''" "bl # r @ [CHR 0x0A]"] assms(3-6) sh1 v w line
    by (auto simp: reaped_def line_def)
  have g: "read_line sh1 2 ''./wish'' (''exit'' @ bl # r @ CHR 0x0A # rest) = (sh1, Some (Some (line @ [NUL]), rest))"
    using getline_line [of "''exit'' @ bl # r" rest] assms(3,4) by (auto simp: read_line_def line_def)
  have "main_loop sh1 2 ''./wish'' (''exit'' @ bl # r @ CHR 0x0A # rest) =
      Some (Ret () (with_view sh1 ([''/bin''], events sh @ [Error], 0) k))"
    by (subst main_loop.simps) (simp only: g, simp add: p built_in_commands_def)
  then show ?thesis using copy_str [of "sh\<lparr>dirs := replicate MAX_ARGS None\<rparr>" "''/bin''"] assms(1) initial_dirs
    by (auto simp: wish_main_def sh1_def numeral_2_eq_2)
qed

theorem exit_with_arguments_witness:
  "\<exists>sh'. wish_main demo_shell [''./wish'', ''batch''] [] (Some (''exit'' @ CHR '' '' # ''now'' @ CHR 0x0A # ''ls'' @ [CHR 0x0A])) =
     Some (Exited 0 sh') \<and> events sh' = [Error]"
proof -
  have "words ''now'' = [''now'']" by code_simp
  then show ?thesis
    using exit_with_arguments [of demo_shell "CHR '' ''" "''now''" "''batch''" "[]" "''ls'' @ [CHR 0x0A]"]
    by (simp add: demo_shell_def resources_def)
qed

end
