(* ===== verification/Spec2Isabelle.thy ===== *)
theory Spec2Isabelle
  imports Prelude KSort Bitmap Hash Synch CString Arith64 Stdio Pagedir Filesys CharIO Wish
begin

text \<open>
  \<^bold>\<open>Verification of the Pintos kernel and of the wish shell\<close>

  The repository holds two programs: the teaching kernel Pintos in \<open>src/aos_pintos/src\<close>, and the
  shell \<open>wish\<close> in \<open>src/aos_wish_shell\<close>.  This library models the kernel's data structures, its scheduler
  and synchronization primitives, its C library, its page allocator, its block devices, file system
  and character devices, and the whole of the shell, and proves that they do what they are for.

  \<^bold>\<open>Conventions.\<close>  Every C function is a function of the same name.  State is passed explicitly, as a
  record with the fields of the C structure or the global variables of the C file.  A function
  whose C original can fail an \<open>ASSERT\<close>, dereference a null or unmapped pointer or execute an
  undefined operation returns an option, and \<open>None\<close> stands for this failure; so a theorem that the
  result is \<open>Some\<close> also says that the code does not panic.  Machine integers are words of
  their width, so that sums wrap around as they do in the code; where C makes overflow undefined
  (\<open>atoi\<close>, \<open>bytes_to_sectors\<close>) the integers are unbounded and the overflow is a failure.  A loop over a counter is \<open>for_range\<close>, a loop over a data
  structure is recursion on it, and a loop whose end is not obvious (over a string, a linked list, or a device that
  is polled) is a \<open>partial_function\<close> in the option type, for which a result is proved wherever
  it is claimed.  Compilation without \<open>NDEBUG\<close> is assumed: assertions are checked.

  \<^bold>\<open>The parts.\<close>

  \<^item> \<open>Prelude\<close>: assertions, counting loops, the rounding macros of \<open>lib/round.h\<close>, and the locale
    \<open>strict_weak_order\<close> for the comparison callbacks of lists and hash tables.

  \<^item> \<open>KList\<close>, \<open>KSort\<close> (\<open>lib/kernel/list.c\<close>): the intrusive lists on a heap of \<open>prev\<close> and \<open>next\<close>
    pointers.  A predicate relates a heap to the sequence of elements of a list; insertion,
    removal, splicing, reversal, the natural merge sort, ordered insertion, duplicate removal and
    \<open>get_sorted_index\<close> are shown to act on this sequence and to leave the rest of the heap alone.

  \<^item> \<open>Bitmap\<close> (\<open>lib/kernel/bitmap.c\<close>): bit operations on an array of 32-bit elements, first-fit
    scanning, and the locale \<open>region_allocator\<close>, the contract under which the page allocator and
    the free map of the file system use a bitmap.

  \<^item> \<open>Hash\<close> (\<open>lib/kernel/hash.c\<close>): buckets as element sequences, resizing with \<open>malloc\<close> that may fail,
    iteration, and the hash functions.  The locale \<open>hash_contract\<close> states what the callbacks must satisfy.

  \<^item> \<open>Thread\<close> (\<open>threads/thread.c\<close>, parts of \<open>threads/interrupt.c\<close>): the run queue, thread states,
    creation, blocking, yielding, exit and the timer tick.  \<open>Synch\<close> (\<open>threads/synch.c\<close>): semaphores,
    locks and condition variables.  A suspended thread keeps a stack of frames, what it
    has to do when it runs again; an inductive step relation interleaves primitives, interrupts and context
    switches, and the invariants are proved by rule induction over it.

  \<^item> \<open>CString\<close> (\<open>lib/string.c\<close>), \<open>Stdlib\<close> (\<open>lib/stdlib.c\<close>, \<open>lib/ctype.h\<close>), \<open>Arith64\<close>
    (\<open>lib/arithmetic.c\<close>), \<open>Stdio\<close> (\<open>lib/stdio.c\<close>): the C library on a byte memory with unmapped
    addresses.  Each routine is compared with a specification on lists of bytes or on
    integers; printing and reading a number are inverse.

  \<^item> \<open>Vaddr\<close> (\<open>threads/vaddr.h\<close>, \<open>threads/pte.h\<close>) and \<open>Palloc\<close> (\<open>threads/palloc.c\<close>): addresses, page
    table entries, and the two page pools over a byte memory of all 32-bit addresses.  \<open>palloc_init\<close> establishes the
    invariant and every operation keeps it.  The locale \<open>page_source\<close> is the contract of a page allocator,
    interpreted on \<open>palloc_get_page\<close> and \<open>palloc_free_page\<close>.

  \<^item> \<open>Block\<close> (\<open>devices/block.c\<close>, \<open>devices/partition.c\<close>): devices, roles, counters, and the scan of partition tables.
    The locale \<open>sector_store\<close> is what the file system uses of a device.

  \<^item> \<open>Inode\<close> (\<open>filesys/inode.c\<close>, \<open>file.c\<close>, \<open>free-map.c\<close>), \<open>Directory\<close> (\<open>directory.c\<close>), \<open>Filesys\<close>
    (\<open>filesys.c\<close>): the file system on the sectors of a device.  An inode refines the list of bytes of
    a file, a directory a finite map from names to sectors, and opening and closing restore the table of open inodes.

  \<^item> \<open>CharIO\<close> (\<open>devices/intq.c\<close>, \<open>input.c\<close>, \<open>serial.c\<close>, \<open>kbd.c\<close>): ring buffers between interrupt handlers
    and threads, the serial port in its three modes, and the keyboard.  The locale \<open>byte_queue\<close> is the contract of a
    queue; the bytes sent are those accepted, in order.

  \<^item> \<open>Wish\<close> (\<open>aos_wish_shell/wish.c\<close>): from the splitting of a line into commands to the main loop.  The
    operating system is a parameter: it decides which calls fail.  The code refines a specification of a command line.

  \<^bold>\<open>Bounds and fuel.\<close>  The recursive scan of partition tables takes the depth of recursion it may still use, as the
    code's recursion is bounded only by its stack; the theorem about an extended partition
    holds for every depth.  No other model takes fuel.  Sizes are bounded only by the width of
    the words, except where a theorem names a bound: \<open>palloc_init\<close> is treated for less than a
    gigabyte of memory, the most that the kernel's direct mapping can address.

  \<^bold>\<open>Concurrency.\<close>  The interleaving of threads is modelled for the scheduler and the synchronization
  primitives.  The other components run each operation as one step, which their locks or disabled interrupts give;
  that a component takes its lock is not part of its model.

  \<^bold>\<open>Where the code differs from its intent.\<close>  Some theorems state what the code does where that is not what a
  comment or the manual says: the result of \<open>memmove\<close>, the truncated 64-bit remainder, the scan
  of an extended partition, symbolic links without a target, and \<open>exit\<close> with arguments in the
  shell.

  \<^bold>\<open>Not modelled.\<close>  Assembly code (\<open>loader.S\<close>, \<open>start.S\<close>, \<open>intr-stubs.S\<close>, \<open>switch.S\<close>) and the tables of
  the processor (\<open>gdt.c\<close>, \<open>tss.c\<close>, the interrupt descriptor table), whose meaning is that of the machine.  Drivers that
  are port input and output without state of their own (\<open>ide.c\<close>, \<open>vga.c\<close>, \<open>pit.c\<close>, \<open>rtc.c\<close>,
  \<open>speaker.c\<close>, \<open>shutdown.c\<close>).  Start-up (\<open>init.c\<close>) and the placeholders of \<open>userprog/\<close>.
  The busy waiting of \<open>timer.c\<close>.  The console, panics and backtraces, of which only the effect that a panic does not
  return is kept.  \<open>fsutil.c\<close>, \<open>ustar.c\<close>, the user library, host utilities, examples and tests.  The directory
  \<open>vm/\<close> is empty.
\<close>

end
